theory Spec2Isabelle
  imports Complex_Main "HOL-Library.Word"
begin

unbundle bit_operations_syntax

section \<open>Machine integers and constants\<close>

text \<open>
  The file \<open>source/common/quant.cpp\<close> computes on \<open>int\<close>, \<open>uint32_t\<close>, \<open>int32_t\<close> (all 32 bit),
  \<open>uint16_t\<close>, \<open>int16_t\<close> and \<open>int64_t\<close>.  The small bit-twiddling helpers are embedded on
  \<open>32 word\<close>: \<open>+\<close>, \<open>-\<close>, \<open>*\<close> wrap around, \<open>sint\<close> reads a word as two's complement,
  \<open>signed_drop_bit\<close> is the arithmetic right shift of a signed operand and \<open>drop_bit\<close> the
  logical right shift of an unsigned one.  \<open>coeff_t\<close> is the 32-bit type the file converts to
  with \<open>cvt16to32_shl\<close> and from with \<open>cvt32to16_shr\<close>.
\<close>

definition IEP_RATE :: "32 word" where
  "IEP_RATE = 32768"

definition COEF_REMAIN_BIN_REDUCTION :: "32 word" where
  "COEF_REMAIN_BIN_REDUCTION = 3"

text \<open>
  \<open>CLZ32(id, x)\<close> is a macro declared outside the file.  The source's note at its use says it
  maps to the x86 instruction BSR: the index of the most significant set bit of \<open>x\<close>.
\<close>

fun bsr :: "nat \<Rightarrow> nat" where
  "bsr n = (if n < 2 then 0 else Suc (bsr (n div 2)))"

declare bsr.simps [simp del]

definition CLZ32 :: "32 word \<Rightarrow> 32 word" where
  "CLZ32 x = of_nat (bsr (unat x))"

text \<open>\<open>fastMin(x, y) = y + ((x - y) & ((x - y) >> 31))\<close> on \<open>int\<close>.\<close>

definition fastMin :: "32 word \<Rightarrow> 32 word \<Rightarrow> 32 word" where
  "fastMin x y = y + ((x - y) AND signed_drop_bit 31 (x - y))"

subsection \<open>Noise reduction: \<open>denoiseDct\<close>\<close>

text \<open>
  One iteration of the loop body: the new coefficient and the new running sum for one
  position, from the coefficient, the running sum and the offset at that position.
\<close>

definition denoise_coef :: "32 word \<Rightarrow> 32 word \<Rightarrow> 16 word \<Rightarrow> 32 word \<times> 32 word" where
  "denoise_coef c rs off =
     (let level = c;
          sign = signed_drop_bit 31 level;
          level = (level + sign) XOR sign;
          rs' = rs + level;
          level = level - ucast off
      in (if level <s 0 then 0 else (level XOR sign) - sign, rs'))"

function denoiseDct_from ::
  "nat \<Rightarrow> 32 word list \<Rightarrow> 32 word list \<Rightarrow> 16 word list \<Rightarrow> nat \<Rightarrow> 32 word list \<times> 32 word list"
where
  "denoiseDct_from i dctCoef resSum offset n =
     (if i < n
      then (let (c, r) = denoise_coef (dctCoef ! i) (resSum ! i) (offset ! i)
            in denoiseDct_from (Suc i) (dctCoef[i := c]) (resSum[i := r]) offset n)
      else (dctCoef, resSum))"
  by pat_completeness auto
termination
  by (relation "measure (\<lambda>(i, d, r, off, n). n - i)") auto

declare denoiseDct_from.simps [simp del]

definition denoiseDct ::
  "32 word list \<Rightarrow> 32 word list \<Rightarrow> 16 word list \<Rightarrow> nat \<Rightarrow> 32 word list \<times> 32 word list"
where
  "denoiseDct dctCoef resSum offset n = denoiseDct_from 0 dctCoef resSum offset n"

subsection \<open>Coefficient rates: \<open>getICRate\<close> and \<open>getICRateCost\<close>\<close>

text \<open>
  \<open>g_goRiceRange\<close> is a table declared outside the file; it is the first argument here.
  \<open>greaterOneBits\<close> and \<open>levelAbsBits\<close> point at rows of the CABAC bit estimates.
\<close>

definition getICRate ::
  "32 word list \<Rightarrow> 32 word \<Rightarrow> 32 word \<Rightarrow> 32 word list \<Rightarrow> 32 word list \<Rightarrow> 32 word \<Rightarrow> 32 word \<Rightarrow> 32 word"
where
  "getICRate g_goRiceRange absLevel diffLevel greaterOneBits levelAbsBits absGoRice c1c2Idx =
     (if absLevel = 0 then 0
      else if diffLevel <s 0 then
        (let rate = greaterOneBits ! (if absLevel = 2 then 1 else 0)
         in if absLevel = 2 then rate + levelAbsBits ! 0 else rate)
      else
        (let symbol = diffLevel;
             maxVlc = g_goRiceRange ! unat absGoRice;
             expGolomb = (maxVlc < symbol);
             rate = (if expGolomb
                     then push_bit 15 (CLZ32 (symbol - maxVlc) * 2 + 1)
                     else 0);
             symbol = (if expGolomb then maxVlc + 1 else symbol);
             prefLen = drop_bit (unat absGoRice) symbol + 1;
             numBins = fastMin (prefLen + absGoRice) 8;
             rate = rate + push_bit 15 numBins;
             rate = (if c1c2Idx AND 1 \<noteq> 0 then rate + greaterOneBits ! 1 else rate);
             rate = (if c1c2Idx = 3 then rate + levelAbsBits ! 1 else rate)
         in rate))"

definition getICRateCost ::
  "32 word \<Rightarrow> 32 word \<Rightarrow> 32 word list \<Rightarrow> 32 word list \<Rightarrow> 32 word \<Rightarrow> 32 word \<Rightarrow> 32 word"
where
  "getICRateCost absLevel diffLevel greaterOneBits levelAbsBits absGoRice c1c2Idx =
     (let rate = IEP_RATE
      in if diffLevel <s 0 then
        (let rate = rate + greaterOneBits ! (if absLevel = 2 then 1 else 0)
         in if absLevel = 2 then rate + levelAbsBits ! 0 else rate)
      else
        (let symbol = diffLevel;
             rate =
               (if drop_bit (unat absGoRice) symbol < COEF_REMAIN_BIN_REDUCTION
                then (let len = drop_bit (unat absGoRice) symbol
                      in rate + push_bit 15 (len + 1 + absGoRice))
                else (let symbol = drop_bit (unat absGoRice) symbol - COEF_REMAIN_BIN_REDUCTION;
                          len = (if symbol \<noteq> 0 then CLZ32 (symbol + 1) else 0)
                      in rate + push_bit 15
                           (COEF_REMAIN_BIN_REDUCTION + len + absGoRice + 1 + len)));
             rate = (if c1c2Idx AND 1 \<noteq> 0 then rate + greaterOneBits ! 1 else rate);
             rate = (if c1c2Idx = 3 then rate + levelAbsBits ! 1 else rate)
         in rate))"

subsection \<open>Cost of the last significant position: \<open>getRateLast\<close>\<close>

text \<open>
  \<open>getGroupIdx\<close> is declared outside the file; it is the first argument here.  The tables
  \<open>lastXBits\<close> and \<open>lastYBits\<close> are fields of the bit estimates \<open>m_estBitsSbac\<close>.
\<close>

definition getRateLast ::
  "(32 word \<Rightarrow> 32 word) \<Rightarrow> 32 word list \<Rightarrow> 32 word list \<Rightarrow> 32 word \<Rightarrow> 32 word \<Rightarrow> 32 word"
where
  "getRateLast getGroupIdx lastXBits lastYBits posx posy =
     (let ctxX = getGroupIdx posx;
          ctxY = getGroupIdx posy;
          cost = lastXBits ! unat ctxX + lastYBits ! unat ctxY;
          maskX = signed_drop_bit 31 (2 - posx);
          maskY = signed_drop_bit 31 (2 - posy);
          cost = cost + (maskX AND (IEP_RATE * drop_bit 1 (ctxX - 2)));
          cost = cost + (maskY AND (IEP_RATE * drop_bit 1 (ctxY - 2)))
      in cost)"

section \<open>Integer model of the block-level code\<close>

text \<open>
  The block-level functions are embedded on \<open>int\<close> and \<open>nat\<close> with the wrap-around of the machine
  types written out: a value stored in an \<open>int\<close> / \<open>int32_t\<close> / \<open>coeff_t\<close> goes through \<open>s32\<close>,
  one stored in a \<open>uint32_t\<close> through \<open>u32\<close>, one stored in an \<open>int64_t\<close> through \<open>s64\<close> and
  one stored in a \<open>uint64_t\<close> through \<open>u64\<close>.  Arrays are lists; an index out of range is not
  modelled as a failure (the theorems assume arrays of the block's size and scans that are
  permutations), except for \<open>minPos = -1\<close> in the sign-bit-hiding passes, which is the
  result \<open>None\<close>.
\<close>

definition s32 :: "int \<Rightarrow> int" where
  "s32 x = signed_take_bit 31 x"

definition u32 :: "int \<Rightarrow> int" where
  "u32 x = take_bit 32 x"

definition s64 :: "int \<Rightarrow> int" where
  "s64 x = signed_take_bit 63 x"

definition u64 :: "int \<Rightarrow> int" where
  "u64 x = take_bit 64 x"

text \<open>\<open>abs\<close> of \<open>stdlib.h\<close> on \<open>int\<close>.\<close>

definition abs32 :: "int \<Rightarrow> int" where
  "abs32 x = s32 \<bar>x\<bar>"

definition MAX_INT :: int where
  "MAX_INT = 2147483647"

definition MAX_INT64 :: int where
  "MAX_INT64 = 9223372036854775807"

definition SCAN_SET_SIZE :: nat where
  "SCAN_SET_SIZE = 16"

definition LOG2_SCAN_SET_SIZE :: nat where
  "LOG2_SCAN_SET_SIZE = 4"

definition SBH_THRESHOLD :: int where
  "SBH_THRESHOLD = 4"

text \<open>
  \<open>TUEntropyCodingParameters\<close> is declared outside the file; these are the fields the file
  reads.  \<open>scanType\<close> is \<open>True\<close> for \<open>SCAN_VER\<close>.
\<close>

record TUEntropyCodingParameters =
  scan :: "nat list"
  scanCG :: "nat list"
  scanTypeVer :: bool
  log2TrSizeCG :: nat
  firstSignificanceMapContext :: nat

subsection \<open>The searches shared by both sign-bit-hiding passes\<close>

text \<open>
  \<open>for (n = SCAN_SET_SIZE - 1; n >= 0; --n) if (qCoef[scan[n + subPos]]) break;\<close>
  started with \<open>k = SCAN_SET_SIZE\<close>; the result is the final \<open>n\<close>, \<open>-1\<close> when the group is zero.
\<close>

fun lastNZPos :: "int list \<Rightarrow> nat list \<Rightarrow> nat \<Rightarrow> nat \<Rightarrow> int" where
  "lastNZPos qCoef scn subPos 0 = - 1"
| "lastNZPos qCoef scn subPos (Suc n) =
     (if qCoef ! (scn ! (n + subPos)) \<noteq> 0 then int n else lastNZPos qCoef scn subPos n)"

text \<open>
  \<open>for (n = 0;; n++) if (qCoef[scan[n + subPos]]) break;\<close>  The source's loop has no bound:
  it runs after the backward search has found a nonzero coefficient at \<open>lastNZPosInCG\<close> and
  stops there at the latest.  The embedding carries that position as \<open>bound\<close>, which makes the
  recursion terminate and is never the reason for stopping (lemma \<open>group_first_last\<close>).
\<close>

function firstNZPos :: "int list \<Rightarrow> nat list \<Rightarrow> nat \<Rightarrow> nat \<Rightarrow> nat \<Rightarrow> nat" where
  "firstNZPos qCoef scn subPos bound n =
     (if qCoef ! (scn ! (n + subPos)) \<noteq> 0 \<or> bound \<le> n then n
      else firstNZPos qCoef scn subPos bound (Suc n))"
  by pat_completeness auto
termination
  by (relation "measure (\<lambda>(q, s, p, bound, n). bound - n)") auto

declare firstNZPos.simps [simp del]

text \<open>The state of the search for the cheapest position to change.\<close>

record sbh_search =
  minCostInc :: int
  minPos :: int
  finalChange :: int
  curCost :: int
  curChange :: int

text \<open>The last statement of the loop body: \<open>if (curCost < minCostInc) { ... }\<close>.\<close>

definition sbh_take_min :: "nat \<Rightarrow> sbh_search \<Rightarrow> sbh_search" where
  "sbh_take_min blkPos s =
     (if curCost s < minCostInc s
      then s\<lparr>minCostInc := curCost s, finalChange := curChange s, minPos := int blkPos\<rparr>
      else s)"

text \<open>
  The statements after the search, shared by both passes: the clamp at the ends of the
  16-bit range, the update of \<open>numSig\<close> and the change of the coefficient along the sign of
  the DCT coefficient.  Reading \<open>qCoef[minPos]\<close> with \<open>minPos = -1\<close> is the result \<open>None\<close>.
\<close>

definition sbh_apply ::
  "int list \<Rightarrow> int list \<Rightarrow> int \<Rightarrow> sbh_search \<Rightarrow> (int list \<times> int) option"
where
  "sbh_apply qCoef coef numSig s =
     (if minPos s < 0 then None
      else
        (let mp = nat (minPos s);
             fc = (if qCoef ! mp = 32767 \<or> qCoef ! mp = - 32768 then - 1 else finalChange s);
             numSig = (if qCoef ! mp = 0 then u32 (numSig + 1)
                       else if fc = - 1 \<and> abs32 (qCoef ! mp) = 1 then u32 (numSig - 1)
                       else numSig);
             qCoef = (if coef ! mp \<ge> 0 then qCoef[mp := s32 (qCoef ! mp + fc)]
                      else qCoef[mp := s32 (qCoef ! mp - fc)])
         in Some (qCoef, numSig)))"

subsection \<open>Sign-bit hiding after plain quantisation: \<open>signBitHidingHDQ\<close>\<close>

text \<open>\<open>absSum\<close> is a \<open>uint32_t\<close> here; the coefficients are added as they are, with their sign.\<close>

definition hdq_absSum :: "int list \<Rightarrow> nat list \<Rightarrow> nat \<Rightarrow> nat \<Rightarrow> nat \<Rightarrow> int" where
  "hdq_absSum qCoef scn subPos firstNZ lastNZ =
     fold (\<lambda>n absSum. u32 (absSum + qCoef ! (scn ! (n + subPos)))) [firstNZ..<Suc lastNZ] 0"

text \<open>The body of the search loop up to the comparison, for scan position \<open>n\<close> of the group.\<close>

definition hdq_cost ::
  "int list \<Rightarrow> int list \<Rightarrow> int list \<Rightarrow> nat \<Rightarrow> int \<Rightarrow> nat \<Rightarrow> nat \<Rightarrow> sbh_search \<Rightarrow> sbh_search"
where
  "hdq_cost qCoef coef deltaU firstNZPosInCG signbit n blkPos s =
     (if qCoef ! blkPos \<noteq> 0 then
        (if deltaU ! blkPos > 0
         then s\<lparr>curCost := s32 (- (deltaU ! blkPos)), curChange := 1\<rparr>
         else if n = firstNZPosInCG \<and> abs32 (qCoef ! blkPos) = 1
         then s\<lparr>curCost := MAX_INT\<rparr>
         else s\<lparr>curCost := deltaU ! blkPos, curChange := - 1\<rparr>)
      else
        (if n < firstNZPosInCG then
           (let thisSignBit = (if coef ! blkPos \<ge> 0 then 0 else 1 :: int)
            in if thisSignBit \<noteq> signbit
               then s\<lparr>curCost := MAX_INT\<rparr>
               else s\<lparr>curCost := s32 (- (deltaU ! blkPos)), curChange := 1\<rparr>)
         else s\<lparr>curCost := s32 (- (deltaU ! blkPos)), curChange := 1\<rparr>))"

text \<open>\<open>for (n = start; n >= 0; --n) { ... }\<close>, started with \<open>k = start + 1\<close>.\<close>

fun hdq_search ::
  "int list \<Rightarrow> int list \<Rightarrow> int list \<Rightarrow> nat list \<Rightarrow> nat \<Rightarrow> nat \<Rightarrow> int \<Rightarrow> nat \<Rightarrow> sbh_search
   \<Rightarrow> sbh_search"
where
  "hdq_search qCoef coef deltaU scn subPos firstNZ signbit 0 s = s"
| "hdq_search qCoef coef deltaU scn subPos firstNZ signbit (Suc n) s =
     hdq_search qCoef coef deltaU scn subPos firstNZ signbit n
       (let blkPos = scn ! (n + subPos)
        in sbh_take_min blkPos (hdq_cost qCoef coef deltaU firstNZ signbit n blkPos s))"

definition sbh_init :: "int \<Rightarrow> sbh_search" where
  "sbh_init mx = \<lparr>minCostInc = mx, minPos = - 1, finalChange = 0, curCost = mx, curChange = 0\<rparr>"

text \<open>
  The body of the loop over the coefficient groups, for the group \<open>subSet\<close>.  The state is
  the coefficient block, \<open>numSig\<close> and \<open>lastCG\<close>.  A group without nonzero coefficient is
  skipped by \<open>continue\<close>, which leaves \<open>lastCG\<close> as it is.
\<close>

definition hdq_group ::
  "int list \<Rightarrow> int list \<Rightarrow> nat list \<Rightarrow> nat \<Rightarrow> int list \<times> int \<times> int
   \<Rightarrow> (int list \<times> int \<times> int) option"
where
  "hdq_group coef deltaU scn subSet st =
     (case st of (qCoef, numSig, lastCG) \<Rightarrow>
       (let subPos = push_bit LOG2_SCAN_SET_SIZE subSet;
            n = lastNZPos qCoef scn subPos SCAN_SET_SIZE
        in if n < 0 then Some (qCoef, numSig, lastCG)
           else
             (let lastNZPosInCG = nat n;
                  firstNZPosInCG = firstNZPos qCoef scn subPos lastNZPosInCG 0
              in if int lastNZPosInCG - int firstNZPosInCG \<ge> SBH_THRESHOLD then
                   (let signbit = (if qCoef ! (scn ! (subPos + firstNZPosInCG)) > 0 then 0 else 1);
                        absSum = hdq_absSum qCoef scn subPos firstNZPosInCG lastNZPosInCG
                    in if signbit \<noteq> absSum AND 1 then
                         (let start = (if lastCG = 1 then lastNZPosInCG else SCAN_SET_SIZE - 1);
                              s = hdq_search qCoef coef deltaU scn subPos firstNZPosInCG signbit
                                    (Suc start) (sbh_init MAX_INT)
                          in case sbh_apply qCoef coef numSig s of
                               None \<Rightarrow> None
                             | Some (qCoef, numSig) \<Rightarrow> Some (qCoef, numSig, 0))
                       else Some (qCoef, numSig, 0))
                 else Some (qCoef, numSig, 0))))"

text \<open>\<open>for (subSet = (1 << log2TrSizeCG * 2) - 1; subSet >= 0; subSet--)\<close>, started with
  \<open>k = 1 << log2TrSizeCG * 2\<close>.\<close>

fun hdq_groups ::
  "int list \<Rightarrow> int list \<Rightarrow> nat list \<Rightarrow> nat \<Rightarrow> int list \<times> int \<times> int
   \<Rightarrow> (int list \<times> int \<times> int) option"
where
  "hdq_groups coef deltaU scn 0 st = Some st"
| "hdq_groups coef deltaU scn (Suc subSet) st =
     (case hdq_group coef deltaU scn subSet st of
        None \<Rightarrow> None
      | Some st' \<Rightarrow> hdq_groups coef deltaU scn subSet st')"

definition signBitHidingHDQ ::
  "int list \<Rightarrow> int list \<Rightarrow> int list \<Rightarrow> int \<Rightarrow> TUEntropyCodingParameters
   \<Rightarrow> (int list \<times> int) option"
where
  "signBitHidingHDQ qCoef coef deltaU numSig codingParameters =
     (case hdq_groups coef deltaU (scan codingParameters)
             (push_bit (log2TrSizeCG codingParameters * 2) 1) (qCoef, numSig, 1) of
        None \<Rightarrow> None
      | Some (qCoef, numSig, lastCG) \<Rightarrow> Some (qCoef, numSig))"

section \<open>The encoder objects the file reads\<close>

text \<open>
  The file computes rate-distortion costs in \<open>double\<close>.  The embedding does not fix a model of
  floating point: the operations the file applies to doubles are the fields of a record, and
  every function that computes on doubles takes that record.  A theorem proved for every such
  record holds for the machine's doubles, whatever they round to; a concrete run chooses the
  rationals, which is exact when every intermediate value is a small integer.
\<close>

record 'd fpu =
  d_add :: "'d \<Rightarrow> 'd \<Rightarrow> 'd"
  d_sub :: "'d \<Rightarrow> 'd \<Rightarrow> 'd"
  d_mul :: "'d \<Rightarrow> 'd \<Rightarrow> 'd"
  d_div :: "'d \<Rightarrow> 'd \<Rightarrow> 'd"
  d_less :: "'d \<Rightarrow> 'd \<Rightarrow> bool"
  d_of_int :: "int \<Rightarrow> 'd"
  d_to_int64 :: "'d \<Rightarrow> int"
  d_half :: "'d"
  MAX_DOUBLE :: "'d"

text \<open>\<open>estBitsSbac_t\<close> is declared outside the file; these are the tables the file reads.\<close>

record EstBitsSbac =
  significantCoeffGroupBits :: "int list list"
  significantBits :: "int list list"
  lastXBits :: "int list"
  lastYBits :: "int list"
  greaterOneBits :: "int list list"
  levelAbsBits :: "int list list"
  blockCbpBits :: "int list list"
  blockRootCbpBits :: "int list list"

text \<open>
  \<open>ScalingList\<close> is declared outside the file.  The tables are indexed by size, list type and
  \<open>rem\<close>; \<open>s_invQuantScales\<close> by \<open>rem\<close>.
\<close>

record 'd ScalingList =
  m_bEnabled :: bool
  m_quantCoef :: "nat \<Rightarrow> nat \<Rightarrow> nat \<Rightarrow> int list"
  m_dequantCoef :: "nat \<Rightarrow> nat \<Rightarrow> nat \<Rightarrow> int list"
  m_errScale :: "nat \<Rightarrow> nat \<Rightarrow> nat \<Rightarrow> 'd list"
  s_invQuantScales :: "int list"

text \<open>\<open>QpParam\<close>: the fields \<open>rem\<close> and \<open>per\<close> the file reads.\<close>

record QpParam =
  rem :: int
  per :: int

text \<open>The noise reduction state \<open>m_nr\<close>, per transform size.\<close>

record NoiseReduction =
  bNoiseReduction :: bool
  residualSum :: "nat \<Rightarrow> 32 word list"
  offset :: "nat \<Rightarrow> 16 word list"
  count :: "nat \<Rightarrow> 32 word"

text \<open>
  The members of \<open>Quant\<close>.  \<open>selectLambda\<close> is declared outside the file; the field
  \<open>m_lambdas\<close> gives the value of \<open>m_lambda2\<close> it selects for a text type.  The DCT buffers hold
  \<open>coeff_t\<close> values.
\<close>

record 'd Quant =
  m_useRDOQ :: bool
  m_psyRdoqScale :: int
  m_scalingList :: "'d ScalingList"
  m_resiDctCoeff :: "int list"
  m_fencDctCoeff :: "int list"
  m_fencShortBuf :: "int list"
  m_qpParam :: "nat \<Rightarrow> QpParam"
  m_lambdas :: "nat \<Rightarrow> 'd"
  m_estBitsSbac :: EstBitsSbac
  m_nr :: NoiseReduction

text \<open>
  What the file reads of the coding unit \<open>cu\<close> at \<open>absPartIdx\<close>: the results of
  \<open>getCUTransquantBypass\<close>, \<open>isIntra\<close> (which is \<open>getPredictionMode == MODE_INTRA\<close>),
  \<open>getTransformIdx\<close>, \<open>getCtxQtCbf\<close> and \<open>getTUEntropyCodingParameters\<close>, and of its slice
  whether it is an I slice and whether sign hiding is enabled.  All of these are declared
  outside the file.
\<close>

record TComDataCU =
  getCUTransquantBypass :: bool
  isIntra :: bool
  isISlice :: bool
  bSignHideEnabled :: bool
  getTransformIdx :: int
  getCtxQtCbf :: nat
  getTUEntropyCodingParameters :: TUEntropyCodingParameters

text \<open>Constants declared outside the file, with the values the specification gives.\<close>

definition TEXT_LUMA :: nat where
  "TEXT_LUMA = 0"

definition QUANT_SHIFT :: int where
  "QUANT_SHIFT = 14"

definition QUANT_IQUANT_SHIFT :: int where
  "QUANT_IQUANT_SHIFT = 20"

definition SCALE_BITS :: int where
  "SCALE_BITS = 15"

definition MAX_TR_DYNAMIC_RANGE :: int where
  "MAX_TR_DYNAMIC_RANGE = 15"

text \<open>
  The source computes \<open>cgSize = 1 << MLS_CG_SIZE\<close>, notes that it is 16 and uses
  \<open>cgScanPos << MLS_CG_SIZE\<close> and \<open>cgScanPos * cgSize\<close> for the same scan position, so
  \<open>MLS_CG_SIZE\<close> is 4.
\<close>

definition MLS_CG_SIZE :: nat where
  "MLS_CG_SIZE = 4"

text \<open>Left and arithmetic right shift of an integer by a shift count held in an \<open>int\<close>.\<close>

definition shl :: "int \<Rightarrow> int \<Rightarrow> int" where
  "shl x n = push_bit (nat n) x"

definition shr :: "int \<Rightarrow> int \<Rightarrow> int" where
  "shr x n = drop_bit (nat n) x"

subsection \<open>The rate functions on integers\<close>

text \<open>
  The block-level code calls the rate functions with \<open>int\<close> and \<open>uint32_t\<close> arguments and rows
  of the bit estimates; the results are read back as \<open>int\<close> (\<open>getICRate\<close>) and \<open>uint32_t\<close>
  (\<open>getICRateCost\<close>, \<open>getRateLast\<close>).
\<close>

definition getICRate_int ::
  "int list \<Rightarrow> int \<Rightarrow> int \<Rightarrow> int list \<Rightarrow> int list \<Rightarrow> int \<Rightarrow> int \<Rightarrow> int"
where
  "getICRate_int goRiceRange absLevel diffLevel gOneBits lAbsBits absGoRice c1c2Idx =
     sint (getICRate (map of_int goRiceRange) (of_int absLevel) (of_int diffLevel)
             (map of_int gOneBits) (map of_int lAbsBits) (of_int absGoRice) (of_int c1c2Idx))"

definition getICRateCost_int ::
  "int \<Rightarrow> int \<Rightarrow> int list \<Rightarrow> int list \<Rightarrow> int \<Rightarrow> int \<Rightarrow> int"
where
  "getICRateCost_int absLevel diffLevel gOneBits lAbsBits absGoRice c1c2Idx =
     uint (getICRateCost (of_int absLevel) (of_int diffLevel)
             (map of_int gOneBits) (map of_int lAbsBits) (of_int absGoRice) (of_int c1c2Idx))"

definition getRateLast_int ::
  "(nat \<Rightarrow> nat) \<Rightarrow> EstBitsSbac \<Rightarrow> int \<Rightarrow> int \<Rightarrow> int"
where
  "getRateLast_int groupIdx est posx posy =
     uint (getRateLast (\<lambda>p. of_nat (groupIdx (unat p)))
             (map of_int (lastXBits est)) (map of_int (lastYBits est)) (of_int posx) (of_int posy))"

subsection \<open>Context derivation\<close>

text \<open>\<open>calcPatternSigCtx\<close>: the arguments are \<open>uint64_t\<close> and \<open>uint32_t\<close> values.\<close>

definition calcPatternSigCtx :: "int \<Rightarrow> int \<Rightarrow> int \<Rightarrow> nat \<Rightarrow> int" where
  "calcPatternSigCtx sigCoeffGroupFlag64 cgPosX cgPosY log2TrSzCG =
     (if log2TrSzCG = 0 then 0
      else
        (let trSizeCG = push_bit log2TrSzCG 1;
             sigPos = u32 (drop_bit (nat (1 + push_bit log2TrSzCG cgPosY + cgPosX))
                             sigCoeffGroupFlag64);
             sigRight = u32 (shr (s32 (cgPosX - (trSizeCG - 1))) 31) AND (sigPos AND 1);
             sigLower = u32 (shr (s32 (cgPosY - (trSizeCG - 1))) 31)
                          AND drop_bit (nat (trSizeCG - 2)) sigPos AND 2
         in u32 (sigRight + sigLower)))"

definition ctxIndMap :: "int list" where
  "ctxIndMap = [0, 1, 4, 5, 2, 3, 4, 5, 6, 6, 8, 8, 7, 7, 8, 8]"

definition table_cnt :: "int list list list" where
  "table_cnt =
     [[[2, 1, 1, 0], [1, 1, 0, 0], [1, 0, 0, 0], [0, 0, 0, 0]],
      [[2, 1, 0, 0], [2, 1, 0, 0], [2, 1, 0, 0], [2, 1, 0, 0]],
      [[2, 2, 2, 2], [1, 1, 1, 1], [0, 0, 0, 0], [0, 0, 0, 0]],
      [[2, 2, 2, 2], [2, 2, 2, 2], [2, 2, 2, 2], [2, 2, 2, 2]]]"

definition getSigCtxInc :: "int \<Rightarrow> nat \<Rightarrow> int \<Rightarrow> nat \<Rightarrow> bool \<Rightarrow> nat \<Rightarrow> int" where
  "getSigCtxInc patternSigCtx log2TrSz trSz blkPos bIsLuma firstSigMapContext =
     (if blkPos = 0 then 0
      else if log2TrSz = 2 then ctxIndMap ! blkPos
      else
        (let posY = drop_bit log2TrSz (int blkPos);
             posX = int blkPos AND (trSz - 1);
             posXinSubset = int blkPos AND 3;
             posYinSubset = posY AND 3;
             cnt = table_cnt ! nat patternSigCtx ! nat posXinSubset ! nat posYinSubset;
             offs = int firstSigMapContext + cnt
         in if bIsLuma \<and> (posX OR posY) \<ge> 4 then 3 + offs else offs))"

definition getSigCoeffGroupCtxInc :: "int \<Rightarrow> int \<Rightarrow> int \<Rightarrow> nat \<Rightarrow> int" where
  "getSigCoeffGroupCtxInc sigCoeffGroupFlag64 cgPosX cgPosY log2TrSzCG =
     (let trSizeCG = push_bit log2TrSzCG 1;
          sigPos = u32 (drop_bit (nat (1 + push_bit log2TrSzCG cgPosY + cgPosX))
                          sigCoeffGroupFlag64);
          sigRight = u32 (shr (s32 (cgPosX - (trSizeCG - 1))) 31) AND sigPos;
          sigLower = u32 (shr (s32 (cgPosY - (trSizeCG - 1))) 31)
                       AND drop_bit (nat (trSizeCG - 1)) sigPos
      in (sigRight OR sigLower) AND 1)"

section \<open>Rate-distortion optimised quantisation: \<open>rdoQuant\<close>\<close>

text \<open>
  Modelled from the spec: \<open>primitives.nquant\<close>, a kernel that is not part of the file.  The
  specification gives \<open>scaledCoeff[i] = |dct[i]| * quantCoef[i]\<close> and the candidate magnitude
  \<open>(scaledCoeff[i] + add) >> qbits\<close>; like the plain quantiser it saturates to \<open>int16\<close>,
  reapplies the sign of the DCT coefficient and returns the count of nonzero output levels.
\<close>

definition nquant_level :: "int \<Rightarrow> int \<Rightarrow> int \<Rightarrow> int \<Rightarrow> int" where
  "nquant_level c qc qbits add =
     (let level = shr (\<bar>c\<bar> * qc + add) qbits;
          level = min 32767 (max (- 32768) level)
      in if c < 0 then - level else level)"

definition nquant :: "int list \<Rightarrow> int list \<Rightarrow> int \<Rightarrow> int \<Rightarrow> nat \<Rightarrow> int list \<times> int list \<times> int" where
  "nquant coef quantCoeff qbits add numCoeff =
     (let scaled = map (\<lambda>i. \<bar>coef ! i\<bar> * quantCoeff ! i) [0..<numCoeff];
          qCoef = map (\<lambda>i. nquant_level (coef ! i) (quantCoeff ! i) qbits add) [0..<numCoeff]
      in (scaled, qCoef, int (length (filter (\<lambda>x. x \<noteq> 0) qCoef))))"

record 'd coeffGroupRDStats =
  nnzBeforePos0 :: int
  codedLevelAndDist :: 'd
  uncodedDist :: 'd
  sigCost :: 'd
  sigCost0 :: 'd

text \<open>
  The values that do not change during a call of \<open>rdoQuant\<close>.  \<open>g_goRiceRange\<close> is a table
  and \<open>getGroupIdx\<close> a function declared outside the file.
\<close>

record 'd rdo_env =
  e_fp :: "'d fpu"
  e_cp :: TUEntropyCodingParameters
  e_est :: EstBitsSbac
  e_goRiceRange :: "int list"
  e_groupIdx :: "nat \<Rightarrow> nat"
  e_qbits :: int
  e_log2TrSize :: nat
  e_bIsLuma :: bool
  e_usePsy :: bool
  e_psyRdoqScale :: int
  e_lambda2 :: 'd
  e_errScale :: "'d list"
  e_scaledCoeff :: "int list"
  e_resiDctCoeff :: "int list"
  e_fencDctCoeff :: "int list"
  e_unquantShift :: int
  e_unquantRound :: int
  e_unquantScale :: int
  e_scaleBits :: int

text \<open>
  The local variables of \<open>rdoQuant\<close> that change in the reverse scan.  The cost arrays are
  indexed by scan position, the rate arrays and \<open>deltaU\<close> by block position.  None of the
  arrays is initialised in the source: their initial contents are arguments of the model.
\<close>

record 'd rdo_state =
  r_dstCoeff :: "int list"
  r_costCoeff :: "'d list"
  r_costSig :: "'d list"
  r_costCoeff0 :: "'d list"
  r_rateIncUp :: "int list"
  r_rateIncDown :: "int list"
  r_sigRateDelta :: "int list"
  r_deltaU :: "int list"
  r_costCoeffGroupSig :: "'d list"
  r_sigCoeffGroupFlag64 :: int
  r_ctxSet :: int
  r_c1 :: int
  r_c2 :: int
  r_baseCost :: 'd
  r_blockUncodedCost :: 'd
  r_lastScanPos :: int
  r_goRiceParam :: int
  r_c1Idx :: int
  r_c2Idx :: int
  r_cgLastScanPos :: int
  r_rdStats :: "'d coeffGroupRDStats"

text \<open>\<open>SIGN(x, y) = ((x ^ (y >> 31)) - (y >> 31))\<close> on \<open>int\<close>.\<close>

definition SIGN :: "int \<Rightarrow> int \<Rightarrow> int" where
  "SIGN x y = s32 ((x XOR shr y 31) - shr y 31)"

text \<open>
  The macro \<open>RDO_CODED_LEVEL\<close>.  The loop carries \<open>level\<close>, \<open>costCoeff[scanPos]\<close>,
  \<open>costSig[scanPos]\<close> and \<open>err2\<close>; \<open>lvl\<close> runs from \<open>maxAbsLevel\<close> down to
  \<open>minAbsLevel = max (maxAbsLevel - 1) 1\<close>.
\<close>

definition rdo_psyValue :: "'d rdo_env \<Rightarrow> nat \<Rightarrow> int \<Rightarrow> int" where
  "rdo_psyValue env blkPos lvl =
     (if e_usePsy env \<and> blkPos \<noteq> 0 then
        (let signCoef = e_resiDctCoeff env ! blkPos;
             predictedCoef = s32 (e_fencDctCoeff env ! blkPos - signCoef);
             unquantAbsLevel =
               s32 (shr (u32 (lvl * e_unquantScale env + e_unquantRound env)) (e_unquantShift env));
             reconCoef =
               s32 (shl (abs32 (s32 (unquantAbsLevel + SIGN predictedCoef signCoef)))
                      (e_scaleBits env))
         in s32 (drop_bit 8 (u64 (e_psyRdoqScale env * reconCoef))))
      else 0)"

function rdo_coded_level ::
  "'d rdo_env \<Rightarrow> nat \<Rightarrow> int \<Rightarrow> int \<Rightarrow> int list \<Rightarrow> int list \<Rightarrow> int \<Rightarrow> int \<Rightarrow> int \<Rightarrow> int
   \<Rightarrow> int \<Rightarrow> int \<times> 'd \<times> 'd \<times> 'd \<Rightarrow> int \<times> 'd \<times> 'd \<times> 'd"
where
  "rdo_coded_level env blkPos curCostSig baseLevel gOneBits lAbsBits goRice c1c2Idx
       maxAbsLevel err1 lvl (level, cc, cs, err2) =
     (let fp = e_fp env;
          minAbsLevel = max (u32 (maxAbsLevel - 1)) 1
      in if lvl \<ge> minAbsLevel then
           (let rateCost = getICRateCost_int lvl (s32 (lvl - baseLevel)) gOneBits lAbsBits
                             goRice c1c2Idx;
                curCost = d_add fp (d_mul fp err2 (e_errScale env ! blkPos))
                            (d_mul fp (e_lambda2 env) (d_of_int fp (u32 (curCostSig + rateCost))));
                psyValue = rdo_psyValue env blkPos lvl;
                cand = d_sub fp curCost (d_of_int fp psyValue);
                better = d_less fp cand cc;
                level = (if better then lvl else level);
                cs = (if better then d_mul fp (e_lambda2 env) (d_of_int fp curCostSig) else cs);
                cc = (if better then cand else cc);
                err2 = (if lvl > minAbsLevel then
                          (let err3 = s64 (s64 (2 * err1) * shl 1 (e_qbits env));
                               err4 = s64 (shl 1 (e_qbits env) * shl 1 (e_qbits env))
                           in d_add fp err2 (d_of_int fp (s64 (err3 + err4))))
                        else err2)
            in rdo_coded_level env blkPos curCostSig baseLevel gOneBits lAbsBits goRice c1c2Idx
                 maxAbsLevel err1 (u32 (lvl - 1)) (level, cc, cs, err2))
         else (level, cc, cs, err2))"
  by pat_completeness auto
termination
proof (relation "measure (\<lambda>(env, blkPos, curCostSig, baseLevel, gOneBits, lAbsBits, goRice, c1c2Idx,
                            maxAbsLevel, err1, lvl, acc). nat lvl)", goal_cases)
  case 1
  then show ?case by simp
next
  case (2 env blkPos curCostSig baseLevel gOneBits lAbsBits goRice c1c2Idx maxAbsLevel err1 lvl
          level cc cs err2)
  then have "0 \<le> lvl - 1" by simp
  then have "u32 (lvl - 1) \<le> lvl - 1"
    unfolding u32_def by (simp only: take_bit_int_less_eq_self_iff)
  moreover have "0 \<le> u32 (lvl - 1)"
    unfolding u32_def by simp
  ultimately show ?case by simp
qed

declare rdo_coded_level.simps [simp del]

text \<open>
  The branch \<open>if (lastScanPos >= 0)\<close> of the reverse scan, for the scan position \<open>scanPos\<close> at the
  block position \<open>blkPos\<close>, in three parts.  The first is the coefficient level estimation:
  the choice of \<open>level\<close> with the costs \<open>costCoeff[scanPos]\<close>, \<open>costSig[scanPos]\<close> and
  \<open>sigRateDelta[blkPos]\<close>.
\<close>

definition rdo_level_est ::
  "'d rdo_env \<Rightarrow> nat \<Rightarrow> nat \<Rightarrow> int \<Rightarrow> int \<Rightarrow> int \<Rightarrow> int \<Rightarrow> int list \<Rightarrow> int list \<Rightarrow> 'd rdo_state
   \<Rightarrow> int \<times> 'd rdo_state"
where
  "rdo_level_est env scanPos blkPos patternSigCtx maxAbsLevel c1c2Idx baseLevel gOneBits lAbsBits st =
     (let fp = e_fp env; est = e_est env; qbits = e_qbits env;
          levelDouble = e_scaledCoeff env ! blkPos;
          goRice = r_goRiceParam st;
          st = st\<lparr>r_costCoeff := (r_costCoeff st)[scanPos := MAX_DOUBLE fp]\<rparr>;
          err1 = s32 (levelDouble - u32 (shl maxAbsLevel qbits));
          err2 = d_of_int fp (s64 (err1 * err1))
      in if int scanPos = r_lastScanPos st then
           (let (level, cc, cs, e2) =
                  rdo_coded_level env blkPos 0 baseLevel gOneBits lAbsBits goRice c1c2Idx
                    maxAbsLevel err1 maxAbsLevel
                    (0, r_costCoeff st ! scanPos, r_costSig st ! scanPos, err2)
            in (level, st\<lparr>r_costCoeff := (r_costCoeff st)[scanPos := cc],
                          r_costSig := (r_costSig st)[scanPos := cs],
                          r_sigRateDelta := (r_sigRateDelta st)[blkPos := 0]\<rparr>))
         else
           (let ctxSig = getSigCtxInc patternSigCtx (e_log2TrSize env)
                           (push_bit (e_log2TrSize env) 1) blkPos (e_bIsLuma env)
                           (firstSignificanceMapContext (e_cp env));
                sigBits = significantBits est ! nat ctxSig;
                st = (if maxAbsLevel < 3 then
                        (let cs = d_mul fp (e_lambda2 env) (d_of_int fp (sigBits ! 0))
                         in st\<lparr>r_costSig := (r_costSig st)[scanPos := cs],
                               r_costCoeff := (r_costCoeff st)
                                  [scanPos := d_add fp (r_costCoeff0 st ! scanPos) cs]\<rparr>)
                      else st);
                (level, st) =
                  (if maxAbsLevel \<noteq> 0 then
                     (let (level, cc, cs, e2) =
                            rdo_coded_level env blkPos (sigBits ! 1) baseLevel gOneBits lAbsBits
                              goRice c1c2Idx maxAbsLevel err1 maxAbsLevel
                              (0, r_costCoeff st ! scanPos, r_costSig st ! scanPos, err2)
                      in (level, st\<lparr>r_costCoeff := (r_costCoeff st)[scanPos := cc],
                                    r_costSig := (r_costSig st)[scanPos := cs]\<rparr>))
                   else (0, st))
            in (level, st\<lparr>r_sigRateDelta := (r_sigRateDelta st)
                                [blkPos := s32 (sigBits ! 1 - sigBits ! 0)]\<rparr>)))"

text \<open>
  The second part writes \<open>deltaU\<close>, the level and the costs recorded for sign hiding.
\<close>

definition rdo_record ::
  "'d rdo_env \<Rightarrow> nat \<Rightarrow> nat \<Rightarrow> int \<Rightarrow> int \<Rightarrow> int \<Rightarrow> int list \<Rightarrow> int list \<Rightarrow> 'd rdo_state
   \<Rightarrow> 'd rdo_state"
where
  "rdo_record env scanPos blkPos level c1c2Idx baseLevel gOneBits lAbsBits st =
     (let fp = e_fp env; qbits = e_qbits env;
          levelDouble = e_scaledCoeff env ! blkPos;
          goRice = r_goRiceParam st;
          st = st\<lparr>r_deltaU := (r_deltaU st)
                       [blkPos := s32 (shr (s32 (levelDouble - s32 (shl level qbits))) (qbits - 8))],
                   r_dstCoeff := (r_dstCoeff st)[blkPos := s32 level],
                   r_baseCost := d_add fp (r_baseCost st) (r_costCoeff st ! scanPos)\<rparr>
      in if level > 0 then
           (let rateNow = getICRate_int (e_goRiceRange env) level (s32 (level - baseLevel))
                            gOneBits lAbsBits goRice c1c2Idx
            in st\<lparr>r_rateIncUp := (r_rateIncUp st)
                     [blkPos := s32 (getICRate_int (e_goRiceRange env) (u32 (level + 1))
                                       (s32 (level + 1 - baseLevel))
                                       gOneBits lAbsBits goRice c1c2Idx - rateNow)],
                  r_rateIncDown := (r_rateIncDown st)
                     [blkPos := s32 (getICRate_int (e_goRiceRange env) (u32 (level - 1))
                                       (s32 (level - 1 - baseLevel))
                                       gOneBits lAbsBits goRice c1c2Idx - rateNow)]\<rparr>)
         else st\<lparr>r_rateIncUp := (r_rateIncUp st)[blkPos := s32 (gOneBits ! 0)],
                  r_rateIncDown := (r_rateIncDown st)[blkPos := 0]\<rparr>)"

text \<open>The third part updates the CABAC estimation state and the context set.\<close>

definition rdo_update_cabac ::
  "'d rdo_env \<Rightarrow> nat \<Rightarrow> int \<Rightarrow> int \<Rightarrow> 'd rdo_state \<Rightarrow> 'd rdo_state"
where
  "rdo_update_cabac env scanPos level baseLevel st =
     (let goRice = r_goRiceParam st;
          st = (if level \<ge> baseLevel \<and> goRice < 4 \<and> level > u32 (shl 3 goRice)
                then st\<lparr>r_goRiceParam := u32 (goRice + 1)\<rparr> else st);
          st = st\<lparr>r_c1Idx := u32 (r_c1Idx st - shr (s32 (- s32 level)) 31)\<rparr>;
          st = (if level > 1
                then st\<lparr>r_c1 := 0,
                        r_c2 := s32 (u32 (r_c2 st + shr (u32 (r_c2 st - 2)) 31)),
                        r_c2Idx := u32 (r_c2Idx st + 1)\<rparr>
                else if r_c1 st < 3 \<and> r_c1 st > 0 \<and> level \<noteq> 0
                then st\<lparr>r_c1 := s32 (r_c1 st + 1)\<rparr>
                else st)
      in if scanPos mod SCAN_SET_SIZE = 0 \<and> scanPos > 0
         then st\<lparr>r_c2 := 0, r_goRiceParam := 0, r_c1Idx := 0, r_c2Idx := 0,
                 r_ctxSet := u32 ((if scanPos = SCAN_SET_SIZE \<or> \<not> e_bIsLuma env then 0 else 2)
                                  - shr (s32 (r_c1 st - 1)) 31),
                 r_c1 := 1\<rparr>
         else st)"

definition rdo_coef_coded ::
  "'d rdo_env \<Rightarrow> nat \<Rightarrow> nat \<Rightarrow> int \<Rightarrow> int \<Rightarrow> 'd rdo_state \<Rightarrow> 'd rdo_state"
where
  "rdo_coef_coded env scanPos blkPos patternSigCtx maxAbsLevel st =
     (let c1c2Idx = u32 (shr (u32 (r_c1Idx st - 8)) 31
                         + (shr (s32 (- s32 (r_c2Idx st))) 31 + 1) * 2);
          baseLevel = drop_bit (nat (c1c2Idx * 2)) 217 AND 3;
          oneCtx = u32 (4 * r_ctxSet st + r_c1 st);
          absCtx = u32 (r_ctxSet st + r_c2 st);
          gOneBits = greaterOneBits (e_est env) ! nat oneCtx;
          lAbsBits = levelAbsBits (e_est env) ! nat absCtx;
          (level, st) = rdo_level_est env scanPos blkPos patternSigCtx maxAbsLevel c1c2Idx
                          baseLevel gOneBits lAbsBits st;
          st = rdo_record env scanPos blkPos level c1c2Idx baseLevel gOneBits lAbsBits st
      in rdo_update_cabac env scanPos level baseLevel st)"

text \<open>
  The body of the loop over the scan positions of a coefficient group, in three parts: the
  uncoded cost and the detection of the last nonzero coefficient; the coded or uncoded branch;
  the statistics of the group.
\<close>

definition rdo_coef_start ::
  "'d rdo_env \<Rightarrow> nat \<Rightarrow> nat \<Rightarrow> nat \<Rightarrow> int \<Rightarrow> 'd rdo_state \<Rightarrow> 'd rdo_state"
where
  "rdo_coef_start env cgScanPos scanPos blkPos maxAbsLevel st =
     (let fp = e_fp env;
          scaleFactor = e_errScale env ! blkPos;
          levelDouble = e_scaledCoeff env ! blkPos;
          cc0 = d_mul fp (d_of_int fp (u64 (levelDouble * levelDouble))) scaleFactor;
          st = st\<lparr>r_costCoeff0 := (r_costCoeff0 st)[scanPos := cc0],
                   r_blockUncodedCost := d_add fp (r_blockUncodedCost st) cc0\<rparr>
      in if maxAbsLevel > 0 \<and> r_lastScanPos st < 0
         then st\<lparr>r_lastScanPos := int scanPos,
                 r_ctxSet := (if scanPos < SCAN_SET_SIZE \<or> \<not> e_bIsLuma env then 0 else 2),
                 r_cgLastScanPos := int cgScanPos\<rparr>
         else st)"

definition rdo_coef_stats ::
  "'d rdo_env \<Rightarrow> nat \<Rightarrow> nat \<Rightarrow> int \<Rightarrow> nat \<Rightarrow> 'd rdo_state \<Rightarrow> 'd rdo_state"
where
  "rdo_coef_stats env scanPos blkPos cgBlkPosMask scanPosinCG st =
     (let fp = e_fp env;
          rd = r_rdStats st;
          rd = rd\<lparr>sigCost := d_add fp (sigCost rd) (r_costSig st ! scanPos)\<rparr>;
          rd = (if scanPosinCG = 0 then rd\<lparr>sigCost0 := r_costSig st ! scanPos\<rparr> else rd)
      in if r_dstCoeff st ! blkPos \<noteq> 0
         then st\<lparr>r_sigCoeffGroupFlag64 := r_sigCoeffGroupFlag64 st OR cgBlkPosMask,
                 r_rdStats := rd\<lparr>
                   codedLevelAndDist := d_add fp (codedLevelAndDist rd)
                      (d_sub fp (r_costCoeff st ! scanPos) (r_costSig st ! scanPos)),
                   uncodedDist := d_add fp (uncodedDist rd) (r_costCoeff0 st ! scanPos),
                   nnzBeforePos0 := (if scanPosinCG \<noteq> 0 then s32 (nnzBeforePos0 rd + 1)
                                     else nnzBeforePos0 rd)\<rparr>\<rparr>
         else st\<lparr>r_rdStats := rd\<rparr>)"

definition rdo_coef ::
  "'d rdo_env \<Rightarrow> nat \<Rightarrow> int \<Rightarrow> int \<Rightarrow> nat \<Rightarrow> 'd rdo_state \<Rightarrow> 'd rdo_state"
where
  "rdo_coef env cgScanPos patternSigCtx cgBlkPosMask scanPosinCG st =
     (let fp = e_fp env;
          scanPos = push_bit MLS_CG_SIZE cgScanPos + scanPosinCG;
          blkPos = scan (e_cp env) ! scanPos;
          maxAbsLevel = u32 (abs32 (r_dstCoeff st ! blkPos));
          st = rdo_coef_start env cgScanPos scanPos blkPos maxAbsLevel st;
          st = (if r_lastScanPos st \<ge> 0
                then rdo_coef_coded env scanPos blkPos patternSigCtx maxAbsLevel st
                else st\<lparr>r_costCoeff := (r_costCoeff st)[scanPos := d_of_int fp 0],
                        r_baseCost := d_add fp (r_baseCost st) (r_costCoeff0 st ! scanPos)\<rparr>)
      in rdo_coef_stats env scanPos blkPos cgBlkPosMask scanPosinCG st)"

text \<open>\<open>for (scanPosinCG = cgSize - 1; scanPosinCG >= 0; scanPosinCG--)\<close>, started with
  \<open>k = cgSize\<close>.\<close>

fun rdo_coefs ::
  "'d rdo_env \<Rightarrow> nat \<Rightarrow> int \<Rightarrow> int \<Rightarrow> nat \<Rightarrow> 'd rdo_state \<Rightarrow> 'd rdo_state"
where
  "rdo_coefs env cgScanPos patternSigCtx cgBlkPosMask 0 st = st"
| "rdo_coefs env cgScanPos patternSigCtx cgBlkPosMask (Suc n) st =
     rdo_coefs env cgScanPos patternSigCtx cgBlkPosMask n
       (rdo_coef env cgScanPos patternSigCtx cgBlkPosMask n st)"

text \<open>The loop that resets the coefficients of a group to zero.\<close>

fun rdo_zero_group :: "'d rdo_env \<Rightarrow> nat \<Rightarrow> nat \<Rightarrow> 'd rdo_state \<Rightarrow> 'd rdo_state" where
  "rdo_zero_group env cgScanPos 0 st = st"
| "rdo_zero_group env cgScanPos (Suc n) st =
     rdo_zero_group env cgScanPos n
       (let scanPos = cgScanPos * push_bit MLS_CG_SIZE 1 + n;
            blkPos = scan (e_cp env) ! scanPos;
            st = (if r_dstCoeff st ! blkPos \<noteq> 0
                  then st\<lparr>r_costCoeff := (r_costCoeff st)[scanPos := r_costCoeff0 st ! scanPos],
                          r_costSig := (r_costSig st)[scanPos := d_of_int (e_fp env) 0]\<rparr>
                  else st)
        in st\<lparr>r_dstCoeff := (r_dstCoeff st)[blkPos := 0]\<rparr>)"

text \<open>The summary of the costs of a coefficient group, after its scan positions.\<close>

definition rdo_cg_tail ::
  "'d rdo_env \<Rightarrow> nat \<Rightarrow> int \<Rightarrow> int \<Rightarrow> int \<Rightarrow> 'd rdo_state \<Rightarrow> 'd rdo_state"
where
  "rdo_cg_tail env cgScanPos cgBlkPosMask cgPosX cgPosY st =
     (let fp = e_fp env; lam = e_lambda2 env;
          cgBits = significantCoeffGroupBits (e_est env)
      in if r_cgLastScanPos st \<ge> 0 then
           (let st = st\<lparr>r_costCoeffGroupSig :=
                           (r_costCoeffGroupSig st)[cgScanPos := d_of_int fp 0]\<rparr>
            in if cgScanPos \<noteq> 0 then
                 (if r_sigCoeffGroupFlag64 st AND cgBlkPosMask = 0 then
                    (let ctxSig = getSigCoeffGroupCtxInc (r_sigCoeffGroupFlag64 st) cgPosX cgPosY
                                    (log2TrSizeCG (e_cp env));
                         c0 = d_mul fp lam (d_of_int fp (cgBits ! nat ctxSig ! 0))
                     in st\<lparr>r_baseCost := d_add fp (r_baseCost st)
                                            (d_sub fp c0 (sigCost (r_rdStats st))),
                           r_costCoeffGroupSig := (r_costCoeffGroupSig st)[cgScanPos := c0]\<rparr>)
                  else if int cgScanPos < r_cgLastScanPos st then
                    (let rd = r_rdStats st;
                         st = (if nnzBeforePos0 rd = 0
                               then st\<lparr>r_baseCost := d_sub fp (r_baseCost st) (sigCost0 rd),
                                       r_rdStats := rd\<lparr>sigCost := d_sub fp (sigCost rd) (sigCost0 rd)\<rparr>\<rparr>
                               else st);
                         rd = r_rdStats st;
                         costZeroCG = r_baseCost st;
                         ctxSig = getSigCoeffGroupCtxInc (r_sigCoeffGroupFlag64 st) cgPosX cgPosY
                                    (log2TrSizeCG (e_cp env));
                         c0 = d_mul fp lam (d_of_int fp (cgBits ! nat ctxSig ! 0));
                         c1 = d_mul fp lam (d_of_int fp (cgBits ! nat ctxSig ! 1));
                         st = st\<lparr>r_baseCost := d_add fp (r_baseCost st) c1,
                                 r_costCoeffGroupSig := (r_costCoeffGroupSig st)[cgScanPos := c1]\<rparr>;
                         costZeroCG = d_add fp costZeroCG c0;
                         costZeroCG = d_add fp costZeroCG (uncodedDist rd);
                         costZeroCG = d_sub fp costZeroCG (codedLevelAndDist rd);
                         costZeroCG = d_sub fp costZeroCG (sigCost rd)
                     in if d_less fp costZeroCG (r_baseCost st)
                        then rdo_zero_group env cgScanPos (push_bit MLS_CG_SIZE 1)
                               (st\<lparr>r_sigCoeffGroupFlag64 :=
                                       r_sigCoeffGroupFlag64 st AND u64 (NOT cgBlkPosMask),
                                    r_baseCost := costZeroCG,
                                    r_costCoeffGroupSig :=
                                       (r_costCoeffGroupSig st)[cgScanPos := c0]\<rparr>)
                        else st)
                  else st)
               else st\<lparr>r_sigCoeffGroupFlag64 := r_sigCoeffGroupFlag64 st OR cgBlkPosMask\<rparr>)
         else st)"

text \<open>The body of the loop over the coefficient groups, for the group at \<open>cgScanPos\<close>.\<close>

definition rdo_cg :: "'d rdo_env \<Rightarrow> nat \<Rightarrow> 'd rdo_state \<Rightarrow> 'd rdo_state" where
  "rdo_cg env cgScanPos st =
     (let fp = e_fp env; cp = e_cp env;
          cgBlkPos = int (scanCG cp ! cgScanPos);
          cgPosY = drop_bit (log2TrSizeCG cp) cgBlkPos;
          cgPosX = u32 (cgBlkPos - push_bit (log2TrSizeCG cp) cgPosY);
          cgBlkPosMask = u64 (push_bit (nat cgBlkPos) 1);
          st = st\<lparr>r_rdStats := \<lparr>nnzBeforePos0 = 0, codedLevelAndDist = d_of_int fp 0,
                                  uncodedDist = d_of_int fp 0, sigCost = d_of_int fp 0,
                                  sigCost0 = d_of_int fp 0\<rparr>\<rparr>;
          patternSigCtx = calcPatternSigCtx (r_sigCoeffGroupFlag64 st) cgPosX cgPosY
                            (log2TrSizeCG cp);
          st = rdo_coefs env cgScanPos patternSigCtx cgBlkPosMask (push_bit MLS_CG_SIZE 1) st
      in rdo_cg_tail env cgScanPos cgBlkPosMask cgPosX cgPosY st)"

text \<open>\<open>for (cgScanPos = cgNum - 1; cgScanPos >= 0; cgScanPos--)\<close>, started with \<open>k = cgNum\<close>.\<close>

fun rdo_cgs :: "'d rdo_env \<Rightarrow> nat \<Rightarrow> 'd rdo_state \<Rightarrow> 'd rdo_state" where
  "rdo_cgs env 0 st = st"
| "rdo_cgs env (Suc n) st = rdo_cgs env n (rdo_cg env n st)"

text \<open>
  The search for the best last position.  The loop state is \<open>baseCost\<close>, \<open>bestCost\<close>,
  \<open>bestLastIdx\<close> and \<open>foundLast\<close>; a \<open>break\<close> of the inner loop returns with \<open>foundLast\<close> set,
  which also ends the outer loop.
\<close>

record 'd rdo_last =
  l_baseCost :: 'd
  l_bestCost :: 'd
  l_bestLastIdx :: int
  l_foundLast :: bool

fun rdo_last_coefs ::
  "'d rdo_env \<Rightarrow> 'd rdo_state \<Rightarrow> nat \<Rightarrow> nat \<Rightarrow> 'd rdo_last \<Rightarrow> 'd rdo_last"
where
  "rdo_last_coefs env st cgScanPos 0 ls = ls"
| "rdo_last_coefs env st cgScanPos (Suc n) ls =
     (let fp = e_fp env;
          scanPos = cgScanPos * push_bit MLS_CG_SIZE 1 + n
      in if int scanPos > r_lastScanPos st then rdo_last_coefs env st cgScanPos n ls
         else
           (let blkPos = scan (e_cp env) ! scanPos
            in if r_dstCoeff st ! blkPos \<noteq> 0 then
                 (let posY = drop_bit (e_log2TrSize env) (int blkPos);
                      posX = u32 (int blkPos - push_bit (e_log2TrSize env) posY);
                      costLast = d_mul fp (e_lambda2 env)
                        (d_of_int fp
                           (if scanTypeVer (e_cp env)
                            then getRateLast_int (e_groupIdx env) (e_est env) posY posX
                            else getRateLast_int (e_groupIdx env) (e_est env) posX posY));
                      totalCost = d_sub fp (d_add fp (l_baseCost ls) costLast)
                                    (r_costSig st ! scanPos);
                      ls = (if d_less fp totalCost (l_bestCost ls)
                            then ls\<lparr>l_bestLastIdx := s32 (u32 (int scanPos + 1)),
                                    l_bestCost := totalCost\<rparr>
                            else ls)
                  in if r_dstCoeff st ! blkPos > 1 then ls\<lparr>l_foundLast := True\<rparr>
                     else rdo_last_coefs env st cgScanPos n
                            (ls\<lparr>l_baseCost :=
                                   d_add fp (d_sub fp (l_baseCost ls) (r_costCoeff st ! scanPos))
                                     (r_costCoeff0 st ! scanPos)\<rparr>))
               else rdo_last_coefs env st cgScanPos n
                      (ls\<lparr>l_baseCost := d_sub fp (l_baseCost ls) (r_costSig st ! scanPos)\<rparr>)))"

fun rdo_last_cgs :: "'d rdo_env \<Rightarrow> 'd rdo_state \<Rightarrow> nat \<Rightarrow> 'd rdo_last \<Rightarrow> 'd rdo_last" where
  "rdo_last_cgs env st 0 ls = ls"
| "rdo_last_cgs env st (Suc n) ls =
     (if l_foundLast ls then ls
      else
        (let cgBlkPos = scanCG (e_cp env) ! n;
             ls = ls\<lparr>l_baseCost := d_sub (e_fp env) (l_baseCost ls) (r_costCoeffGroupSig st ! n)\<rparr>
         in if r_sigCoeffGroupFlag64 st AND u64 (push_bit cgBlkPos 1) = 0
            then rdo_last_cgs env st n ls
            else rdo_last_cgs env st n
                   (rdo_last_coefs env st n (push_bit MLS_CG_SIZE 1) ls)))"

text \<open>
  The recount of the nonzero coefficients with the sign of the DCT coefficient applied,
  \<open>dstCoeff[blkPos] = (level ^ mask) - mask\<close> with the \<open>uint32_t\<close>
  \<open>mask = (int32_t) m_resiDctCoeff[blkPos] >> 31\<close>, and the loop that clears the coefficients
  from \<open>bestLastIdx\<close> to \<open>lastScanPos\<close>.
\<close>

definition rdo_apply_sign :: "int list \<Rightarrow> nat list \<Rightarrow> nat \<Rightarrow> int list \<times> int \<Rightarrow> int list \<times> int" where
  "rdo_apply_sign resi scn pos acc =
     (case acc of (dst, numSig) \<Rightarrow>
        (let blkPos = scn ! pos;
             level = dst ! blkPos;
             numSig = u32 (numSig + (if level \<noteq> 0 then 1 else 0));
             mask = u32 (shr (s32 (resi ! blkPos)) 31)
         in (dst[blkPos := s32 (u32 (u32 (u32 level XOR mask) - mask))], numSig)))"

definition rdo_apply_signs :: "int list \<Rightarrow> nat list \<Rightarrow> int \<Rightarrow> int list \<Rightarrow> int list \<times> int" where
  "rdo_apply_signs resi scn bestLastIdx dst =
     fold (rdo_apply_sign resi scn) [0..<nat bestLastIdx] (dst, 0)"

definition rdo_clean :: "nat list \<Rightarrow> int \<Rightarrow> int \<Rightarrow> int list \<Rightarrow> int list" where
  "rdo_clean scn bestLastIdx lastScanPos dst =
     fold (\<lambda>pos dst. dst[scn ! pos := 0]) [nat bestLastIdx..<nat (lastScanPos + 1)] dst"

subsection \<open>The rate-distortion version of sign-bit hiding\<close>

text \<open>The arrays the reverse scan has recorded for sign hiding, and \<open>rdFactor\<close>.\<close>

record sbh_rates =
  h_deltaU :: "int list"
  h_rateIncUp :: "int list"
  h_rateIncDown :: "int list"
  h_sigRateDelta :: "int list"
  h_rdFactor :: int

text \<open>\<open>absSum\<close> is an \<open>int\<close> here.\<close>

definition rdo_absSum :: "int list \<Rightarrow> nat list \<Rightarrow> nat \<Rightarrow> nat \<Rightarrow> nat \<Rightarrow> int" where
  "rdo_absSum dst scn subPos firstNZ lastNZ =
     fold (\<lambda>n absSum. s32 (absSum + dst ! (scn ! (n + subPos)))) [firstNZ..<Suc lastNZ] 0"

text \<open>The body of the search loop up to the comparison; the costs are \<open>int64_t\<close>.\<close>

definition rdo_sbh_cost ::
  "int list \<Rightarrow> int list \<Rightarrow> sbh_rates \<Rightarrow> int \<Rightarrow> nat \<Rightarrow> nat \<Rightarrow> int \<Rightarrow> nat \<Rightarrow> nat \<Rightarrow> sbh_search
   \<Rightarrow> sbh_search"
where
  "rdo_sbh_cost dst resi h lastCG lastNZPosInCG firstNZPosInCG signbit n blkPos s =
     (if dst ! blkPos \<noteq> 0 then
        (let costUp = s64 (s64 (h_rdFactor h * s32 (- (h_deltaU h ! blkPos)))
                           + h_rateIncUp h ! blkPos);
             costDown = s64 (s64 (s64 (h_rdFactor h * (h_deltaU h ! blkPos))
                                  + h_rateIncDown h ! blkPos)
                             - (if abs32 (dst ! blkPos) = 1
                                then s32 (32768 + h_sigRateDelta h ! blkPos) else 0));
             costDown = (if lastCG = 1 \<and> lastNZPosInCG = n \<and> abs32 (dst ! blkPos) = 1
                         then s64 (costDown - 131072) else costDown)
         in if costUp < costDown
            then s\<lparr>curCost := costUp, curChange := 1\<rparr>
            else if n = firstNZPosInCG \<and> abs32 (dst ! blkPos) = 1
            then s\<lparr>curChange := - 1, curCost := MAX_INT64\<rparr>
            else s\<lparr>curChange := - 1, curCost := costDown\<rparr>)
      else
        (let s = s\<lparr>curCost := s64 (s64 (s64 (s64 (h_rdFactor h * s32 (- abs32 (h_deltaU h ! blkPos)))
                                              + 32768)
                                         + h_rateIncUp h ! blkPos)
                                    + h_sigRateDelta h ! blkPos),
                    curChange := 1\<rparr>
         in if n < firstNZPosInCG then
              (let thissignbit = (if resi ! blkPos \<ge> 0 then 0 else 1 :: int)
               in if thissignbit \<noteq> signbit then s\<lparr>curCost := MAX_INT64\<rparr> else s)
            else s))"

fun rdo_sbh_search ::
  "int list \<Rightarrow> int list \<Rightarrow> sbh_rates \<Rightarrow> nat list \<Rightarrow> nat \<Rightarrow> int \<Rightarrow> nat \<Rightarrow> nat \<Rightarrow> int \<Rightarrow> nat
   \<Rightarrow> sbh_search \<Rightarrow> sbh_search"
where
  "rdo_sbh_search dst resi h scn subPos lastCG lastNZ firstNZ signbit 0 s = s"
| "rdo_sbh_search dst resi h scn subPos lastCG lastNZ firstNZ signbit (Suc n) s =
     rdo_sbh_search dst resi h scn subPos lastCG lastNZ firstNZ signbit n
       (let blkPos = scn ! (n + subPos)
        in sbh_take_min blkPos (rdo_sbh_cost dst resi h lastCG lastNZ firstNZ signbit n blkPos s))"

definition rdo_sbh_group ::
  "int list \<Rightarrow> sbh_rates \<Rightarrow> nat list \<Rightarrow> nat \<Rightarrow> int list \<times> int \<times> int
   \<Rightarrow> (int list \<times> int \<times> int) option"
where
  "rdo_sbh_group resi h scn subSet st =
     (case st of (dst, numSig, lastCG) \<Rightarrow>
       (let subPos = push_bit LOG2_SCAN_SET_SIZE subSet;
            n = lastNZPos dst scn subPos SCAN_SET_SIZE
        in if n < 0 then Some (dst, numSig, lastCG)
           else
             (let lastNZPosInCG = nat n;
                  firstNZPosInCG = firstNZPos dst scn subPos lastNZPosInCG 0
              in if int lastNZPosInCG - int firstNZPosInCG \<ge> SBH_THRESHOLD then
                   (let signbit = (if dst ! (scn ! (subPos + firstNZPosInCG)) > 0 then 0 else 1);
                        absSum = rdo_absSum dst scn subPos firstNZPosInCG lastNZPosInCG
                    in if signbit \<noteq> u32 absSum AND 1 then
                         (let start = (if lastCG = 1 then lastNZPosInCG else SCAN_SET_SIZE - 1);
                              s = rdo_sbh_search dst resi h scn subPos lastCG lastNZPosInCG
                                    firstNZPosInCG signbit (Suc start) (sbh_init MAX_INT64)
                          in case sbh_apply dst resi numSig s of
                               None \<Rightarrow> None
                             | Some (dst, numSig) \<Rightarrow> Some (dst, numSig, 0))
                       else Some (dst, numSig, 0))
                 else Some (dst, numSig, 0))))"

text \<open>\<open>for (subSet = cgLastScanPos; subSet >= 0; subSet--)\<close>, started with
  \<open>k = cgLastScanPos + 1\<close>.\<close>

fun rdo_sbh_groups ::
  "int list \<Rightarrow> sbh_rates \<Rightarrow> nat list \<Rightarrow> nat \<Rightarrow> int list \<times> int \<times> int
   \<Rightarrow> (int list \<times> int \<times> int) option"
where
  "rdo_sbh_groups resi h scn 0 st = Some st"
| "rdo_sbh_groups resi h scn (Suc subSet) st =
     (case rdo_sbh_group resi h scn subSet st of
        None \<Rightarrow> None
      | Some st' \<Rightarrow> rdo_sbh_groups resi h scn subSet st')"

text \<open>The pass as a whole, from the coefficients after the recount.\<close>

definition rdo_signBitHiding ::
  "int list \<Rightarrow> sbh_rates \<Rightarrow> nat list \<Rightarrow> int \<Rightarrow> int list \<Rightarrow> int \<Rightarrow> (int list \<times> int) option"
where
  "rdo_signBitHiding resi h scn cgLastScanPos dst numSig =
     (case rdo_sbh_groups resi h scn (nat (cgLastScanPos + 1)) (dst, numSig, 1) of
        None \<Rightarrow> None
      | Some (dst, numSig, lastCG) \<Rightarrow> Some (dst, numSig))"

text \<open>
  \<open>rdFactor = (int64_t)((invQuant * invQuant) / (m_lambda2 * 16) + 0.5)\<close> with the \<open>int64_t\<close>
  \<open>invQuant = s_invQuantScales[rem] << per\<close>.
\<close>

definition rdo_rdFactor :: "'d fpu \<Rightarrow> int \<Rightarrow> int \<Rightarrow> 'd \<Rightarrow> int" where
  "rdo_rdFactor fp invQuantScale pr lambda2 =
     (let invQuant = s32 (shl invQuantScale pr)
      in d_to_int64 fp
           (d_add fp (d_div fp (d_of_int fp (s64 (invQuant * invQuant)))
                               (d_mul fp lambda2 (d_of_int fp 16)))
              (d_half fp)))"

subsection \<open>\<open>Quant::rdoQuant\<close>\<close>

text \<open>
  The arguments before the \<open>Quant\<close> object stand for what is declared outside the file: the
  double operations, \<open>g_goRiceRange\<close>, \<open>getGroupIdx\<close>, the bit depth \<open>X265_DEPTH\<close> and the
  contents of the local arrays before their first write (the array fields of \<open>junk\<close>).
\<close>

definition rdoQuant ::
  "'d fpu \<Rightarrow> int list \<Rightarrow> (nat \<Rightarrow> nat) \<Rightarrow> int \<Rightarrow> 'd rdo_state \<Rightarrow> 'd Quant \<Rightarrow> TComDataCU \<Rightarrow> nat \<Rightarrow> nat
   \<Rightarrow> (int list \<times> int) option"
where
  "rdoQuant fp goRiceRange groupIdx X265_DEPTH junk q cu log2TrSz ttype =
     (let sl = m_scalingList q;
          transformShift = MAX_TR_DYNAMIC_RANGE - X265_DEPTH - int log2TrSz;
          scalingListType = (if isIntra cu then 0 else 3) + ttype;
          rm = rem (m_qpParam q ttype);
          pr = per (m_qpParam q ttype);
          qbits = QUANT_SHIFT + pr + transformShift;
          add = s32 (shl 1 (qbits - 1));
          qCoef = m_quantCoef sl (log2TrSz - 2) scalingListType (nat rm);
          numCoeff = push_bit (log2TrSz * 2) 1;
          (scaledCoeff, dstCoeff, numSig) = nquant (m_resiDctCoeff q) qCoef qbits add numCoeff
      in if numSig = 0 then Some (dstCoeff, 0)
         else
           (let lambda2 = m_lambdas q ttype;
                unquantShift = QUANT_IQUANT_SHIFT - QUANT_SHIFT - transformShift;
                bIsLuma = (ttype = TEXT_LUMA);
                cp = getTUEntropyCodingParameters cu;
                env = \<lparr>e_fp = fp, e_cp = cp, e_est = m_estBitsSbac q,
                       e_goRiceRange = goRiceRange, e_groupIdx = groupIdx, e_qbits = qbits,
                       e_log2TrSize = log2TrSz, e_bIsLuma = bIsLuma,
                       e_usePsy = (m_psyRdoqScale q \<noteq> 0 \<and> bIsLuma),
                       e_psyRdoqScale = m_psyRdoqScale q, e_lambda2 = lambda2,
                       e_errScale = m_errScale sl (log2TrSz - 2) scalingListType (nat rm),
                       e_scaledCoeff = scaledCoeff, e_resiDctCoeff = m_resiDctCoeff q,
                       e_fencDctCoeff = m_fencDctCoeff q, e_unquantShift = unquantShift,
                       e_unquantRound = s32 (shl 1 unquantShift - 1),
                       e_unquantScale = s32 (shl (s_invQuantScales sl ! nat rm) pr),
                       e_scaleBits = SCALE_BITS - 2 * transformShift\<rparr>;
                cgNum = push_bit (log2TrSizeCG cp * 2) 1;
                st = rdo_cgs env cgNum
                       (junk\<lparr>r_dstCoeff := dstCoeff, r_sigCoeffGroupFlag64 := 0, r_ctxSet := 0,
                             r_c1 := 1, r_c2 := 0, r_baseCost := d_of_int fp 0,
                             r_blockUncodedCost := d_of_int fp 0, r_lastScanPos := - 1,
                             r_goRiceParam := 0, r_c1Idx := 0, r_c2Idx := 0,
                             r_cgLastScanPos := - 1\<rparr>)
            in if r_lastScanPos st < 0 then Some (r_dstCoeff st, 0)
               else
                 (let est = m_estBitsSbac q;
                      cbpBits = (if \<not> isIntra cu \<and> bIsLuma \<and> getTransformIdx cu = 0
                                 then blockRootCbpBits est ! 0
                                 else blockCbpBits est ! getCtxQtCbf cu);
                      bestCost = d_add fp (r_blockUncodedCost st)
                                   (d_mul fp lambda2 (d_of_int fp (cbpBits ! 0)));
                      baseCost = d_add fp (r_baseCost st)
                                   (d_mul fp lambda2 (d_of_int fp (cbpBits ! 1)));
                      ls = rdo_last_cgs env st (nat (r_cgLastScanPos st + 1))
                             \<lparr>l_baseCost = baseCost, l_bestCost = bestCost,
                              l_bestLastIdx = 0, l_foundLast = False\<rparr>;
                      (dst, numSig) = rdo_apply_signs (m_resiDctCoeff q) (scan cp)
                                        (l_bestLastIdx ls) (r_dstCoeff st);
                      dst = rdo_clean (scan cp) (l_bestLastIdx ls) (r_lastScanPos st) dst
                  in if bSignHideEnabled cu \<and> numSig \<ge> 2
                     then rdo_signBitHiding (m_resiDctCoeff q)
                            \<lparr>h_deltaU = r_deltaU st, h_rateIncUp = r_rateIncUp st,
                             h_rateIncDown = r_rateIncDown st,
                             h_sigRateDelta = r_sigRateDelta st,
                             h_rdFactor = rdo_rdFactor fp (s_invQuantScales sl ! nat rm) pr lambda2\<rparr>
                            (scan cp) (r_cgLastScanPos st) dst numSig
                     else Some (dst, numSig))))"

section \<open>Plain quantisation and the transform entry points\<close>

text \<open>
  Modelled from the spec: \<open>primitives.quant\<close>, a kernel that is not part of the file.  The
  specification computes per position \<open>level = (|dct[i]| * scaling[i] + round) >> qbits\<close>,
  saturates to \<open>int16\<close>, reapplies the original sign, writes \<open>qCoef[i]\<close>, records
  \<open>deltaU[i] = ((|dct[i]| * scaling[i]) - (level << qbits)) >> (qbits - 8)\<close> and returns the
  count of nonzero output levels.
\<close>

definition quant_deltaU :: "int \<Rightarrow> int \<Rightarrow> int \<Rightarrow> int \<Rightarrow> int" where
  "quant_deltaU c qc qbits add =
     (let level = shr (\<bar>c\<bar> * qc + add) qbits
      in s32 (shr (\<bar>c\<bar> * qc - shl level qbits) (qbits - 8)))"

definition quant_prim :: "int list \<Rightarrow> int list \<Rightarrow> int \<Rightarrow> int \<Rightarrow> nat \<Rightarrow> int list \<times> int list \<times> int" where
  "quant_prim coef quantCoeff qbits add numCoeff =
     (let deltaU = map (\<lambda>i. quant_deltaU (coef ! i) (quantCoeff ! i) qbits add) [0..<numCoeff];
          qCoef = map (\<lambda>i. nquant_level (coef ! i) (quantCoeff ! i) qbits add) [0..<numCoeff]
      in (deltaU, qCoef, int (length (filter (\<lambda>x. x \<noteq> 0) qCoef))))"

text \<open>\<open>Quant::quant\<close>.  The result is the coefficient block and \<open>numSig\<close>.\<close>

definition quant ::
  "int \<Rightarrow> 'd Quant \<Rightarrow> TComDataCU \<Rightarrow> nat \<Rightarrow> nat \<Rightarrow> (int list \<times> int) option"
where
  "quant X265_DEPTH q cu log2TrSz ttype =
     (let scalingListType = (if isIntra cu then 0 else 3) + ttype;
          rm = rem (m_qpParam q ttype);
          pr = per (m_qpParam q ttype);
          quantCoeff = m_quantCoef (m_scalingList q) (log2TrSz - 2) scalingListType (nat rm);
          transformShift = MAX_TR_DYNAMIC_RANGE - X265_DEPTH - int log2TrSz;
          qbits = QUANT_SHIFT + pr + transformShift;
          add = s32 (shl (if isISlice cu then 171 else 85) (qbits - 9));
          numCoeff = push_bit (log2TrSz * 2) 1;
          (deltaU, qCoef, numSig) = quant_prim (m_resiDctCoeff q) quantCoeff qbits add numCoeff
      in if numSig \<ge> 2 \<and> bSignHideEnabled cu
         then signBitHidingHDQ qCoef (m_resiDctCoeff q) deltaU numSig
                (getTUEntropyCodingParameters cu)
         else Some (qCoef, numSig))"

text \<open>
  The kernels of the \<open>primitives\<close> table that the entry points call and that are not part of
  the file.  Each takes the buffer it writes and returns its new contents.
\<close>

record primitives =
  p_dct :: "nat \<Rightarrow> 16 word list \<Rightarrow> int list \<Rightarrow> nat \<Rightarrow> int list"
  p_idct :: "nat \<Rightarrow> int list \<Rightarrow> 16 word list \<Rightarrow> nat \<Rightarrow> 16 word list"
  p_square_copy_ps :: "nat \<Rightarrow> int list \<Rightarrow> nat \<Rightarrow> int list \<Rightarrow> nat \<Rightarrow> int list"
  p_cvt16to32_shl :: "int list \<Rightarrow> 16 word list \<Rightarrow> nat \<Rightarrow> int \<Rightarrow> nat \<Rightarrow> int list"
  p_cvt32to16_shr :: "16 word list \<Rightarrow> int list \<Rightarrow> nat \<Rightarrow> int \<Rightarrow> nat \<Rightarrow> 16 word list"
  p_dequant_scaling :: "int list \<Rightarrow> int list \<Rightarrow> int list \<Rightarrow> nat \<Rightarrow> int \<Rightarrow> int \<Rightarrow> int list"
  p_dequant_normal :: "int list \<Rightarrow> int list \<Rightarrow> nat \<Rightarrow> int \<Rightarrow> int \<Rightarrow> int list"
  p_blockfill_s :: "nat \<Rightarrow> 16 word list \<Rightarrow> nat \<Rightarrow> 16 word \<Rightarrow> 16 word list"

text \<open>The kernel indices, in the order the specification lists the kernels.\<close>

definition DCT_4x4 :: nat where
  "DCT_4x4 = 1"

definition IDCT_4x4 :: nat where
  "IDCT_4x4 = 1"

text \<open>
  The copy loops of the transform-quant bypass.  The forward copy also counts the nonzero
  residual samples in the \<open>uint32_t\<close> \<open>numSig\<close>.
\<close>

definition bypass_fwd ::
  "nat \<Rightarrow> nat \<Rightarrow> 16 word list \<Rightarrow> int list \<times> int \<Rightarrow> int list \<times> int"
where
  "bypass_fwd trSz stride residual acc =
     fold (\<lambda>k. fold (\<lambda>j (coeff, numSig).
                        (coeff[k * trSz + j := sint (residual ! (k * stride + j))],
                         u32 (numSig + (if residual ! (k * stride + j) \<noteq> 0 then 1 else 0))))
                  [0..<trSz])
       [0..<trSz] acc"

definition bypass_inv :: "nat \<Rightarrow> nat \<Rightarrow> int list \<Rightarrow> 16 word list \<Rightarrow> 16 word list" where
  "bypass_inv trSz stride coeff residual =
     fold (\<lambda>k. fold (\<lambda>j residual. residual[k * stride + j := of_int (coeff ! (k * trSz + j))])
                  [0..<trSz])
       [0..<trSz] residual"

text \<open>
  The part of \<open>Quant::transformNxN\<close> between the bypass test and the quantisation: the
  transform-skip scaling or the forward transform with the optional noise reduction.  The result
  is the \<open>Quant\<close> object with \<open>m_resiDctCoeff\<close>, the buffers of the source block and the noise
  reduction state as this part leaves them.
\<close>

definition transformNxN_dct ::
  "int \<Rightarrow> primitives \<Rightarrow> 'd Quant \<Rightarrow> TComDataCU \<Rightarrow> int list \<Rightarrow> nat \<Rightarrow> 16 word list \<Rightarrow> nat \<Rightarrow> nat
   \<Rightarrow> nat \<Rightarrow> bool \<Rightarrow> 'd Quant"
where
  "transformNxN_dct X265_DEPTH prim q cu fenc fencStride residual stride log2TrSz ttype
     useTransformSkip =
     (let trSz = push_bit log2TrSz 1
      in if useTransformSkip then
           (let shift = MAX_TR_DYNAMIC_RANGE - X265_DEPTH - int log2TrSz
            in if shift \<ge> 0
               then q\<lparr>m_resiDctCoeff :=
                        p_cvt16to32_shl prim (m_resiDctCoeff q) residual stride shift trSz\<rparr>
               else
                 (let shift = - shift;
                      offs = s32 (shl 1 (shift - 1))
                  in q\<lparr>m_resiDctCoeff :=
                         fold (\<lambda>j. fold (\<lambda>k resi.
                                 resi[j * trSz + k :=
                                   s32 (shr (s32 (sint (residual ! (j * stride + k)) + offs))
                                          shift)])
                               [0..<trSz])
                           [0..<trSz] (m_resiDctCoeff q)\<rparr>))
         else
           (let sizeIdx = log2TrSz - 2;
                useDST = (if sizeIdx = 0 \<and> ttype = TEXT_LUMA \<and> isIntra cu then 1 else 0);
                index = DCT_4x4 + sizeIdx - useDST;
                q = (if m_psyRdoqScale q \<noteq> 0 \<and> ttype = TEXT_LUMA then
                       (let buf = p_square_copy_ps prim sizeIdx (m_fencShortBuf q) trSz
                                    fenc fencStride
                        in q\<lparr>m_fencShortBuf := buf,
                              m_fencDctCoeff :=
                                p_dct prim index (map of_int buf) (m_fencDctCoeff q) trSz\<rparr>)
                     else q);
                q = q\<lparr>m_resiDctCoeff :=
                        p_dct prim index residual (m_resiDctCoeff q) stride\<rparr>
            in if bNoiseReduction (m_nr q) \<and> useDST = 0 then
                 (let nr = m_nr q;
                      (dct, rs) = denoiseDct (map of_int (m_resiDctCoeff q))
                                    (residualSum nr sizeIdx) (offset nr sizeIdx)
                                    (push_bit (sizeIdx * 2) 16)
                  in q\<lparr>m_resiDctCoeff := map sint dct,
                        m_nr := nr\<lparr>residualSum := (residualSum nr)(sizeIdx := rs),
                                   count := (count nr)(sizeIdx := count nr sizeIdx + 1)\<rparr>\<rparr>)
               else q))"

text \<open>
  \<open>Quant::transformNxN\<close>.  The result is the coefficient block, \<open>numSig\<close> and the \<open>Quant\<close>
  object with its buffers and noise reduction state as the call leaves them.
\<close>

definition transformNxN ::
  "'d fpu \<Rightarrow> int list \<Rightarrow> (nat \<Rightarrow> nat) \<Rightarrow> int \<Rightarrow> primitives \<Rightarrow> 'd rdo_state \<Rightarrow> 'd Quant \<Rightarrow> TComDataCU
   \<Rightarrow> int list \<Rightarrow> nat \<Rightarrow> 16 word list \<Rightarrow> nat \<Rightarrow> int list \<Rightarrow> nat \<Rightarrow> nat \<Rightarrow> bool \<Rightarrow> bool
   \<Rightarrow> (int list \<times> int \<times> 'd Quant) option"
where
  "transformNxN fp goRiceRange groupIdx X265_DEPTH prim junk q cu fenc fencStride residual stride
     coeff log2TrSz ttype useTransformSkip curUseRDOQ =
     (if getCUTransquantBypass cu
      then (case bypass_fwd (push_bit log2TrSz 1) stride residual (coeff, 0) of
              (coeff, numSig) \<Rightarrow> Some (coeff, numSig, q))
      else
        (let q = transformNxN_dct X265_DEPTH prim q cu fenc fencStride residual stride log2TrSz
                   ttype useTransformSkip
         in case (if m_useRDOQ q \<and> curUseRDOQ
                  then rdoQuant fp goRiceRange groupIdx X265_DEPTH junk q cu log2TrSz ttype
                  else quant X265_DEPTH q cu log2TrSz ttype) of
              None \<Rightarrow> None
            | Some (coeff, numSig) \<Rightarrow> Some (coeff, numSig, q)))"

text \<open>
  \<open>Quant::invtransformNxN\<close>.  The result is the residual buffer and the DCT buffer of the
  object.
\<close>

definition invtransformNxN ::
  "int \<Rightarrow> primitives \<Rightarrow> 'd Quant \<Rightarrow> bool \<Rightarrow> 16 word list \<Rightarrow> nat \<Rightarrow> int list \<Rightarrow> nat \<Rightarrow> nat \<Rightarrow> bool
   \<Rightarrow> bool \<Rightarrow> int \<Rightarrow> 16 word list \<times> int list"
where
  "invtransformNxN X265_DEPTH prim q transQuantBypass residual stride coeff log2TrSz ttype bIntra
     useTransformSkip numSig =
     (if transQuantBypass
      then (bypass_inv (push_bit log2TrSz 1) stride coeff residual, m_resiDctCoeff q)
      else
        (let sl = m_scalingList q;
             rm = rem (m_qpParam q ttype);
             pr = per (m_qpParam q ttype);
             transformShift = MAX_TR_DYNAMIC_RANGE - X265_DEPTH - int log2TrSz;
             shift = QUANT_IQUANT_SHIFT - QUANT_SHIFT - transformShift;
             numCoeff = push_bit (log2TrSz * 2) 1;
             resi =
               (if m_bEnabled sl then
                  (let scalingListType = (if bIntra then 0 else 3) + ttype;
                       dequantCoef = m_dequantCoef sl (log2TrSz - 2) scalingListType (nat rm)
                   in p_dequant_scaling prim coeff dequantCoef (m_resiDctCoeff q) numCoeff pr shift)
                else
                  (let scale = s32 (shl (s_invQuantScales sl ! nat rm) pr)
                   in p_dequant_normal prim coeff (m_resiDctCoeff q) numCoeff scale shift))
         in if useTransformSkip then
              (let trSz = push_bit log2TrSz 1;
                   shift = transformShift
               in if shift > 0
                  then (p_cvt32to16_shr prim residual resi stride shift trSz, resi)
                  else
                    (let shift = - shift
                     in (fold (\<lambda>j. fold (\<lambda>k residual.
                                  residual[j * stride + k :=
                                    of_int (shl (sint (of_int (resi ! (j * trSz + k)) :: 16 word))
                                              shift)])
                                [0..<trSz])
                           [0..<trSz] residual, resi)))
            else
              (let sizeIdx = log2TrSz - 2;
                   useDST = (if sizeIdx = 0 \<and> ttype = TEXT_LUMA \<and> bIntra then 1 else 0)
               in if numSig = 1 \<and> coeff ! 0 \<noteq> 0 \<and> useDST = 0 then
                    (let shift_1st = 7;
                         add_1st = shl 1 (shift_1st - 1);
                         shift_2nd = 12 - (X265_DEPTH - 8);
                         add_2nd = s32 (shl 1 (shift_2nd - 1));
                         t1 = s32 (s32 (resi ! 0 * 64) + add_1st);
                         t2 = s32 (s32 (shr t1 shift_1st * 64) + add_2nd);
                         dc_val = shr t2 shift_2nd
                     in (p_blockfill_s prim sizeIdx residual stride (of_int dc_val), resi))
                  else (p_idct prim (IDCT_4x4 + sizeIdx - useDST) resi residual stride, resi))))"

section \<open>Properties of coefficient blocks\<close>

text \<open>The number of nonzero entries of a coefficient block, as \<open>count_nonzero\<close> recounts it.\<close>

definition count_nonzero :: "int list \<Rightarrow> int" where
  "count_nonzero q = int (length (filter (\<lambda>x. x \<noteq> 0) q))"

text \<open>A scan order of a block of \<open>N\<close> coefficients: a permutation of the positions below \<open>N\<close>.\<close>

definition scan_ok :: "nat \<Rightarrow> nat list \<Rightarrow> bool" where
  "scan_ok N scn \<longleftrightarrow> length scn = N \<and> distinct scn \<and> list_all (\<lambda>p. p < N) scn"

text \<open>Every nonzero quantised coefficient has the sign of the DCT coefficient at its position.\<close>

definition signs_agree :: "int list \<Rightarrow> int list \<Rightarrow> bool" where
  "signs_agree q coef \<longleftrightarrow>
     list_all (\<lambda>i. q ! i \<noteq> 0 \<longrightarrow> (q ! i < 0 \<longleftrightarrow> coef ! i < 0)) [0..<length q]"

definition in_int16 :: "int list \<Rightarrow> bool" where
  "in_int16 q \<longleftrightarrow> list_all (\<lambda>x. - 32768 \<le> x \<and> x \<le> 32767) q"

text \<open>The sum of the absolute values of the 16 coefficients of the group starting at \<open>subPos\<close>.\<close>

definition group_abs_sum :: "int list \<Rightarrow> nat list \<Rightarrow> nat \<Rightarrow> int" where
  "group_abs_sum q scn subPos = (\<Sum>n\<leftarrow>[0..<SCAN_SET_SIZE]. \<bar>q ! (scn ! (n + subPos))\<bar>)"

text \<open>
  The sign of the first nonzero coefficient of the group \<open>subSet\<close> is hidden in the parity: if
  the group has a nonzero coefficient and its last and first nonzero positions are at least
  \<open>SBH_THRESHOLD\<close> apart, the sign bit of the first nonzero coefficient (0 for positive, 1 for
  negative) is the parity of the sum of the absolute values.
\<close>

definition sign_hidden :: "int list \<Rightarrow> nat list \<Rightarrow> nat \<Rightarrow> bool" where
  "sign_hidden q scn subSet \<longleftrightarrow>
     (let subPos = push_bit LOG2_SCAN_SET_SIZE subSet;
          l = lastNZPos q scn subPos SCAN_SET_SIZE;
          f = firstNZPos q scn subPos (nat l) 0
      in 0 \<le> l \<and> l - int f \<ge> SBH_THRESHOLD \<longrightarrow>
           (if q ! (scn ! (subPos + f)) > 0 then 0 else 1) = group_abs_sum q scn subPos mod 2)"

text \<open>
  How the group \<open>subSet\<close> differs between two blocks: the sum over its 16 positions of the
  absolute differences.  It is 0 when the group is unchanged and 1 when exactly one
  coefficient has moved by one.
\<close>

definition group_change :: "int list \<Rightarrow> int list \<Rightarrow> nat list \<Rightarrow> nat \<Rightarrow> int" where
  "group_change q q' scn subSet =
     (\<Sum>n\<leftarrow>[0..<SCAN_SET_SIZE].
        \<bar>q' ! (scn ! (n + push_bit LOG2_SCAN_SET_SIZE subSet))
          - q ! (scn ! (n + push_bit LOG2_SCAN_SET_SIZE subSet))\<bar>)"

text \<open>
  The group \<open>subSet\<close> is one the pass has to adjust: it has nonzero coefficients at least
  \<open>SBH_THRESHOLD\<close> apart and the sign bit of the first one differs from the parity.
\<close>

definition parity_mismatch :: "int list \<Rightarrow> nat list \<Rightarrow> nat \<Rightarrow> bool" where
  "parity_mismatch q scn subSet \<longleftrightarrow>
     (let subPos = push_bit LOG2_SCAN_SET_SIZE subSet;
          l = lastNZPos q scn subPos SCAN_SET_SIZE;
          f = firstNZPos q scn subPos (nat l) 0
      in 0 \<le> l \<and> l - int f \<ge> SBH_THRESHOLD \<and>
           (if q ! (scn ! (subPos + f)) > 0 then 0 else 1) \<noteq> group_abs_sum q scn subPos mod 2)"

definition in_int32 :: "int list \<Rightarrow> bool" where
  "in_int32 q \<longleftrightarrow> list_all (\<lambda>x. - 2147483648 \<le> x \<and> x \<le> 2147483647) q"

text \<open>
  What the search loop of either pass guarantees about a position it has selected: it is
  the block position of a scan position \<open>n\<close> of the group below \<open>bound\<close>; a zero coefficient is
  only ever raised, and before the first nonzero position only where the sign of the DCT
  coefficient is the sign to hide; the first nonzero coefficient is not lowered when its
  magnitude is 1.
\<close>

definition sbh_selected ::
  "int list \<Rightarrow> int list \<Rightarrow> nat list \<Rightarrow> nat \<Rightarrow> nat \<Rightarrow> int \<Rightarrow> nat \<Rightarrow> sbh_search \<Rightarrow> bool"
where
  "sbh_selected q coef scn subPos firstNZ signbit bound s \<longleftrightarrow>
     (\<exists>n<bound. minPos s = int (scn ! (n + subPos)) \<and>
        (q ! (scn ! (n + subPos)) = 0 \<longrightarrow>
           finalChange s = 1 \<and>
           (n < firstNZ \<longrightarrow> (if coef ! (scn ! (n + subPos)) \<ge> 0 then 0 else 1) = signbit)) \<and>
        (q ! (scn ! (n + subPos)) \<noteq> 0 \<longrightarrow>
           finalChange s = 1 \<or>
           finalChange s = - 1 \<and> \<not> (n = firstNZ \<and> abs32 (q ! (scn ! (n + subPos))) = 1)))"

definition sbh_inv ::
  "int \<Rightarrow> int list \<Rightarrow> int list \<Rightarrow> nat list \<Rightarrow> nat \<Rightarrow> nat \<Rightarrow> int \<Rightarrow> nat \<Rightarrow> sbh_search \<Rightarrow> bool"
where
  "sbh_inv mx q coef scn subPos firstNZ signbit bound s \<longleftrightarrow>
     minCostInc s \<le> mx \<and>
     (if minCostInc s < mx then sbh_selected q coef scn subPos firstNZ signbit bound s
      else minPos s = - 1)"

text \<open>The first nonzero coefficient of the group \<open>subSet\<close> of \<open>q\<close>, if any, is nonzero in \<open>q'\<close>.\<close>

definition first_kept :: "int list \<Rightarrow> int list \<Rightarrow> nat list \<Rightarrow> nat \<Rightarrow> bool" where
  "first_kept q q' scn subSet \<longleftrightarrow>
     (let subPos = push_bit LOG2_SCAN_SET_SIZE subSet;
          l = lastNZPos q scn subPos SCAN_SET_SIZE;
          f = firstNZPos q scn subPos (nat l) 0
      in 0 \<le> l \<longrightarrow> q' ! (scn ! (subPos + f)) \<noteq> 0)"

text \<open>
  What a sign-bit-hiding pass from \<open>q\<close> to \<open>q'\<close> achieves on the group \<open>subSet\<close>: the sign is
  hidden in \<open>q'\<close>; exactly one coefficient of the group has moved by one if the group had a
  parity mismatch, and none otherwise; the first nonzero coefficient has not become zero.
\<close>

definition group_adjusted :: "int list \<Rightarrow> int list \<Rightarrow> nat list \<Rightarrow> nat \<Rightarrow> bool" where
  "group_adjusted q q' scn subSet \<longleftrightarrow>
     sign_hidden q' scn subSet \<and>
     group_change q q' scn subSet = (if parity_mismatch q scn subSet then 1 else 0) \<and>
     first_kept q q' scn subSet"

text \<open>
  The invariant of the reverse scan of \<open>rdoQuant\<close> when the scan positions from \<open>p\<close> upwards have
  been visited, for the block \<open>nq\<close> that \<open>nquant\<close> has written: the coefficients at the scan
  positions below \<open>p\<close> are still those of \<open>nq\<close>; the others hold a level between 0 and the
  magnitude of \<open>nq\<close>; no coefficient after \<open>lastScanPos\<close> is nonzero, and none at all while
  \<open>lastScanPos\<close> is negative; \<open>deltaU\<close> and \<open>rateIncDown\<close> hold \<open>int\<close> values.
\<close>

definition rdo_inv :: "nat \<Rightarrow> nat list \<Rightarrow> int list \<Rightarrow> nat \<Rightarrow> 'd rdo_state \<Rightarrow> bool" where
  "rdo_inv N scn nq p st \<longleftrightarrow>
     length (r_dstCoeff st) = N \<and>
     (\<forall>s<p. r_dstCoeff st ! (scn ! s) = nq ! (scn ! s)) \<and>
     (\<forall>s. p \<le> s \<and> s < N \<longrightarrow>
        0 \<le> r_dstCoeff st ! (scn ! s) \<and> r_dstCoeff st ! (scn ! s) \<le> \<bar>nq ! (scn ! s)\<bar>) \<and>
     (if r_lastScanPos st < 0
      then (\<forall>s. p \<le> s \<and> s < N \<longrightarrow> r_dstCoeff st ! (scn ! s) = 0)
      else int p \<le> r_lastScanPos st \<and> r_lastScanPos st < int N \<and>
           r_cgLastScanPos st = r_lastScanPos st div 16 \<and>
           (\<forall>s. r_lastScanPos st < int s \<and> s < N \<longrightarrow> r_dstCoeff st ! (scn ! s) = 0)) \<and>
     in_int32 (r_deltaU st) \<and> in_int32 (r_rateIncDown st) \<and>
     N \<le> length (r_deltaU st) \<and> N \<le> length (r_rateIncDown st)"

text \<open>The number of nonzero coefficients at the scan positions below \<open>K\<close>.\<close>

definition nz_before :: "int list \<Rightarrow> nat list \<Rightarrow> nat \<Rightarrow> int" where
  "nz_before dst scn K = int (card {s. s < K \<and> dst ! (scn ! s) \<noteq> 0})"

subsection \<open>Valid calls of the encode path\<close>

text \<open>
  What the quantisers rely on, for the \<open>Quant\<close> object as the transform stage has left it:
  the scan table of the block is a permutation of its \<open>N\<close> positions, the block has 16
  coefficients per coefficient group and at most 32x32 coefficients, the quantiser shift
  \<open>qbits\<close> is at most 31 and the quantiser scaling factors are not negative.
\<close>

definition quant_ok :: "int \<Rightarrow> 'd Quant \<Rightarrow> TComDataCU \<Rightarrow> nat \<Rightarrow> nat \<Rightarrow> bool" where
  "quant_ok X265_DEPTH q cu log2TrSz ttype \<longleftrightarrow>
     (let N = push_bit (log2TrSz * 2) (1::nat);
          cp = getTUEntropyCodingParameters cu;
          qbits = QUANT_SHIFT + per (m_qpParam q ttype)
                    + (MAX_TR_DYNAMIC_RANGE - X265_DEPTH - int log2TrSz);
          qc = m_quantCoef (m_scalingList q) (log2TrSz - 2)
                 ((if isIntra cu then 0 else 3) + ttype) (nat (rem (m_qpParam q ttype)))
      in scan_ok N (scan cp) \<and> 16 * push_bit (log2TrSizeCG cp * 2) (1::nat) = N \<and> N \<le> 1024
         \<and> qbits \<le> 31 \<and> list_all (\<lambda>i. 0 \<le> qc ! i) [0..<N])"

text \<open>
  What \<open>rdoQuant\<close> relies on in addition: \<open>qbits\<close> is at least 1, the DCT coefficients are
  \<open>int32_t\<close> values, the uninitialised arrays \<open>deltaU\<close> and \<open>rateIncDown\<close> hold \<open>int\<close> values for
  every position of the block, and the conversion of \<open>rdFactor\<close> to \<open>int64_t\<close> gives a value of
  magnitude at most \<open>2^31\<close>.
\<close>

definition rdoq_ok :: "'d fpu \<Rightarrow> int \<Rightarrow> 'd rdo_state \<Rightarrow> 'd Quant \<Rightarrow> nat \<Rightarrow> nat \<Rightarrow> bool" where
  "rdoq_ok fp X265_DEPTH junk q log2TrSz ttype \<longleftrightarrow>
     (let N = push_bit (log2TrSz * 2) (1::nat);
          qbits = QUANT_SHIFT + per (m_qpParam q ttype)
                    + (MAX_TR_DYNAMIC_RANGE - X265_DEPTH - int log2TrSz)
      in 1 \<le> qbits
         \<and> list_all (\<lambda>i. - 2147483648 \<le> m_resiDctCoeff q ! i \<and> m_resiDctCoeff q ! i \<le> 2147483647)
              [0..<N]
         \<and> in_int32 (r_deltaU junk) \<and> in_int32 (r_rateIncDown junk)
         \<and> N \<le> length (r_deltaU junk) \<and> N \<le> length (r_rateIncDown junk)
         \<and> \<bar>rdo_rdFactor fp (s_invQuantScales (m_scalingList q) ! nat (rem (m_qpParam q ttype)))
              (per (m_qpParam q ttype)) (m_lambdas q ttype)\<bar> \<le> 2147483648)"

text \<open>
  The magnitude the plain quantiser is given as its candidate for a DCT coefficient \<open>c\<close> with
  the scaling factor \<open>qc\<close>: \<open>ceil(|c * qc| / 2^qbits)\<close>.
\<close>

definition plain_candidate :: "int \<Rightarrow> int \<Rightarrow> int \<Rightarrow> int" where
  "plain_candidate c qc qbits = \<lceil>real_of_int \<bar>c * qc\<bar> / 2 ^ nat qbits\<rceil>"

text \<open>The candidates of a call of \<open>rdoQuant\<close>, one per position of the block.\<close>

definition rdoq_candidates :: "int \<Rightarrow> 'd Quant \<Rightarrow> TComDataCU \<Rightarrow> nat \<Rightarrow> nat \<Rightarrow> int list" where
  "rdoq_candidates X265_DEPTH q cu log2TrSz ttype =
     (let qbits = QUANT_SHIFT + per (m_qpParam q ttype)
                    + (MAX_TR_DYNAMIC_RANGE - X265_DEPTH - int log2TrSz);
          qc = m_quantCoef (m_scalingList q) (log2TrSz - 2)
                 ((if isIntra cu then 0 else 3) + ttype) (nat (rem (m_qpParam q ttype)))
      in map (\<lambda>i. plain_candidate (m_resiDctCoeff q ! i) (qc ! i) qbits)
           [0..<push_bit (log2TrSz * 2) 1])"

text \<open>
  By how much the magnitudes of the group \<open>subSet\<close> of a block exceed the bounds \<open>cand\<close>: the
  sum over its 16 positions of \<open>max(|out| - cand, 0)\<close>.  It is 0 when no magnitude is above
  its bound, and at most 1 only if at most one magnitude is above its bound, by one.
\<close>

definition group_excess :: "int list \<Rightarrow> int list \<Rightarrow> nat list \<Rightarrow> nat \<Rightarrow> int" where
  "group_excess out cand scn subSet =
     (\<Sum>n\<leftarrow>[0..<SCAN_SET_SIZE].
        max 0 (\<bar>out ! (scn ! (n + push_bit LOG2_SCAN_SET_SIZE subSet))\<bar>
                 - cand ! (scn ! (n + push_bit LOG2_SCAN_SET_SIZE subSet))))"

text \<open>The samples of the \<open>trSz\<close> x \<open>trSz\<close> block of a residual buffer, row by row.\<close>

definition residual_block :: "nat \<Rightarrow> nat \<Rightarrow> 16 word list \<Rightarrow> 16 word list" where
  "residual_block trSz stride residual =
     map (\<lambda>(k, j). residual ! (k * stride + j)) (List.product [0..<trSz] [0..<trSz])"

text \<open>
  The invariant of the forward bypass copy when the first \<open>p\<close> positions of the coefficient
  block have been written, and of the inverse copy when the rows below \<open>k\<close> and the first \<open>m\<close>
  samples of the row \<open>k\<close> have been written.
\<close>

definition bypass_fwd_inv :: "nat \<Rightarrow> nat \<Rightarrow> 16 word list \<Rightarrow> nat \<Rightarrow> nat \<Rightarrow> int list \<times> int \<Rightarrow> bool" where
  "bypass_fwd_inv trSz stride residual L p acc \<longleftrightarrow>
     (case acc of (c, n) \<Rightarrow>
        length c = L \<and> n = count_nonzero (take p c) \<and>
        (\<forall>i<p. c ! i = sint (residual ! ((i div trSz) * stride + i mod trSz))))"

definition bypass_inv_inv :: "nat \<Rightarrow> nat \<Rightarrow> int list \<Rightarrow> nat \<Rightarrow> nat \<Rightarrow> nat \<Rightarrow> 16 word list \<Rightarrow> bool" where
  "bypass_inv_inv trSz stride coeff L k m r \<longleftrightarrow>
     length r = L \<and>
     (\<forall>k' j'. j' < trSz \<and> (k' < k \<or> (k' = k \<and> j' < m)) \<longrightarrow>
        r ! (k' * stride + j') = of_int (coeff ! (k' * trSz + j')))"


text \<open>
  A valid call of \<open>transformNxN\<close>: with transform-quant bypass the coefficient buffer is the
  block of \<open>trSize * trSize\<close> coefficients, with \<open>log2TrSize\<close> at most 5; otherwise the
  quantiser that the call selects is given what it relies on.
\<close>

definition encode_ok ::
  "'d fpu \<Rightarrow> int \<Rightarrow> primitives \<Rightarrow> 'd rdo_state \<Rightarrow> 'd Quant \<Rightarrow> TComDataCU \<Rightarrow> int list \<Rightarrow> nat
   \<Rightarrow> 16 word list \<Rightarrow> nat \<Rightarrow> int list \<Rightarrow> nat \<Rightarrow> nat \<Rightarrow> bool \<Rightarrow> bool \<Rightarrow> bool"
where
  "encode_ok fp X265_DEPTH prim junk q cu fenc fencStride residual stride coeff log2TrSz ttype
     useTransformSkip curUseRDOQ \<longleftrightarrow>
     (if getCUTransquantBypass cu
      then length coeff = push_bit log2TrSz 1 * push_bit log2TrSz 1 \<and> log2TrSz \<le> 5
      else
        (let q = transformNxN_dct X265_DEPTH prim q cu fenc fencStride residual stride log2TrSz
                   ttype useTransformSkip
         in quant_ok X265_DEPTH q cu log2TrSz ttype \<and>
            (if m_useRDOQ q \<and> curUseRDOQ then rdoq_ok fp X265_DEPTH junk q log2TrSz ttype
             else True)))"

subsection \<open>The bins of the coefficient rates\<close>

text \<open>
  The number of bins that \<open>getICRateCost\<close> charges after the sign bin, and that \<open>getICRate\<close>
  charges with the Rice ranges \<open>7, 14, 26, 46, 78\<close>, for the Rice parameter \<open>r\<close> and a
  \<open>diffLevel\<close> \<open>n\<close> that is not negative.  With these ranges the prefix of the escape code of
  \<open>getICRate\<close> always has 8 bins.
\<close>

definition cost_bins :: "nat \<Rightarrow> nat \<Rightarrow> nat" where
  "cost_bins r n = (let p = n div 2 ^ r in if p < 3 then p + 1 + r else 4 + r + 2 * bsr (p - 2))"

definition rate_bins :: "nat \<Rightarrow> nat \<Rightarrow> nat" where
  "rate_bins r n =
     (let g = [7, 14, 26, 46, 78] ! r
      in if g < n then 2 * bsr (n - g) + 9 else min (n div 2 ^ r + 1 + r) 8)"


section \<open>A 4x4 luma block\<close>

text \<open>
  A concrete call on which the theorems below are instantiated: an intra 4x4 luma block of an
  I slice at bit depth 8 with the diagonal scan, quantised with \<open>rem = 4\<close>, \<open>per = 0\<close> and the
  flat scaling factor 16384, so that \<open>qbits = 19\<close>.  The doubles are rationals here; every
  value that occurs is a dyadic rational that a double holds exactly.
\<close>

definition ex_fp :: "rat fpu" where
  "ex_fp = \<lparr>d_add = (+), d_sub = (-), d_mul = (*), d_div = (/), d_less = (<),
             d_of_int = of_int, d_to_int64 = (\<lambda>x. if x \<ge> 0 then \<lfloor>x\<rfloor> else - \<lfloor>- x\<rfloor>),
             d_half = 1 / 2, MAX_DOUBLE = 17 * 10 ^ 307\<rparr>"

definition ex_scan :: "nat list" where
  "ex_scan = [0, 4, 1, 8, 5, 2, 12, 9, 6, 3, 13, 10, 7, 14, 11, 15]"

definition ex_cp :: TUEntropyCodingParameters where
  "ex_cp = \<lparr>scan = ex_scan, scanCG = [0], scanTypeVer = False, log2TrSizeCG = 0,
          firstSignificanceMapContext = 0\<rparr>"

text \<open>
  Bit estimates in which only coding a coefficient as greater than one costs anything (10
  bins).
\<close>

definition ex_est :: EstBitsSbac where
  "ex_est = \<lparr>significantCoeffGroupBits = replicate 2 [0, 0],
           significantBits = replicate 42 [0, 0],
           lastXBits = replicate 10 0, lastYBits = replicate 10 0,
           greaterOneBits = replicate 24 [327680, 0],
           levelAbsBits = replicate 6 [0, 0],
           blockCbpBits = replicate 8 [0, 0],
           blockRootCbpBits = replicate 4 [0, 0]\<rparr>"

definition ex_sl :: "rat ScalingList" where
  "ex_sl = \<lparr>m_bEnabled = False, m_quantCoef = (\<lambda>s l r. replicate 16 16384),
          m_dequantCoef = (\<lambda>s l r. replicate 16 64),
          m_errScale = (\<lambda>s l r. replicate 16 1),
          s_invQuantScales = [40, 45, 51, 57, 64, 72]\<rparr>"

definition ex_nr :: NoiseReduction where
  "ex_nr = \<lparr>bNoiseReduction = False, residualSum = (\<lambda>s. []), offset = (\<lambda>s. []), count = (\<lambda>s. 0)\<rparr>"

text \<open>The \<open>Quant\<close> object, with the DCT coefficients -64 and 64 at the positions 0 and 2.\<close>

definition ex_q :: "rat Quant" where
  "ex_q = \<lparr>m_useRDOQ = True, m_psyRdoqScale = 0, m_scalingList = ex_sl,
         m_resiDctCoeff = [- 64, 0, 64, 0, 0, 0, 0, 0, 0, 0, 0, 0, 0, 0, 0, 0],
         m_fencDctCoeff = replicate 16 0, m_fencShortBuf = replicate 16 0,
         m_qpParam = (\<lambda>t. \<lparr>rem = 4, per = 0\<rparr>), m_lambdas = (\<lambda>t. 1),
         m_estBitsSbac = ex_est, m_nr = ex_nr\<rparr>"

definition ex_cu :: TComDataCU where
  "ex_cu = \<lparr>getCUTransquantBypass = False, isIntra = True, isISlice = True,
          bSignHideEnabled = True, getTransformIdx = 0, getCtxQtCbf = 0,
          getTUEntropyCodingParameters = ex_cp\<rparr>"

text \<open>The local arrays of \<open>rdoQuant\<close> filled with zeros.\<close>

definition ex_junk :: "rat rdo_state" where
  "ex_junk = \<lparr>r_dstCoeff = [], r_costCoeff = replicate 16 0, r_costSig = replicate 16 0,
            r_costCoeff0 = replicate 16 0, r_rateIncUp = replicate 16 0,
            r_rateIncDown = replicate 16 0, r_sigRateDelta = replicate 16 0,
            r_deltaU = replicate 16 0, r_costCoeffGroupSig = replicate 64 0,
            r_sigCoeffGroupFlag64 = 0, r_ctxSet = 0, r_c1 = 0, r_c2 = 0, r_baseCost = 0,
            r_blockUncodedCost = 0, r_lastScanPos = 0, r_goRiceParam = 0, r_c1Idx = 0,
            r_c2Idx = 0, r_cgLastScanPos = 0,
            r_rdStats = \<lparr>nnzBeforePos0 = 0, codedLevelAndDist = 0, uncodedDist = 0,
                         sigCost = 0, sigCost0 = 0\<rparr>\<rparr>"

text \<open>\<open>getGroupIdx\<close> for the positions below 32.\<close>

definition ex_gidx :: "nat \<Rightarrow> nat" where
  "ex_gidx p = [0, 1, 2, 3, 4, 4, 5, 5, 6, 6, 6, 6, 7, 7, 7, 7, 8, 8, 8, 8, 8, 8, 8, 8,
             9, 9, 9, 9, 9, 9, 9, 9] ! p"

text \<open>
  Kernels for the transform stage: the forward transform of this example leaves the DCT
  coefficients of \<open>ex_q\<close>, whatever the residual is; the other kernels leave their buffers as
  they are.
\<close>

definition ex_prim :: primitives where
  "ex_prim = \<lparr>p_dct = (\<lambda>idx src dst stride. m_resiDctCoeff ex_q),
            p_idct = (\<lambda>idx src dst stride. dst),
            p_square_copy_ps = (\<lambda>idx dst dstStride src srcStride. dst),
            p_cvt16to32_shl = (\<lambda>dst src stride shift n. dst),
            p_cvt32to16_shr = (\<lambda>dst src stride shift n. dst),
            p_dequant_scaling = (\<lambda>src coef dst num pr shift. dst),
            p_dequant_normal = (\<lambda>src dst num scale shift. dst),
            p_blockfill_s = (\<lambda>idx dst stride v. dst)\<rparr>"

text \<open>A residual block and the block of a coefficient buffer for the bypass examples.\<close>

definition ex_resi :: "16 word list" where
  "ex_resi = [3, 0, - 1, 0, 0, 0, 0, 0, 7, 0, 0, 0, 0, 0, 0, - 32768]"

definition ex_cu_bypass :: TComDataCU where
  "ex_cu_bypass = ex_cu\<lparr>getCUTransquantBypass := True\<rparr>"

text \<open>The values that \<open>rdoQuant\<close> holds fixed during its reverse scan of this block.\<close>

definition ex_env :: "rat rdo_env" where
  "ex_env = \<lparr>e_fp = ex_fp, e_cp = ex_cp, e_est = ex_est, e_goRiceRange = [7, 14, 26, 46, 78],
           e_groupIdx = ex_gidx, e_qbits = 19, e_log2TrSize = 2, e_bIsLuma = True,
           e_usePsy = False, e_psyRdoqScale = 0, e_lambda2 = 1, e_errScale = replicate 16 1,
           e_scaledCoeff = [1048576, 0, 1048576, 0, 0, 0, 0, 0, 0, 0, 0, 0, 0, 0, 0, 0],
           e_resiDctCoeff = [- 64, 0, 64, 0, 0, 0, 0, 0, 0, 0, 0, 0, 0, 0, 0, 0],
           e_fencDctCoeff = replicate 16 0, e_unquantShift = 1, e_unquantRound = 1,
           e_unquantScale = 64, e_scaleBits = 5\<rparr>"

section \<open>An 8x8 luma block\<close>

text \<open>
  A second concrete call, for the plain quantiser: an intra 8x8 luma block of an I slice at bit
  depth 8 with the diagonal scan over four coefficient groups, quantised with \<open>rem = 4\<close>,
  \<open>per = 0\<close> and the flat scaling factor 16384, so that \<open>qbits = 18\<close> and a DCT coefficient
  \<open>c\<close> that is a multiple of 16 has the level \<open>|c| / 16\<close> and the quantisation error 0.
\<close>

definition ex8_scan :: "nat list" where
  "ex8_scan = [0, 8, 1, 16, 9, 2, 24, 17, 10, 3, 25, 18, 11, 26, 19, 27,
            32, 40, 33, 48, 41, 34, 56, 49, 42, 35, 57, 50, 43, 58, 51, 59,
            4, 12, 5, 20, 13, 6, 28, 21, 14, 7, 29, 22, 15, 30, 23, 31,
            36, 44, 37, 52, 45, 38, 60, 53, 46, 39, 61, 54, 47, 62, 55, 63]"

definition ex8_cp :: TUEntropyCodingParameters where
  "ex8_cp = \<lparr>scan = ex8_scan, scanCG = [0, 2, 1, 3], scanTypeVer = False, log2TrSizeCG = 1,
           firstSignificanceMapContext = 0\<rparr>"

definition ex8_sl :: "rat ScalingList" where
  "ex8_sl = ex_sl\<lparr>m_quantCoef := (\<lambda>s l r. replicate 64 16384),
                 m_dequantCoef := (\<lambda>s l r. replicate 64 64),
                 m_errScale := (\<lambda>s l r. replicate 64 1)\<rparr>"

text \<open>
  The DCT coefficients: 32 at the block position 0 and 16 at the block position 2 (the scan
  positions 0 and 5 of the first coefficient group), 32 at the block position 32 (the first
  scan position of the second group), and 0 everywhere else.
\<close>

definition ex8_dct :: "int list" where
  "ex8_dct = [32, 0, 16, 0, 0, 0, 0, 0] @ replicate 24 0 @ [32, 0, 0, 0, 0, 0, 0, 0]
             @ replicate 24 0"

definition ex8_q :: "rat Quant" where
  "ex8_q = ex_q\<lparr>m_scalingList := ex8_sl, m_resiDctCoeff := ex8_dct,
               m_fencDctCoeff := replicate 64 0, m_fencShortBuf := replicate 64 0\<rparr>"

definition ex8_cu :: TComDataCU where
  "ex8_cu = ex_cu\<lparr>getTUEntropyCodingParameters := ex8_cp\<rparr>"

text \<open>The forward transform of this example leaves the DCT coefficients \<open>ex8_dct\<close>.\<close>

definition ex8_prim :: primitives where
  "ex8_prim = ex_prim\<lparr>p_dct := (\<lambda>idx src dst stride. ex8_dct)\<rparr>"

section \<open>Word arithmetic used by the helpers\<close>

lemma sdb31: "signed_drop_bit 31 (w::32 word) = (if sint w < 0 then - 1 else 0)"
proof -
  have "signed_drop_bit 31 w = (if bit w 31 then - 1 else 0)"
    by (rule bit_word_eqI) (auto simp add: bit_signed_drop_bit_iff not_le)
  then show ?thesis using bit_last_iff [of w] by simp
qed

lemma xor_m1_minus: "((w::32 word) - 1) XOR (- 1) = - w"
  by (metis bit.xor_one_right minus_eq_not_minus_1)

lemma xor_m1_plus: "((w::32 word) XOR (- 1)) + 1 = - w"
  by (metis bit.xor_one_right minus_eq_not_plus_1)

lemma sint32_range: "- 2147483648 \<le> sint (w::32 word) \<and> sint w < 2147483648"
  using sint_ge [of w] sint_lt [of w] by simp

lemma stb31: "- 2147483648 \<le> k \<Longrightarrow> k < 2147483648 \<Longrightarrow> signed_take_bit 31 (k::int) = k"
  by (rule signed_take_bit_int_eq_self) simp_all

lemma sint_ucast16: "sint (ucast (off::16 word) :: 32 word) = uint off"
proof -
  have "uint off < 65536" "0 \<le> uint off" using uint_lt2p [of off] by simp_all
  then have "signed_take_bit 31 (uint off) = uint off"
    by (intro stb31) linarith+
  then show ?thesis
    by (simp add: signed_ucast_eq)
qed

lemma sint_neg32: "sint (w::32 word) \<noteq> - 2147483648 \<Longrightarrow> sint (- w) = - sint w"
  using sint32_range [of w] by (simp add: sint_word_minus stb31)

lemma sint_sub_off:
  assumes "0 \<le> sint (a::32 word)"
  shows "sint (a - ucast (off::16 word)) = sint a - uint off"
proof -
  have "uint off < 65536" "0 \<le> uint off" using uint_lt2p [of off] by simp_all
  then have "signed_take_bit 31 (sint a - uint off) = sint a - uint off"
    using assms sint32_range [of a] by (intro stb31) linarith+
  then show ?thesis
    by (simp add: sint_word_diff sint_ucast16)
qed

section \<open>Noise reduction\<close>

lemma denoise_coef_nonneg:
  assumes "0 \<le> sint c"
  shows "denoise_coef c rs off =
     (if sint c < uint off then 0 else c - ucast off, rs + c)"
  using assms by (simp add: denoise_coef_def sdb31 word_sless_alt sint_sub_off)

lemma denoise_coef_neg:
  assumes "sint c < 0" "sint c \<noteq> - 2147483648"
  shows "denoise_coef c rs off =
     (if - sint c < uint off then 0 else - (- c - ucast off), rs - c)"
proof -
  have "0 \<le> sint (- c)" using assms by (simp add: sint_neg32)
  then have "sint (- c - ucast off) = - sint c - uint off"
    using assms by (simp add: sint_sub_off sint_neg32)
  moreover have "(c + - 1) XOR - 1 = - c" using xor_m1_minus [of c] by simp
  moreover have "\<And>l::32 word. (l XOR - 1) - (- 1) = - l" using xor_m1_plus by simp
  ultimately show ?thesis using assms
    unfolding denoise_coef_def Let_def sdb31 word_sless_alt by simp
qed

lemma denoise_coef_spec:
  assumes "sint c \<noteq> - 2147483648" and "denoise_coef c rs off = (c', rs')"
  shows "\<bar>sint c'\<bar> = max (\<bar>sint c\<bar> - uint off) 0"
    and "c' \<noteq> 0 \<Longrightarrow> sgn (sint c') = sgn (sint c)"
    and "rs' = rs + word_of_int \<bar>sint c\<bar>"
proof -
  have r: "uint off < 65536" "0 \<le> uint off" using uint_lt2p [of off] by simp_all
  show "\<bar>sint c'\<bar> = max (\<bar>sint c\<bar> - uint off) 0"
  proof (cases "sint c < 0")
    case True
    have "0 \<le> sint (- c)" using assms True by (simp add: sint_neg32)
    then have d: "sint (- c - ucast off) = - sint c - uint off"
      using assms by (simp add: sint_sub_off sint_neg32)
    have "- sint c - uint off \<noteq> - 2147483648" using r True by simp
    then have "sint (- (- c - ucast off)) = - (- sint c - uint off)"
      using d sint_neg32 [of "- c - ucast off"] by simp
    then show ?thesis using assms True by (auto simp: denoise_coef_neg)
  next
    case False
    then show ?thesis using assms by (auto simp: denoise_coef_nonneg sint_sub_off)
  qed
  show "c' \<noteq> 0 \<Longrightarrow> sgn (sint c') = sgn (sint c)"
  proof (cases "sint c < 0")
    case True
    assume nz: "c' \<noteq> 0"
    have "0 \<le> sint (- c)" using assms True by (simp add: sint_neg32)
    then have d: "sint (- c - ucast off) = - sint c - uint off"
      using assms by (simp add: sint_sub_off sint_neg32)
    have "- sint c - uint off \<noteq> - 2147483648" using r True by simp
    then have e: "sint (- (- c - ucast off)) = - (- sint c - uint off)"
      using d sint_neg32 [of "- c - ucast off"] by simp
    have "\<not> - sint c < uint off" using assms True nz by (auto simp: denoise_coef_neg split: if_splits)
    moreover have "c' = - (- c - ucast off)" using assms True nz by (auto simp: denoise_coef_neg split: if_splits)
    moreover have "sint c' \<noteq> 0" using nz by (metis sint_0 signed_eq_0_iff)
    ultimately show ?thesis using e True by (simp add: sgn_if)
  next
    case False
    assume nz: "c' \<noteq> 0"
    have "sint c' \<noteq> 0" using nz by (metis signed_eq_0_iff)
    then show ?thesis using assms False nz by (auto simp: denoise_coef_nonneg sint_sub_off sgn_if split: if_splits)
  qed
  show "rs' = rs + word_of_int \<bar>sint c\<bar>"
  proof (cases "sint c < 0")
    case True
    then show ?thesis using assms by (auto simp: denoise_coef_neg)
  next
    case False
    then show ?thesis using assms by (auto simp: denoise_coef_nonneg)
  qed
qed

lemma denoiseDct_from_nth:
  assumes "n \<le> length d" "n \<le> length r" "k < n"
  shows "(fst (denoiseDct_from i d r off n) ! k, snd (denoiseDct_from i d r off n) ! k) =
         (if i \<le> k then denoise_coef (d ! k) (r ! k) (off ! k) else (d ! k, r ! k))"
  using assms
proof (induction i d r off n rule: denoiseDct_from.induct)
  case (1 i d r off n)
  show ?case
  proof (cases "i < n")
    case True
    obtain c q where cq: "denoise_coef (d ! i) (r ! i) (off ! i) = (c, q)"
      by (cases "denoise_coef (d ! i) (r ! i) (off ! i)")
    have ih: "(fst (denoiseDct_from (Suc i) (d[i := c]) (r[i := q]) off n) ! k,
               snd (denoiseDct_from (Suc i) (d[i := c]) (r[i := q]) off n) ! k) =
         (if Suc i \<le> k then denoise_coef (d[i := c] ! k) (r[i := q] ! k) (off ! k)
          else (d[i := c] ! k, r[i := q] ! k))"
      using "1.IH" [OF True cq [symmetric] refl] "1.prems" by simp
    have unf: "denoiseDct_from i d r off n = denoiseDct_from (Suc i) (d[i := c]) (r[i := q]) off n"
      using True cq by (subst denoiseDct_from.simps) simp
    show ?thesis
    proof (cases "k = i")
      case True
      then show ?thesis using ih unf cq "1.prems" by simp
    next
      case False
      then show ?thesis using ih unf "1.prems" by auto
    qed
  next
    case False
    then have "denoiseDct_from i d r off n = (d, r)"
      by (subst denoiseDct_from.simps) simp
    then show ?thesis using False "1.prems" by simp
  qed
qed

text \<open>
  Claim C10, as amended.  For every position \<open>i\<close> below \<open>size\<close> whose input coefficient
  is not \<open>-2^31\<close>, \<open>denoiseDct\<close> leaves a coefficient of magnitude
  \<open>max (|input[i]| - offs[i]) 0\<close>, which is at most \<open>|input[i]|\<close>; a nonzero output
  coefficient keeps the sign of the input coefficient; and \<open>residualSum[i]\<close> becomes
  \<open>residualSum[i] + |input[i]|\<close> in unsigned 32-bit arithmetic.
\<close>

theorem denoiseDct_shrinks:
  assumes "n \<le> length dctCoef" and "n \<le> length resSum" and "n \<le> length offs"
    and "i < n" and "sint (dctCoef ! i) \<noteq> - 2147483648"
  shows "\<bar>sint (fst (denoiseDct dctCoef resSum offs n) ! i)\<bar>
           = max (\<bar>sint (dctCoef ! i)\<bar> - uint (offs ! i)) 0
       \<and> \<bar>sint (fst (denoiseDct dctCoef resSum offs n) ! i)\<bar> \<le> \<bar>sint (dctCoef ! i)\<bar>
       \<and> (fst (denoiseDct dctCoef resSum offs n) ! i \<noteq> 0 \<longrightarrow>
            sgn (sint (fst (denoiseDct dctCoef resSum offs n) ! i)) = sgn (sint (dctCoef ! i)))
       \<and> snd (denoiseDct dctCoef resSum offs n) ! i
           = resSum ! i + word_of_int \<bar>sint (dctCoef ! i)\<bar>"
proof -
  let ?d = "fst (denoiseDct dctCoef resSum offs n) ! i"
  let ?r = "snd (denoiseDct dctCoef resSum offs n) ! i"
  have eq: "denoise_coef (dctCoef ! i) (resSum ! i) (offs ! i) = (?d, ?r)"
    using denoiseDct_from_nth [of n dctCoef resSum i 0 offs] assms
    by (simp add: denoiseDct_def)
  have a: "\<bar>sint ?d\<bar> = max (\<bar>sint (dctCoef ! i)\<bar> - uint (offs ! i)) 0"
    by (rule denoise_coef_spec(1) [OF assms(5) eq])
  have b: "?d \<noteq> 0 \<longrightarrow> sgn (sint ?d) = sgn (sint (dctCoef ! i))"
    using denoise_coef_spec(2) [OF assms(5) eq] by blast
  have c: "?r = resSum ! i + word_of_int \<bar>sint (dctCoef ! i)\<bar>"
    by (rule denoise_coef_spec(3) [OF assms(5) eq])
  have "0 \<le> uint (offs ! i)" by simp
  then have "\<bar>sint ?d\<bar> \<le> \<bar>sint (dctCoef ! i)\<bar>" using a by linarith
  then show ?thesis using a b c by blast
qed

lemma denoiseDct_example: "denoiseDct [5, - 7, 3] [10, 20, 30] [2, 3, 9] 3 = ([3, - 4, 0], [15, 27, 33])"
  by (simp add: denoiseDct_def denoiseDct_from.simps denoise_coef_def word_sless_alt)

theorem denoiseDct_shrinks_witness:
  "(3::nat) \<le> length [5, - 7, 3 :: 32 word] \<and> (3::nat) \<le> length [10, 20, 30 :: 32 word]
   \<and> (3::nat) \<le> length [2, 3, 9 :: 16 word] \<and> (1::nat) < 3
   \<and> sint ([5, - 7, 3 :: 32 word] ! 1) \<noteq> - 2147483648
   \<and> \<bar>sint (fst (denoiseDct [5, - 7, 3] [10, 20, 30] [2, 3, 9] 3) ! 1)\<bar> = 4
   \<and> snd (denoiseDct [5, - 7, 3] [10, 20, 30] [2, 3, 9] 3) ! 1 = 27"
  using denoiseDct_shrinks [of 3 "[5, - 7, 3]" "[10, 20, 30]" "[2, 3, 9]" 1]
  by (simp add: denoiseDct_example)

text \<open>
  Claim C10 as stated fails at the coefficient \<open>-2^31\<close> with offs 0: the magnitude
  computed by \<open>(level + sign) ^ sign\<close> wraps to \<open>-2^31\<close>, the test \<open>level < 0\<close> succeeds and
  the coefficient is zeroed, where the claim asks for magnitude \<open>2^31\<close>.  The running sum is
  a \<open>uint32_t\<close>: at \<open>2^32 - 1\<close> adding the magnitude 1 gives 0.
\<close>

theorem denoiseDct_counterexample:
  "\<bar>sint (fst (denoiseDct [- 2147483648] [0] [0] 1) ! 0)\<bar>
      \<noteq> max (\<bar>sint (- 2147483648 :: 32 word)\<bar> - uint (0 :: 16 word)) 0
   \<and> uint (snd (denoiseDct [1] [4294967295] [0] 1) ! 0)
      \<noteq> uint (4294967295 :: 32 word) + \<bar>sint (1 :: 32 word)\<bar>"
  by (simp add: denoiseDct_def denoiseDct_from.simps denoise_coef_def word_sless_alt)

section \<open>Coefficient rates\<close>

lemma small_word_cases3:
  assumes "(a::32 word) < 3" shows "a = 0 \<or> a = 1 \<or> a = 2"
proof -
  have "unat a < 3" using assms by (simp add: word_less_nat_alt)
  then have "unat a = 0 \<or> unat a = 1 \<or> unat a = 2" by arith
  then show ?thesis by (auto dest!: arg_cong [where f = "of_nat :: nat \<Rightarrow> 32 word"])
qed

lemma small_word_cases5:
  assumes "(a::32 word) \<le> 4" shows "a = 0 \<or> a = 1 \<or> a = 2 \<or> a = 3 \<or> a = 4"
proof -
  have "unat a \<le> 4" using assms by (simp add: word_le_nat_alt)
  then have "unat a = 0 \<or> unat a = 1 \<or> unat a = 2 \<or> unat a = 3 \<or> unat a = 4" by arith
  then show ?thesis by (auto dest!: arg_cong [where f = "of_nat :: nat \<Rightarrow> 32 word"])
qed

lemma fastMin_small:
  assumes "(a::32 word) < 3" "(r::32 word) \<le> 4"
  shows "fastMin (a + 1 + r) 8 = a + 1 + r"
  using small_word_cases3 [OF assms(1)] small_word_cases5 [OF assms(2)]
  by (auto simp: fastMin_def)

lemma drop_bit_lt3:
  assumes "drop_bit r (s::32 word) < 3" "r \<le> 4"
  shows "s \<le> push_bit r 3 - 1"
proof -
  have "unat (drop_bit r s) < unat (3::32 word)"
    using assms(1) unfolding word_less_nat_alt .
  then have "drop_bit r (unat s) < 3"
    unfolding unat_drop_bit_eq by simp
  then have "unat s div 2 ^ r < 3"
    by (simp add: drop_bit_eq_div)
  then have a: "unat s < 3 * 2 ^ r"
    by (simp add: div_less_iff_less_mult)
  have "r = 0 \<or> r = 1 \<or> r = 2 \<or> r = 3 \<or> r = 4" using assms(2) by arith
  then show ?thesis using a by (auto simp: word_le_nat_alt)
qed

section \<open>Cost of the last significant position\<close>

lemma mask_small:
  assumes "(p::32 word) < 32"
  shows "signed_drop_bit 31 (2 - p) = (if 3 \<le> p then - 1 else 0)"
proof -
  have u: "uint p < 32" using assms by (simp add: word_less_def)
  have "0 \<le> uint p" by simp
  then have "signed_take_bit 31 (uint p) = uint p"
    using u by (intro stb31) linarith+
  then have s: "sint p = uint p"
    by (simp add: sint_uint)
  have "signed_take_bit 31 (2 - uint p) = 2 - uint p"
    using u \<open>0 \<le> uint p\<close> by (intro stb31) linarith+
  then have "sint (2 - p) = 2 - uint p" using s
    by (simp add: sint_word_diff)
  moreover have "3 \<le> p \<longleftrightarrow> 3 \<le> uint p" by (simp add: word_le_def)
  ultimately show ?thesis by (auto simp: sdb31)
qed

text \<open>
  Claim C8.  For positions \<open>posx, posy\<close> below 32 (the largest transform block) and a group
  index function that maps position 2 to group 2, \<open>getRateLast\<close> returns
  \<open>xBits[groupIdx posx] + yBits[groupIdx posy]\<close> plus, for each coordinate with
  \<open>pos \<ge> 2\<close>, \<open>IEP_RATE * ((groupIdx pos - 2) >> 1)\<close>.
\<close>

theorem getRateLast_groups:
  assumes "posx < 32" and "posy < 32" and "getGroupIdx 2 = 2"
  shows "getRateLast getGroupIdx xBits yBits posx posy
       = xBits ! unat (getGroupIdx posx) + yBits ! unat (getGroupIdx posy)
         + (if 2 \<le> posx then IEP_RATE * drop_bit 1 (getGroupIdx posx - 2) else 0)
         + (if 2 \<le> posy then IEP_RATE * drop_bit 1 (getGroupIdx posy - 2) else 0)"
proof -
  have x: "(signed_drop_bit 31 (2 - posx) AND (IEP_RATE * drop_bit 1 (getGroupIdx posx - 2)))
         = (if 2 \<le> posx then IEP_RATE * drop_bit 1 (getGroupIdx posx - 2) else 0)"
  proof (cases "posx = 2")
    case True
    then show ?thesis using assms(3) by (simp add: mask_small)
  next
    case False
    then have "2 \<le> posx \<longleftrightarrow> 3 \<le> posx"
      by (auto simp: word_le_nat_alt word_eq_iff_unsigned [where ?'a = nat])
    then show ?thesis using assms(1) by (simp add: mask_small)
  qed
  have y: "(signed_drop_bit 31 (2 - posy) AND (IEP_RATE * drop_bit 1 (getGroupIdx posy - 2)))
         = (if 2 \<le> posy then IEP_RATE * drop_bit 1 (getGroupIdx posy - 2) else 0)"
  proof (cases "posy = 2")
    case True
    then show ?thesis using assms(3) by (simp add: mask_small)
  next
    case False
    then have "2 \<le> posy \<longleftrightarrow> 3 \<le> posy"
      by (auto simp: word_le_nat_alt word_eq_iff_unsigned [where ?'a = nat])
    then show ?thesis using assms(2) by (simp add: mask_small)
  qed
  show ?thesis unfolding getRateLast_def Let_def x y by simp
qed

theorem getRateLast_groups_witness:
  "(5::32 word) < 32 \<and> (2::32 word) < 32
   \<and> (\<lambda>p :: 32 word. [0, 1, 2, 3, 4, 4, 5, 5 :: 32 word] ! unat p) 2 = 2
   \<and> getRateLast (\<lambda>p. [0, 1, 2, 3, 4, 4, 5, 5 :: 32 word] ! unat p)
        [10, 20, 30, 40, 50, 60] [1, 2, 3, 4, 5, 6] 5 2 = 50 + 3 + IEP_RATE"
  using getRateLast_groups [of 5 2 "\<lambda>p. [0, 1, 2, 3, 4, 4, 5, 5 :: 32 word] ! unat p"
      "[10, 20, 30, 40, 50, 60]" "[1, 2, 3, 4, 5, 6]"]
  by simp

section \<open>The two coefficient rate functions compared\<close>

lemma bsr_mono: "m \<le> n \<Longrightarrow> bsr m \<le> bsr n"
proof (induction n arbitrary: m rule: bsr.induct)
  case (1 n)
  show ?case
  proof (cases "n < 2")
    case True
    then have "m < 2" using 1(2) by simp
    then show ?thesis using True by (simp add: bsr.simps)
  next
    case False
    show ?thesis
    proof (cases "m < 2")
      case True
      then show ?thesis by (simp add: bsr.simps [of m])
    next
      case m: False
      have "m div 2 \<le> n div 2" using 1(2) by (rule div_le_mono)
      then have "bsr (m div 2) \<le> bsr (n div 2)" using 1(1) [OF False] by simp
      then show ?thesis using False m by (simp add: bsr.simps [of m] bsr.simps [of n])
    qed
  qed
qed

lemma bsr_less: "n < 2 ^ Suc k \<Longrightarrow> bsr n \<le> k"
proof (induction k arbitrary: n)
  case 0
  then show ?case by (simp add: bsr.simps)
next
  case (Suc k)
  have "n div 2 < 2 ^ Suc k" using Suc.prems by simp
  then have "bsr (n div 2) \<le> k" by (rule Suc.IH)
  then show ?case by (simp add: bsr.simps [of n])
qed

lemma bsr_vals:
  "bsr 0 = 0" "bsr (Suc 0) = 0" "bsr 1 = 0" "bsr 2 = 1" "bsr 3 = 1" "bsr 4 = 2" "bsr 5 = 2" "bsr 6 = 2" "bsr 7 = 2"
  "bsr 8 = 3" "bsr 9 = 3"
  by (simp_all add: bsr.simps)

text \<open>The agreement of the two bin counts, Rice parameter by Rice parameter.\<close>

lemma bins_r0: "cost_bins 0 n = rate_bins 0 n \<longleftrightarrow> n \<le> 3 \<or> n = 5 \<or> n = 7"
proof (cases "7 < n")
  case True
  then show ?thesis by (simp add: cost_bins_def rate_bins_def Let_def) presburger
next
  case False
  then have "n = 0 \<or> n = 1 \<or> n = 2 \<or> n = 3 \<or> n = 4 \<or> n = 5 \<or> n = 6 \<or> n = 7" by arith
  then show ?thesis by (auto simp: cost_bins_def rate_bins_def Let_def bsr_vals)
qed


lemma bins_r1:
  "cost_bins 1 n = rate_bins 1 n \<longleftrightarrow> n div 2 \<le> 3 \<or> n div 2 = 5 \<or> n = 15"
proof (cases "14 < n")
  case True
  show ?thesis
  proof (cases "24 \<le> n")
    case True
    then have "bsr (n div 2 - 2) \<le> bsr (n - 14)" by (intro bsr_mono) arith
    then show ?thesis using True by (simp add: cost_bins_def rate_bins_def Let_def) arith
  next
    case False
    then have "n = 15 \<or> n = 16 \<or> n = 17 \<or> n = 18 \<or> n = 19 \<or> n = 20 \<or> n = 21 \<or> n = 22 \<or> n = 23"
      using \<open>14 < n\<close> by arith
    then show ?thesis by (auto simp: cost_bins_def rate_bins_def Let_def bsr_vals)
  qed
next
  case False
  define p where "p = n div 2"
  have "p \<le> 7" using False by (simp add: p_def)
  then have "p = 0 \<or> p = 1 \<or> p = 2 \<or> p = 3 \<or> p = 4 \<or> p = 5 \<or> p = 6 \<or> p = 7" by arith
  then show ?thesis using False
    unfolding cost_bins_def rate_bins_def Let_def power_one_right p_def [symmetric]
    by (auto simp: bsr_vals)
qed

lemma bins_r2: "cost_bins 2 n = rate_bins 2 n \<longleftrightarrow> n div 4 \<le> 3 \<or> n div 4 = 5"
proof (cases "26 < n")
  case True
  then show ?thesis by (simp add: cost_bins_def rate_bins_def Let_def) presburger
next
  case False
  define p where "p = n div 4"
  have "p \<le> 6" using False by (simp add: p_def)
  then have "p = 0 \<or> p = 1 \<or> p = 2 \<or> p = 3 \<or> p = 4 \<or> p = 5 \<or> p = 6" by arith
  moreover have "(2::nat) ^ 2 = 4" by simp
  ultimately show ?thesis using False
    unfolding cost_bins_def rate_bins_def Let_def \<open>(2::nat) ^ 2 = 4\<close> p_def [symmetric]
    by (auto simp: bsr_vals)
qed

lemma bins_r3:
  "cost_bins 3 n = rate_bins 3 n \<longleftrightarrow> n div 8 \<le> 3 \<or> (47 \<le> n \<and> n \<le> 49)"
proof (cases "46 < n")
  case True
  show ?thesis
  proof (cases "50 \<le> n")
    case True
    then have "bsr (n div 8 - 2) \<le> bsr (n - 46)" by (intro bsr_mono) arith
    then show ?thesis using True by (simp add: cost_bins_def rate_bins_def Let_def) arith
  next
    case False
    then have "n = 47 \<or> n = 48 \<or> n = 49" using \<open>46 < n\<close> by arith
    then show ?thesis by (auto simp: cost_bins_def rate_bins_def Let_def bsr_vals)
  qed
next
  case False
  define p where "p = n div 8"
  have "p \<le> 5" using False by (simp add: p_def)
  then have "p = 0 \<or> p = 1 \<or> p = 2 \<or> p = 3 \<or> p = 4 \<or> p = 5" by arith
  moreover have "(2::nat) ^ 3 = 8" by simp
  ultimately show ?thesis using False
    unfolding cost_bins_def rate_bins_def Let_def \<open>(2::nat) ^ 3 = 8\<close> p_def [symmetric]
    by (auto simp: bsr_vals)
qed

lemma bins_r4: "cost_bins 4 n = rate_bins 4 n \<longleftrightarrow> n div 16 \<le> 3"
proof (cases "78 < n")
  case True
  then show ?thesis by (simp add: cost_bins_def rate_bins_def Let_def) presburger
next
  case False
  define p where "p = n div 16"
  have "p \<le> 4" using False by (simp add: p_def)
  then have "p = 0 \<or> p = 1 \<or> p = 2 \<or> p = 3 \<or> p = 4" by arith
  moreover have "(2::nat) ^ 4 = 16" by simp
  ultimately show ?thesis using False
    unfolding cost_bins_def rate_bins_def Let_def \<open>(2::nat) ^ 4 = 16\<close> p_def [symmetric]
    by (auto simp: bsr_vals)
qed

lemma bins_bound:
  assumes "n < 2 ^ 32" "r \<le> 4"
  shows "cost_bins r n < 128" "rate_bins r n < 128"
proof -
  have a: "\<And>m. m \<le> n \<Longrightarrow> bsr m \<le> 31"
  proof -
    fix m assume "m \<le> n"
    then have "m < 2 ^ Suc 31" using assms(1) by simp
    then show "bsr m \<le> 31" by (rule bsr_less)
  qed
  have "bsr (n div 2 ^ r - 2) \<le> 31"
    by (rule a) (meson diff_le_self div_le_dividend le_trans)
  moreover have "n div 2 ^ r < 3 \<Longrightarrow> n div 2 ^ r + 1 + r < 128" using assms(2) by simp
  ultimately show "cost_bins r n < 128" using assms(2) by (auto simp: cost_bins_def Let_def)
  have "bsr (n - [7, 14, 26, 46, 78] ! r) \<le> 31" by (rule a) simp
  then show "rate_bins r n < 128" by (auto simp: rate_bins_def Let_def)
qed

lemma nonneg_unat:
  assumes "\<not> (d::32 word) <s 0"
  shows "unat d < 2147483648"
proof (rule ccontr)
  assume a: "\<not> unat d < 2147483648"
  have u: "uint d = int (unat d)" by (rule uint_nat)
  have "2147483648 \<le> uint d" using a u by linarith
  then have g: "2 ^ 31 \<le> uint d" by simp
  have "uint d < 4294967296" using uint_lt2p [of d] by simp
  moreover have "signed_take_bit 31 (uint d) \<le> uint d - 2 ^ Suc 31"
    using g by (rule signed_take_bit_int_less_eq)
  moreover have "(2::int) ^ Suc 31 = 4294967296" by simp
  ultimately have "signed_take_bit 31 (uint d) < 0" by linarith
  then have "sint d < 0" unfolding sint_uint by simp
  then show False using assms by (simp add: word_sless_alt)
qed

lemma unat_nonneg:
  assumes "unat (x::32 word) < 2147483648"
  shows "\<not> sint x < 0"
proof -
  have u: "uint x = int (unat x)" by (rule uint_nat)
  have "uint x < 2147483648" using assms u by linarith
  moreover have "0 \<le> uint x" by simp
  ultimately have "signed_take_bit 31 (uint x) = uint x" by (intro stb31) linarith+
  then have "sint x = uint x" unfolding sint_uint by simp
  then show ?thesis by simp
qed

lemma fastMin8:
  assumes "unat x < 2147483648"
  shows "fastMin x 8 = (if unat x < 8 then x else 8)"
proof (cases "unat x < 8")
  case True
  have le: "x \<le> 8" using True by (simp add: word_le_nat_alt)
  have e: "unat (8 - x) = 8 - unat x" using le by (simp add: unat_sub)
  have "x - 8 = - (8 - x)" by simp
  have n0: "8 - x \<noteq> 0" using True by (metis e zero_less_diff unat_gt_0 not_less_iff_gr_or_eq unat_0 diff_is_0_eq' nat_less_le)
  have "unat (8 - x) < 2147483648" using e by simp
  then have nn: "\<not> sint (8 - x) < 0" by (rule unat_nonneg)
  have "sint (8 - x) \<noteq> - 2147483648" using nn by simp
  then have "sint (- (8 - x)) = - sint (8 - x)" by (rule sint_neg32)
  moreover have "sint (8 - x) \<noteq> 0" using n0 by (simp add: signed_eq_0_iff)
  ultimately have "sint (x - 8) < 0" using nn by simp
  then have "signed_drop_bit 31 (x - 8) = - 1" by (simp add: sdb31)
  then show ?thesis using True by (simp add: fastMin_def)
next
  case False
  then have le: "(8::32 word) \<le> x" by (simp add: word_le_nat_alt)
  have "unat (x - 8) = unat x - 8" using le by (simp add: unat_sub)
  then have "unat (x - 8) < 2147483648" using assms by simp
  then have "\<not> sint (x - 8) < 0" by (rule unat_nonneg)
  then have "signed_drop_bit 31 (x - 8) = 0" by (simp add: sdb31)
  then show ?thesis using False by (simp add: fastMin_def)
qed


lemma of_nat_unat32: "of_nat (unat (w::32 word)) = w"
  by simp

lemma unat_drop_bit32: "unat (drop_bit k (d::32 word)) = unat d div 2 ^ k"
  unfolding unat_drop_bit_eq by (rule drop_bit_eq_div)

text \<open>The rate of \<open>getICRateCost\<close> in bins, for a \<open>diffLevel\<close> that is not negative.\<close>

lemma getICRateCost_bins:
  assumes nn: "\<not> diffLevel <s 0" and r: "absGoRice \<le> 4"
  shows "getICRateCost absLevel diffLevel gOneBits lAbsBits absGoRice c1c2Idx
     = (let rate = IEP_RATE + push_bit 15 (of_nat (cost_bins (unat absGoRice) (unat diffLevel)));
            rate = (if c1c2Idx AND 1 \<noteq> 0 then rate + gOneBits ! 1 else rate)
        in if c1c2Idx = 3 then rate + lAbsBits ! 1 else rate)"
proof -
  define R where "R = unat absGoRice"
  define p where "p = unat diffLevel div 2 ^ R"
  define w where "w = drop_bit R diffLevel"
  have up: "unat w = p" by (simp add: w_def p_def unat_drop_bit32)
  have wp: "w = of_nat p" unfolding up [symmetric] by simp
  have rR: "absGoRice = of_nat R" by (simp add: R_def)
  have lt: "w < 3 \<longleftrightarrow> p < 3" by (simp add: word_less_nat_alt up)
  have body: "(if w < 3 then IEP_RATE + push_bit 15 (w + 1 + absGoRice)
              else IEP_RATE + push_bit 15
                     (3 + (if w - 3 \<noteq> 0 then CLZ32 (w - 3 + 1) else 0) + absGoRice + 1
                        + (if w - 3 \<noteq> 0 then CLZ32 (w - 3 + 1) else 0)))
            = IEP_RATE + push_bit 15 (of_nat (cost_bins R (unat diffLevel)))"
  proof (cases "p < 3")
    case True
    have e: "w + 1 + absGoRice = of_nat (p + 1 + R)" by (simp add: wp rR)
    show ?thesis unfolding cost_bins_def Let_def p_def [symmetric]
      by (simp only: lt True if_True e)
  next
    case False
    then have le: "(3::32 word) \<le> w" using lt by simp
    have u2: "unat (w - 2) = p - 2"
    proof -
      have "(2::32 word) \<le> w" using le by (simp add: word_le_nat_alt)
      then show ?thesis by (simp add: unat_sub up)
    qed
    have w31: "w - 3 + 1 = w - 2" by simp
    have len: "(if w - 3 \<noteq> 0 then CLZ32 (w - 3 + 1) else 0) = of_nat (bsr (p - 2))"
    proof (cases "w - 3 = 0")
      case True
      then have "w = 3" by simp
      then have "p = 3" using up by simp
      then show ?thesis using True by (simp add: bsr.simps)
    next
      case False
      then show ?thesis by (simp add: CLZ32_def w31 u2)
    qed
    have e: "3 + of_nat (bsr (p - 2)) + absGoRice + 1 + of_nat (bsr (p - 2))
        = (of_nat (4 + R + 2 * bsr (p - 2)) :: 32 word)"
      by (simp add: rR)
    show ?thesis unfolding cost_bins_def Let_def p_def [symmetric] len
      by (simp only: lt False if_False e)
  qed
  show ?thesis
    unfolding getICRateCost_def Let_def COEF_REMAIN_BIN_REDUCTION_def
    by (simp only: nn if_False body [unfolded w_def R_def])
qed


lemma unat_small: "k < 4294967296 \<Longrightarrow> unat (of_nat k :: 32 word) = k"
  by (simp add: unat_of_nat)

text \<open>
  The part of \<open>getICRate\<close> that depends on the Rice range \<open>G\<close>, for a range with
  \<open>((G + 1) >> r) + 1 + r\<close> at least 8.
\<close>

lemma getICRate_body:
  fixes d r G :: "32 word"
  assumes R: "unat r = R" and G: "unat G = Gn" and b: "R \<le> 4" "Gn < 100"
    and pre: "8 \<le> (Gn + 1) div 2 ^ R + 1 + R"
  shows "(if G < d then push_bit 15 (CLZ32 (d - G) * 2 + 1) else 0)
         + push_bit 15 (fastMin (drop_bit R (if G < d then G + 1 else d) + 1 + r) 8)
       = push_bit 15 (of_nat (if Gn < unat d then 2 * bsr (unat d - Gn) + 9
                              else min (unat d div 2 ^ R + 1 + R) 8))"
proof -
  have rR: "r = of_nat R" unfolding R [symmetric] by simp
  have GG: "G = of_nat Gn" unfolding G [symmetric] by simp
  have lt: "G < d \<longleftrightarrow> Gn < unat d" by (simp add: word_less_nat_alt G)
  show ?thesis
  proof (cases "Gn < unat d")
    case True
    then have Gd: "G < d" using lt by simp
    then have "G \<le> d" by simp
    then have ud: "unat (d - G) = unat d - Gn" by (simp add: unat_sub G)
    define k where "k = (Gn + 1) div 2 ^ R + 1 + R"
    have k: "8 \<le> k" "k < 200"
    proof -
      show "8 \<le> k" using pre by (simp add: k_def)
      have "(Gn + 1) div 2 ^ R \<le> Gn + 1" by (rule div_le_dividend)
      then show "k < 200" using b unfolding k_def by linarith
    qed
    have g1: "unat (G + 1) = Gn + 1"
    proof -
      have "G + 1 = of_nat (Gn + 1)" by (simp add: GG)
      then show ?thesis using b(2) by (simp only: unat_small)
    qed
    have "drop_bit R (G + 1) = of_nat (unat (drop_bit R (G + 1)))" by simp
    also have "\<dots> = of_nat ((Gn + 1) div 2 ^ R)" by (simp only: unat_drop_bit32 g1)
    finally have "drop_bit R (G + 1) + 1 + r = of_nat k" by (simp add: rR k_def)
    moreover have "unat (of_nat k :: 32 word) = k" using k(2) by (intro unat_small) simp
    ultimately have x: "unat (drop_bit R (G + 1) + 1 + r) = k" by simp
    have lt31: "unat (drop_bit R (G + 1) + 1 + r) < 2147483648" unfolding x using k(2) by simp
    have fm: "fastMin (drop_bit R (G + 1) + 1 + r) 8 = 8"
      using fastMin8 [OF lt31] k(1) x by simp
    have e: "push_bit 15 (CLZ32 (d - G) * 2 + 1) + push_bit 15 (8 :: 32 word)
        = push_bit 15 (of_nat (2 * bsr (unat d - Gn) + 9))"
      by (simp add: CLZ32_def ud push_bit_eq_mult algebra_simps)
    show ?thesis by (simp only: Gd True if_True fm e)
  next
    case False
    then have nGd: "\<not> G < d" using lt by simp
    define k where "k = unat d div 2 ^ R + 1 + R"
    have "unat d div 2 ^ R \<le> unat d" by (rule div_le_dividend)
    then have k: "k < 200" using False b unfolding k_def by linarith
    have "drop_bit R d = of_nat (unat (drop_bit R d))" by simp
    also have "\<dots> = of_nat (unat d div 2 ^ R)" by (simp only: unat_drop_bit32)
    finally have xk: "drop_bit R d + 1 + r = of_nat k" by (simp add: rR k_def)
    have uk: "unat (of_nat k :: 32 word) = k" using k by (intro unat_small) simp
    have lt31: "unat (of_nat k :: 32 word) < 2147483648" unfolding uk using k by simp
    have fm: "fastMin (of_nat k) 8 = (of_nat (min k 8) :: 32 word)"
      using fastMin8 [OF lt31] uk by (simp add: min_def)
    show ?thesis
      by (simp only: nGd False if_False xk fm add_0) (simp only: k_def)
  qed
qed

text \<open>The rate of \<open>getICRate\<close> in bins, with the Rice ranges 7, 14, 26, 46, 78.\<close>

lemma getICRate_bins:
  assumes z: "absLevel \<noteq> 0" and nn: "\<not> diffLevel <s 0" and r: "absGoRice \<le> 4"
  shows "getICRate [7, 14, 26, 46, 78] absLevel diffLevel gOneBits lAbsBits absGoRice c1c2Idx
     = (let rate = push_bit 15 (of_nat (rate_bins (unat absGoRice) (unat diffLevel)));
            rate = (if c1c2Idx AND 1 \<noteq> 0 then rate + gOneBits ! 1 else rate)
        in if c1c2Idx = 3 then rate + lAbsBits ! 1 else rate)"
proof -
  define R where "R = unat absGoRice"
  define G :: "32 word" where "G = [7, 14, 26, 46, 78] ! R"
  define Gn :: nat where "Gn = [7, 14, 26, 46, 78] ! R"
  have R4: "R \<le> 4" using r by (simp add: R_def word_le_nat_alt)
  then have c: "R = 0 \<or> R = 1 \<or> R = 2 \<or> R = 3 \<or> R = 4" by arith
  have G: "unat G = Gn" using c by (auto simp: G_def Gn_def)
  have Gb: "Gn < 100" using c by (auto simp: Gn_def)
  have pre: "8 \<le> (Gn + 1) div 2 ^ R + 1 + R" using c by (auto simp: Gn_def)
  have uR: "unat absGoRice = R" by (simp add: R_def)
  note body = getICRate_body [OF uR G R4 Gb pre, of diffLevel]
  have rb: "(if Gn < unat diffLevel then 2 * bsr (unat diffLevel - Gn) + 9
            else min (unat diffLevel div 2 ^ R + 1 + R) 8) = rate_bins R (unat diffLevel)"
    by (simp add: rate_bins_def Let_def Gn_def)
  show ?thesis
    unfolding getICRate_def Let_def R_def [symmetric] G_def [symmetric]
    by (simp only: z nn if_False body rb)
qed

lemma push_bins_eq:
  assumes "a < 128" "b < 128"
  shows "push_bit 15 (of_nat a :: 32 word) = push_bit 15 (of_nat b) \<longleftrightarrow> a = b"
proof
  assume e: "push_bit 15 (of_nat a :: 32 word) = push_bit 15 (of_nat b)"
  have p: "\<And>k. push_bit 15 (of_nat k :: 32 word) = of_nat (k * 32768)"
    unfolding push_bit_eq_mult by simp
  have ua: "unat (of_nat (a * 32768) :: 32 word) = a * 32768"
    using assms(1) by (intro unat_small) linarith
  have ub: "unat (of_nat (b * 32768) :: 32 word) = b * 32768"
    using assms(2) by (intro unat_small) linarith
  have "(of_nat (a * 32768) :: 32 word) = of_nat (b * 32768)" using e by (simp only: p)
  then have "unat (of_nat (a * 32768) :: 32 word) = unat (of_nat (b * 32768) :: 32 word)"
    by (rule arg_cong)
  then have "a * 32768 = b * 32768" by (simp only: ua ub)
  then show "a = b" by simp
next
  assume "a = b"
  then show "push_bit 15 (of_nat a :: 32 word) = push_bit 15 (of_nat b)" by (simp only:)
qed

lemma bins_agree:
  assumes "R \<le> 4"
  shows "cost_bins R n = rate_bins R n \<longleftrightarrow>
     n div 2 ^ R \<le> 3 \<or> (n div 2 ^ R = 5 \<and> R \<le> 2) \<or> (R = 0 \<and> n = 7) \<or> (R = 1 \<and> n = 15)
     \<or> (R = 3 \<and> 47 \<le> n \<and> n \<le> 49)"
proof -
  consider "R = 0" | "R = 1" | "R = 2" | "R = 3" | "R = 4" using assms by arith
  then show ?thesis
  proof cases
    case 1
    then show ?thesis by (simp add: bins_r0)
  next
    case 2
    then show ?thesis using bins_r1 [of n] by simp
  next
    case 3
    then show ?thesis by (simp add: bins_r2)
  next
    case 4
    then show ?thesis by (simp add: bins_r3)
  next
    case 5
    then show ?thesis by (simp add: bins_r4)
  qed
qed

text \<open>
  Claim C7, as the code has it.  For a nonzero \<open>absLevel\<close>, a Rice parameter in \<open>0..4\<close> and the
  Rice ranges \<open>7, 14, 26, 46, 78\<close>, \<open>getICRateCost\<close> equals \<open>getICRate\<close> plus \<open>IEP_RATE\<close> exactly
  when \<open>diffLevel\<close> is negative, or the prefix \<open>diffLevel >> goRice\<close> is at most 3, or the prefix
  is 5 and the Rice parameter at most 2, or the Rice parameter and \<open>diffLevel\<close> are 0 and 7, 1
  and 15, or 3 and one of 47, 48, 49.  For every other \<open>diffLevel\<close> the two functions charge
  different numbers of bins.
\<close>

theorem getICRateCost_agrees_iff:
  assumes "absLevel \<noteq> 0" and "absGoRice \<le> 4"
  shows "getICRateCost absLevel diffLevel gOneBits lAbsBits absGoRice c1c2Idx
           = getICRate [7, 14, 26, 46, 78] absLevel diffLevel gOneBits lAbsBits absGoRice c1c2Idx
             + IEP_RATE
     \<longleftrightarrow> diffLevel <s 0
         \<or> drop_bit (unat absGoRice) diffLevel \<le> 3
         \<or> (drop_bit (unat absGoRice) diffLevel = 5 \<and> absGoRice \<le> 2)
         \<or> (absGoRice = 0 \<and> diffLevel = 7)
         \<or> (absGoRice = 1 \<and> diffLevel = 15)
         \<or> (absGoRice = 3 \<and> 47 \<le> diffLevel \<and> diffLevel \<le> 49)"
proof (cases "diffLevel <s 0")
  case True
  then show ?thesis using assms(1) by (simp add: getICRateCost_def getICRate_def)
next
  case False
  define R where "R = unat absGoRice"
  define n where "n = unat diffLevel"
  have R4: "R \<le> 4" using assms(2) by (simp add: R_def word_le_nat_alt)
  have n32: "n < 2 ^ 32" using nonneg_unat [OF False] by (simp add: n_def)
  note bb = bins_bound [OF n32 R4]
  define A :: "32 word" where "A = push_bit 15 (of_nat (cost_bins R n))"
  define B :: "32 word" where "B = push_bit 15 (of_nat (rate_bins R n))"
  have AB: "A = B \<longleftrightarrow> cost_bins R n = rate_bins R n"
    unfolding A_def B_def by (rule push_bins_eq [OF bb])
  have lhs: "getICRateCost absLevel diffLevel gOneBits lAbsBits absGoRice c1c2Idx
           = getICRate [7, 14, 26, 46, 78] absLevel diffLevel gOneBits lAbsBits absGoRice c1c2Idx
             + IEP_RATE \<longleftrightarrow> A = B"
    unfolding getICRateCost_bins [OF False assms(2)] getICRate_bins [OF assms(1) False assms(2)]
      Let_def R_def [symmetric] n_def [symmetric] A_def [symmetric] B_def [symmetric]
    by (simp add: ac_simps)
  have up: "unat (drop_bit R diffLevel) = n div 2 ^ R" by (simp only: unat_drop_bit32 n_def)
  have c1: "drop_bit R diffLevel \<le> 3 \<longleftrightarrow> n div 2 ^ R \<le> 3"
    by (simp add: word_le_nat_alt up)
  have c2: "drop_bit R diffLevel = 5 \<longleftrightarrow> n div 2 ^ R = 5"
    by (simp add: word_unat_eq_iff up)
  have c3: "absGoRice \<le> 2 \<longleftrightarrow> R \<le> 2" by (simp add: word_le_nat_alt R_def)
  have c4: "absGoRice = 0 \<longleftrightarrow> R = 0" "absGoRice = 1 \<longleftrightarrow> R = 1" "absGoRice = 3 \<longleftrightarrow> R = 3"
    by (simp_all add: word_unat_eq_iff R_def)
  have c5: "diffLevel = 7 \<longleftrightarrow> n = 7" "diffLevel = 15 \<longleftrightarrow> n = 15"
    by (simp_all add: word_unat_eq_iff n_def)
  have c6: "47 \<le> diffLevel \<longleftrightarrow> 47 \<le> n" "diffLevel \<le> 49 \<longleftrightarrow> n \<le> 49"
    by (simp_all add: word_le_nat_alt n_def)
  show ?thesis
    unfolding lhs AB bins_agree [OF R4] R_def [symmetric] c1 c2 c3 c4 c5 c6
    using False by simp
qed

theorem getICRateCost_agrees_iff_witness:
  "getICRateCost 8 7 [100, 200] [300, 400] 0 3
     = getICRate [7, 14, 26, 46, 78] 8 7 [100, 200] [300, 400] 0 3 + IEP_RATE
   \<and> getICRateCost 7 6 [100, 200] [300, 400] 0 3
     \<noteq> getICRate [7, 14, 26, 46, 78] 7 6 [100, 200] [300, 400] 0 3 + IEP_RATE"
proof -
  have a: "(8::32 word) \<noteq> 0" "(7::32 word) \<noteq> 0" "(0::32 word) \<le> 4" by simp_all
  have "getICRateCost 8 7 [100, 200] [300, 400] 0 3
     = getICRate [7, 14, 26, 46, 78] 8 7 [100, 200] [300, 400] 0 3 + IEP_RATE"
    unfolding getICRateCost_agrees_iff [OF a(1,3)] by simp
  moreover have "getICRateCost 7 6 [100, 200] [300, 400] 0 3
     \<noteq> getICRate [7, 14, 26, 46, 78] 7 6 [100, 200] [300, 400] 0 3 + IEP_RATE"
    unfolding getICRateCost_agrees_iff [OF a(2,3)] by (simp add: word_sless_alt)
  ultimately show ?thesis by simp
qed

text \<open>
  Claim C7 as stated fails for the level 5 coded with base level 1 (\<open>diffLevel = 4\<close>), Rice
  parameter 0 and all bit estimates 0: \<open>getICRate\<close> charges 5 bins (a unary prefix up to the
  Rice range 7), \<open>getICRateCost\<close> charges the sign bin and 6 bins (prefix 3, then an
  exponential-Golomb escape).
\<close>

theorem getICRateCost_counterexample:
  "getICRateCost 5 4 [0, 0] [0, 0] 0 0
     \<noteq> getICRate [7, 14, 26, 46, 78] 5 4 [0, 0] [0, 0] 0 0 + IEP_RATE"
  by (simp add: getICRateCost_def getICRate_def fastMin_def CLZ32_def bsr.simps IEP_RATE_def
      COEF_REMAIN_BIN_REDUCTION_def word_sless_alt)

section \<open>The sign-bit-hiding passes\<close>

subsection \<open>The last and the first nonzero coefficient of a group\<close>

lemma lastNZPos_range: "- 1 \<le> lastNZPos q scn sp k \<and> lastNZPos q scn sp k < int k"
  by (induction k) auto

lemma lastNZPos_neg: "lastNZPos q scn sp k < 0 \<longleftrightarrow> (\<forall>n<k. q ! (scn ! (n + sp)) = 0)"
  by (induction k) (auto simp: less_Suc_eq)

lemma lastNZPos_nonzero:
  "0 \<le> lastNZPos q scn sp k \<Longrightarrow> q ! (scn ! (nat (lastNZPos q scn sp k) + sp)) \<noteq> 0"
  by (induction k) (auto split: if_splits)

lemma lastNZPos_zero_after:
  "lastNZPos q scn sp k < int n \<Longrightarrow> n < k \<Longrightarrow> q ! (scn ! (n + sp)) = 0"
  by (induction k) (auto simp: less_Suc_eq split: if_splits)

lemma lastNZPos_eqI:
  assumes "l < k" "q ! (scn ! (l + sp)) \<noteq> 0" "\<And>n. l < n \<Longrightarrow> n < k \<Longrightarrow> q ! (scn ! (n + sp)) = 0"
  shows "lastNZPos q scn sp k = int l"
  using assms
proof (induction k)
  case 0
  then show ?case by simp
next
  case (Suc k)
  show ?case
  proof (cases "l = k")
    case True
    then show ?thesis using Suc.prems by simp
  next
    case False
    then have "l < k" using Suc.prems by simp
    moreover have "q ! (scn ! (k + sp)) = 0" using Suc.prems(3) [of k] \<open>l < k\<close> by simp
    ultimately show ?thesis using Suc by simp
  qed
qed

lemma firstNZPos_props:
  assumes "n \<le> b" "q ! (scn ! (b + sp)) \<noteq> 0"
  shows "firstNZPos q scn sp b n \<le> b
       \<and> n \<le> firstNZPos q scn sp b n
       \<and> q ! (scn ! (firstNZPos q scn sp b n + sp)) \<noteq> 0
       \<and> (\<forall>m. n \<le> m \<and> m < firstNZPos q scn sp b n \<longrightarrow> q ! (scn ! (m + sp)) = 0)"
  using assms
proof (induction q scn sp b n rule: firstNZPos.induct)
  case (1 q scn sp b n)
  show ?case
  proof (cases "q ! (scn ! (n + sp)) \<noteq> 0 \<or> b \<le> n")
    case True
    then have "firstNZPos q scn sp b n = n" by (subst firstNZPos.simps) simp
    then show ?thesis using True "1.prems" by auto
  next
    case False
    then have e: "firstNZPos q scn sp b n = firstNZPos q scn sp b (Suc n)"
      by (subst firstNZPos.simps) simp
    have "Suc n \<le> b" using False by simp
    from "1.IH" [OF False this "1.prems"(2)] show ?thesis
      using False unfolding e by (auto simp: le_Suc_eq less_Suc_eq_le dest: le_neq_implies_less)
  qed
qed

lemma firstNZPos_eqI:
  assumes "f \<le> b" "q ! (scn ! (b + sp)) \<noteq> 0" "q ! (scn ! (f + sp)) \<noteq> 0"
    "\<And>m. m < f \<Longrightarrow> q ! (scn ! (m + sp)) = 0"
  shows "firstNZPos q scn sp b 0 = f"
proof -
  let ?g = "firstNZPos q scn sp b 0"
  have p: "?g \<le> b" "q ! (scn ! (?g + sp)) \<noteq> 0" "\<forall>m. m < ?g \<longrightarrow> q ! (scn ! (m + sp)) = 0"
    using firstNZPos_props [of 0 b q scn sp] assms(2) by auto
  have "\<not> ?g < f" using assms(4) p(2) by blast
  moreover have "\<not> f < ?g" using p(3) assms(3) by blast
  ultimately show ?thesis by simp
qed

subsection \<open>The search loop of the plain quantiser\<close>

lemma sbh_inv_init: "sbh_inv mx q coef scn sp f sb bound (sbh_init mx)"
  by (simp add: sbh_inv_def sbh_init_def)

lemma sbh_inv_cong:
  "minCostInc s' = minCostInc s \<Longrightarrow> minPos s' = minPos s \<Longrightarrow> finalChange s' = finalChange s
   \<Longrightarrow> sbh_inv mx q coef scn sp f sb bound s' = sbh_inv mx q coef scn sp f sb bound s"
  by (simp add: sbh_inv_def sbh_selected_def)

lemma hdq_step_inv:
  assumes "sbh_inv MAX_INT q coef scn sp f sb bound s" "n < bound"
  shows "sbh_inv MAX_INT q coef scn sp f sb bound
           (sbh_take_min (scn ! (n + sp)) (hdq_cost q coef deltaU f sb n (scn ! (n + sp)) s))"
proof -
  let ?b = "scn ! (n + sp)"
  let ?s = "hdq_cost q coef deltaU f sb n ?b s"
  have keep: "minCostInc ?s = minCostInc s" "minPos ?s = minPos s" "finalChange ?s = finalChange s"
    by (simp_all add: hdq_cost_def Let_def)
  show ?thesis
  proof (cases "curCost ?s < minCostInc ?s")
    case False
    then have "sbh_take_min ?b ?s = ?s" by (simp add: sbh_take_min_def)
    then show ?thesis using assms(1) sbh_inv_cong [OF keep] by simp
  next
    case True
    then have lt: "curCost ?s < MAX_INT" using assms(1) keep by (simp add: sbh_inv_def)
    have sel: "(q ! ?b = 0 \<longrightarrow> curChange ?s = 1 \<and> (n < f \<longrightarrow> (if coef ! ?b \<ge> 0 then 0 else 1) = sb))
       \<and> (q ! ?b \<noteq> 0 \<longrightarrow> curChange ?s = 1 \<or> curChange ?s = - 1 \<and> \<not> (n = f \<and> abs32 (q ! ?b) = 1))"
      using lt by (auto simp: hdq_cost_def Let_def split: if_splits)
    have "sbh_take_min ?b ?s = ?s\<lparr>minCostInc := curCost ?s, finalChange := curChange ?s, minPos := int ?b\<rparr>"
      using True by (simp add: sbh_take_min_def)
    then show ?thesis using lt sel assms(2)
      by (auto simp: sbh_inv_def sbh_selected_def)
  qed
qed

lemma hdq_search_inv:
  assumes "sbh_inv MAX_INT q coef scn sp f sb bound s" "k \<le> bound"
  shows "sbh_inv MAX_INT q coef scn sp f sb bound (hdq_search q coef deltaU scn sp f sb k s)"
  using assms
proof (induction k arbitrary: s)
  case 0
  then show ?case by simp
next
  case (Suc k)
  have "sbh_inv MAX_INT q coef scn sp f sb bound
           (sbh_take_min (scn ! (k + sp)) (hdq_cost q coef deltaU f sb k (scn ! (k + sp)) s))"
    using hdq_step_inv [OF Suc.prems(1)] Suc.prems(2) by simp
  then show ?case using Suc.IH Suc.prems(2) by (simp add: Let_def)
qed

lemma sbh_take_min_le: "minCostInc (sbh_take_min b s) \<le> minCostInc s"
  by (simp add: sbh_take_min_def)

lemma hdq_cost_minCost: "minCostInc (hdq_cost q coef deltaU f sb n b s) = minCostInc s"
  by (simp add: hdq_cost_def Let_def)

lemma hdq_search_mono:
  "minCostInc (hdq_search q coef deltaU scn sp f sb k s) \<le> minCostInc s"
proof (induction k arbitrary: s)
  case 0
  then show ?case by simp
next
  case (Suc k)
  have "minCostInc (sbh_take_min (scn ! (k + sp)) (hdq_cost q coef deltaU f sb k (scn ! (k + sp)) s))
          \<le> minCostInc s"
    using sbh_take_min_le [of "scn ! (k + sp)" "hdq_cost q coef deltaU f sb k (scn ! (k + sp)) s"]
    by (simp add: hdq_cost_minCost)
  then show ?case using Suc.IH order_trans by (simp add: Let_def) blast
qed

lemma sbh_take_min_cur: "minCostInc (sbh_take_min b s) \<le> curCost s"
  by (simp add: sbh_take_min_def)

lemma s32_id: "- 2147483648 \<le> x \<Longrightarrow> x \<le> 2147483647 \<Longrightarrow> s32 x = x"
  unfolding s32_def by (rule signed_take_bit_int_eq_self) simp_all

lemma hdq_cost_last_finite:
  assumes "q ! b \<noteq> 0" "n \<noteq> f" "- 2147483648 \<le> deltaU ! b" "deltaU ! b \<le> 2147483647"
  shows "curCost (hdq_cost q coef deltaU f sb n b s) < MAX_INT"
proof (cases "deltaU ! b > 0")
  case True
  then have "s32 (- (deltaU ! b)) = - (deltaU ! b)" using assms by (intro s32_id) linarith+
  then show ?thesis using True assms by (simp add: hdq_cost_def MAX_INT_def)
next
  case False
  then show ?thesis using assms by (simp add: hdq_cost_def MAX_INT_def)
qed

lemma hdq_search_finds:
  assumes "l < k" "q ! (scn ! (l + sp)) \<noteq> 0" "l \<noteq> f"
    "- 2147483648 \<le> deltaU ! (scn ! (l + sp))" "deltaU ! (scn ! (l + sp)) \<le> 2147483647"
  shows "minCostInc (hdq_search q coef deltaU scn sp f sb k s) < MAX_INT"
  using assms(1)
proof (induction k arbitrary: s)
  case 0
  then show ?case by simp
next
  case (Suc k)
  let ?s = "sbh_take_min (scn ! (k + sp)) (hdq_cost q coef deltaU f sb k (scn ! (k + sp)) s)"
  show ?case
  proof (cases "l = k")
    case True
    have "minCostInc ?s \<le> curCost (hdq_cost q coef deltaU f sb k (scn ! (k + sp)) s)"
      by (rule sbh_take_min_cur)
    also have "\<dots> < MAX_INT" using hdq_cost_last_finite assms True by simp
    finally have "minCostInc ?s < MAX_INT" .
    then show ?thesis
      using hdq_search_mono [of q coef deltaU scn sp f sb k ?s] by (simp add: Let_def)
  next
    case False
    then have "l < k" using Suc.prems by simp
    then show ?thesis using Suc.IH by (simp add: Let_def)
  qed
qed

subsection \<open>Blocks, scans and counts\<close>

lemma signs_agree_iff:
  "signs_agree q coef \<longleftrightarrow> (\<forall>i<length q. q ! i \<noteq> 0 \<longrightarrow> (q ! i < 0 \<longleftrightarrow> coef ! i < 0))"
  by (auto simp: signs_agree_def list_all_iff)

lemma in_int16_iff: "in_int16 q \<longleftrightarrow> (\<forall>i<length q. - 32768 \<le> q ! i \<and> q ! i \<le> 32767)"
  by (auto simp: in_int16_def list_all_length)

lemma in_int32_iff: "in_int32 q \<longleftrightarrow> (\<forall>i<length q. - 2147483648 \<le> q ! i \<and> q ! i \<le> 2147483647)"
  by (auto simp: in_int32_def list_all_length)

lemma scan_ok_iff:
  "scan_ok N scn \<longleftrightarrow> length scn = N \<and> distinct scn \<and> (\<forall>i<N. scn ! i < N)"
  by (auto simp: scan_ok_def list_all_length)

lemma count_nonzero_append: "count_nonzero (xs @ ys) = count_nonzero xs + count_nonzero ys"
  by (simp add: count_nonzero_def)

lemma count_nonzero_update:
  assumes "i < length q"
  shows "count_nonzero (q[i := v])
       = count_nonzero q - (if q ! i \<noteq> 0 then 1 else 0) + (if v \<noteq> 0 then 1 else 0)"
proof -
  have a: "q = take i q @ q ! i # drop (Suc i) q"
    using assms by (rule id_take_nth_drop)
  have b: "q[i := v] = take i q @ v # drop (Suc i) q"
    using assms by (rule upd_conv_take_nth_drop)
  have "count_nonzero q = count_nonzero (take i q) + (if q ! i \<noteq> 0 then 1 else 0)
          + count_nonzero (drop (Suc i) q)"
    by (subst a) (simp add: count_nonzero_def)
  moreover have "count_nonzero (q[i := v]) = count_nonzero (take i q) + (if v \<noteq> 0 then 1 else 0)
          + count_nonzero (drop (Suc i) q)"
    by (subst b) (simp add: count_nonzero_def)
  ultimately show ?thesis by simp
qed

lemma count_nonzero_bounds: "0 \<le> count_nonzero q \<and> count_nonzero q \<le> int (length q)"
  by (simp add: count_nonzero_def)

lemma count_nonzero_pos:
  assumes "i < length q" "q ! i \<noteq> 0" shows "1 \<le> count_nonzero q"
proof -
  have "q ! i \<in> set (filter (\<lambda>x. x \<noteq> 0) q)" using assms by simp
  then have "filter (\<lambda>x. x \<noteq> 0) q \<noteq> []" by force
  then show ?thesis by (simp add: count_nonzero_def Suc_leI)
qed

lemma count_nonzero_lt:
  assumes "i < length q" "q ! i = 0" shows "count_nonzero q < int (length q)"
proof -
  have "q ! i \<in> set q" using assms(1) by simp
  then have "\<exists>x\<in>set q. \<not> x \<noteq> 0" using assms(2) by auto
  then have "length (filter (\<lambda>x. x \<noteq> 0) q) < length q"
    by (intro length_filter_less) auto
  then show ?thesis by (simp add: count_nonzero_def)
qed

lemma u32_id: "0 \<le> x \<Longrightarrow> x < 4294967296 \<Longrightarrow> u32 x = x"
  unfolding u32_def by (simp add: take_bit_int_eq_self)

lemma abs32_int16: "- 32768 \<le> x \<Longrightarrow> x \<le> 32767 \<Longrightarrow> abs32 x = \<bar>x\<bar>"
  unfolding abs32_def by (intro s32_id) linarith+

text \<open>The coefficient written by sbh_apply.\<close>

lemma sbh_apply_value:
  assumes "mp < length q" "signs_agree q coef" "in_int16 q" "minPos s = int mp"
    and "q ! mp = 0 \<longrightarrow> finalChange s = 1"
    and "finalChange s = 1 \<or> finalChange s = - 1"
  shows "\<exists>v n'. sbh_apply q coef numSig s = Some (q[mp := v], n')
           \<and> - 32768 \<le> v \<and> v \<le> 32767
           \<and> (v \<noteq> 0 \<longrightarrow> (v < 0 \<longleftrightarrow> coef ! mp < 0))
           \<and> (\<bar>v\<bar> = \<bar>q ! mp\<bar> + 1 \<or> \<bar>v\<bar> = \<bar>q ! mp\<bar> - 1 \<and> (v = 0 \<longrightarrow> finalChange s = - 1))
           \<and> (numSig = count_nonzero q \<and> length q \<le> 1024 \<longrightarrow> n' = count_nonzero (q[mp := v]))"
proof -
  define fc where "fc = (if q ! mp = 32767 \<or> q ! mp = - 32768 then - 1 else finalChange s)"
  define v where "v = (if coef ! mp \<ge> 0 then q ! mp + fc else q ! mp - fc)"
  define n' where "n' = (if q ! mp = 0 then u32 (numSig + 1)
                       else if fc = - 1 \<and> abs32 (q ! mp) = 1 then u32 (numSig - 1)
                       else numSig)"
  have r: "- 32768 \<le> q ! mp" "q ! mp \<le> 32767"
    using assms(1,3) by (auto simp: in_int16_iff)
  have ag: "q ! mp \<noteq> 0 \<Longrightarrow> (q ! mp < 0 \<longleftrightarrow> coef ! mp < 0)"
    using assms(1,2) by (auto simp: signs_agree_iff)
  have fc: "fc = 1 \<or> fc = - 1" using assms(6) by (auto simp: fc_def)
  have fc0: "q ! mp = 0 \<Longrightarrow> fc = 1" using assms(5) by (auto simp: fc_def)
  have vr: "- 32768 \<le> v \<and> v \<le> 32767"
    using r ag fc fc0 unfolding v_def fc_def by (cases "q ! mp = 0") (auto split: if_splits)
  then have sv: "s32 v = v" by (intro s32_id) linarith+
  have "sbh_apply q coef numSig s = Some (q[mp := s32 v], n')"
    using assms(4) by (simp add: sbh_apply_def Let_def fc_def v_def n'_def)
  then have ap: "sbh_apply q coef numSig s = Some (q[mp := v], n')"
    using sv by simp
  have sgn: "v \<noteq> 0 \<longrightarrow> (v < 0 \<longleftrightarrow> coef ! mp < 0)"
    using r ag fc fc0 unfolding v_def by (cases "q ! mp = 0") (auto split: if_splits)
  have mag: "\<bar>v\<bar> = \<bar>q ! mp\<bar> + fc"
    using r ag fc fc0 unfolding v_def by (cases "q ! mp = 0") (auto split: if_splits)
  have fcm: "fc = - 1 \<and> v = 0 \<longrightarrow> finalChange s = - 1"
    using mag r by (auto simp: fc_def split: if_splits)
  have mag': "\<bar>v\<bar> = \<bar>q ! mp\<bar> + 1 \<or> \<bar>v\<bar> = \<bar>q ! mp\<bar> - 1 \<and> (v = 0 \<longrightarrow> finalChange s = - 1)"
    using mag fc fcm by auto
  have cnt: "numSig = count_nonzero q \<and> length q \<le> 1024 \<longrightarrow> n' = count_nonzero (q[mp := v])"
  proof
    assume h: "numSig = count_nonzero q \<and> length q \<le> 1024"
    have cu: "count_nonzero (q[mp := v])
       = count_nonzero q - (if q ! mp \<noteq> 0 then 1 else 0) + (if v \<noteq> 0 then 1 else 0)"
      by (rule count_nonzero_update [OF assms(1)])
    have b: "0 \<le> count_nonzero q" "count_nonzero q \<le> 1024"
      using count_nonzero_bounds [of q] h by auto
    show "n' = count_nonzero (q[mp := v])"
    proof (cases "q ! mp = 0")
      case True
      then have "v \<noteq> 0" using mag fc0 by auto
      moreover have "u32 (count_nonzero q + 1) = count_nonzero q + 1"
        using b by (intro u32_id) linarith+
      ultimately show ?thesis using True cu h by (simp add: n'_def)
    next
      case False
      have a: "abs32 (q ! mp) = \<bar>q ! mp\<bar>" using r by (rule abs32_int16)
      have p: "1 \<le> count_nonzero q" using count_nonzero_pos [OF assms(1) False] .
      have u: "u32 (count_nonzero q - 1) = count_nonzero q - 1"
        using b p by (intro u32_id) linarith+
      have "v = 0 \<longleftrightarrow> fc = - 1 \<and> \<bar>q ! mp\<bar> = 1" using mag fc False by auto
      then show ?thesis using False cu h a u by (auto simp: n'_def)
    qed
  qed
  show ?thesis using ap vr sgn mag' cnt by blast
qed

lemma scan_nth_inj:
  assumes "scan_ok N scn" "i < N" "j < N"
  shows "scn ! i = scn ! j \<longleftrightarrow> i = j"
  using assms by (auto simp: scan_ok_iff nth_eq_iff_index_eq)

lemma scan_nth_lt: "scan_ok N scn \<Longrightarrow> i < N \<Longrightarrow> scn ! i < N"
  by (simp add: scan_ok_iff)

text \<open>Searches and sums over a group read the block only at the group's positions.\<close>

lemma lastNZPos_cong:
  assumes "\<And>m. m < k \<Longrightarrow> q' ! (scn ! (m + sp)) = q ! (scn ! (m + sp))"
  shows "lastNZPos q' scn sp k = lastNZPos q scn sp k"
  using assms by (induction k) auto

lemma firstNZPos_cong:
  assumes "\<And>m. m \<le> b \<Longrightarrow> q' ! (scn ! (m + sp)) = q ! (scn ! (m + sp))"
  shows "firstNZPos q' scn sp b n = firstNZPos q scn sp b n"
  using assms
proof (induction q scn sp b n rule: firstNZPos.induct)
  case (1 q scn sp b n)
  show ?case
  proof (cases "q ! (scn ! (n + sp)) \<noteq> 0 \<or> b \<le> n")
    case True
    then have "q' ! (scn ! (n + sp)) \<noteq> 0 \<or> b \<le> n"
      using "1.prems" [of n] by (cases "b \<le> n") auto
    then have "firstNZPos q' scn sp b n = n" by (subst firstNZPos.simps) simp
    moreover have "firstNZPos q scn sp b n = n" using True by (subst firstNZPos.simps) simp
    ultimately show ?thesis by simp
  next
    case False
    then have f': "\<not> (q' ! (scn ! (n + sp)) \<noteq> 0 \<or> b \<le> n)"
      using "1.prems" [of n] by auto
    have "firstNZPos q' scn sp b n = firstNZPos q' scn sp b (Suc n)"
      using f' by (subst firstNZPos.simps) simp
    moreover have "firstNZPos q scn sp b n = firstNZPos q scn sp b (Suc n)"
      using False by (subst firstNZPos.simps) simp
    ultimately show ?thesis using "1.IH" [OF False] "1.prems" by simp
  qed
qed

lemma group_abs_sum_cong:
  assumes "\<And>m. m < 16 \<Longrightarrow> q' ! (scn ! (m + sp)) = q ! (scn ! (m + sp))"
  shows "group_abs_sum q' scn sp = group_abs_sum q scn sp"
  unfolding group_abs_sum_def SCAN_SET_SIZE_def
  by (rule arg_cong [where f = sum_list], rule map_cong) (use assms in auto)

lemma sign_hidden_cong:
  assumes "\<And>m. m < 16 \<Longrightarrow> q' ! (scn ! (m + push_bit LOG2_SCAN_SET_SIZE k))
                            = q ! (scn ! (m + push_bit LOG2_SCAN_SET_SIZE k))"
  shows "sign_hidden q' scn k = sign_hidden q scn k"
proof -
  let ?sp = "push_bit LOG2_SCAN_SET_SIZE k"
  have l: "lastNZPos q' scn ?sp 16 = lastNZPos q scn ?sp 16"
    using assms by (intro lastNZPos_cong) auto
  have lr: "lastNZPos q scn ?sp 16 < 16" using lastNZPos_range [of q scn ?sp 16] by simp
  have f: "firstNZPos q' scn ?sp (nat (lastNZPos q scn ?sp 16)) 0
         = firstNZPos q scn ?sp (nat (lastNZPos q scn ?sp 16)) 0"
    using assms lr by (intro firstNZPos_cong) auto
  have fr: "0 \<le> lastNZPos q scn ?sp 16 \<Longrightarrow>
     firstNZPos q scn ?sp (nat (lastNZPos q scn ?sp 16)) 0 < 16"
    using firstNZPos_props [of 0 "nat (lastNZPos q scn ?sp 16)" q scn ?sp]
      lastNZPos_nonzero [of q scn ?sp 16] lr by auto
  have s: "group_abs_sum q' scn ?sp = group_abs_sum q scn ?sp"
    using assms by (intro group_abs_sum_cong) auto
  have v: "0 \<le> lastNZPos q scn ?sp 16 \<Longrightarrow>
     q' ! (scn ! (?sp + firstNZPos q scn ?sp (nat (lastNZPos q scn ?sp 16)) 0))
   = q ! (scn ! (?sp + firstNZPos q scn ?sp (nat (lastNZPos q scn ?sp 16)) 0))"
    using assms [OF fr] by (simp add: add.commute)
  show ?thesis
    unfolding sign_hidden_def Let_def SCAN_SET_SIZE_def l f s using v by auto
qed

lemma sum_list_upt_single:
  assumes "n < k" "\<And>m. m < k \<Longrightarrow> m \<noteq> n \<Longrightarrow> g m = (h m :: int)"
  shows "(\<Sum>m\<leftarrow>[0..<k]. g m) = (\<Sum>m\<leftarrow>[0..<k]. h m) - h n + g n"
proof -
  have "(\<Sum>m\<leftarrow>[0..<k]. g m) = sum g {0..<k}"
    by (simp add: interv_sum_list_conv_sum_set_nat)
  also have "\<dots> = g n + sum g ({0..<k} - {n})"
    using assms(1) by (intro sum.remove) auto
  also have "sum g ({0..<k} - {n}) = sum h ({0..<k} - {n})"
    using assms(2) by (intro sum.cong) auto
  finally have a: "(\<Sum>m\<leftarrow>[0..<k]. g m) = g n + sum h ({0..<k} - {n})" .
  have "(\<Sum>m\<leftarrow>[0..<k]. h m) = sum h {0..<k}"
    by (simp add: interv_sum_list_conv_sum_set_nat)
  also have "\<dots> = h n + sum h ({0..<k} - {n})"
    using assms(1) by (intro sum.remove) auto
  finally show ?thesis using a by simp
qed

text \<open>A single update at the block position of scan position n of the group at sp.\<close>

lemma group_nth_update:
  assumes "scan_ok N scn" "length q = N" "sp + 16 \<le> N" "n < 16" "m < 16"
  shows "q[scn ! (n + sp) := v] ! (scn ! (m + sp)) = (if m = n then v else q ! (scn ! (m + sp)))"
proof -
  have "scn ! (n + sp) < N" "scn ! (m + sp) < N"
    using assms by (auto intro: scan_nth_lt)
  moreover have "scn ! (m + sp) = scn ! (n + sp) \<longleftrightarrow> m = n"
    using scan_nth_inj [OF assms(1), of "m + sp" "n + sp"] assms by auto
  ultimately show ?thesis using assms(2) by (auto simp: nth_list_update)
qed

lemma other_group_update:
  assumes "scan_ok N scn" "length q = N" "sp + 16 \<le> N" "n < 16" "sp' + 16 \<le> N" "m < 16"
    "sp' + 16 \<le> sp \<or> sp + 16 \<le> sp'"
  shows "q[scn ! (n + sp) := v] ! (scn ! (m + sp')) = q ! (scn ! (m + sp'))"
proof -
  have "scn ! (m + sp') \<noteq> scn ! (n + sp)"
    using scan_nth_inj [OF assms(1), of "m + sp'" "n + sp"] assms by auto
  then show ?thesis by simp
qed

lemma group_abs_sum_update:
  assumes "scan_ok N scn" "length q = N" "sp + 16 \<le> N" "n < 16"
  shows "group_abs_sum (q[scn ! (n + sp) := v]) scn sp
       = group_abs_sum q scn sp - \<bar>q ! (scn ! (n + sp))\<bar> + \<bar>v\<bar>"
proof -
  have "(\<Sum>m\<leftarrow>[0..<16]. \<bar>q[scn ! (n + sp) := v] ! (scn ! (m + sp))\<bar>)
      = (\<Sum>m\<leftarrow>[0..<16]. \<bar>q ! (scn ! (m + sp))\<bar>) - \<bar>q ! (scn ! (n + sp))\<bar>
        + \<bar>q[scn ! (n + sp) := v] ! (scn ! (n + sp))\<bar>"
    using assms by (intro sum_list_upt_single) (auto simp: group_nth_update)
  then show ?thesis using assms
    by (simp add: group_abs_sum_def SCAN_SET_SIZE_def group_nth_update)
qed

lemma group_change_update:
  assumes "scan_ok N scn" "length q = N" "push_bit LOG2_SCAN_SET_SIZE k + 16 \<le> N" "n < 16"
  shows "group_change q (q[scn ! (n + push_bit LOG2_SCAN_SET_SIZE k) := v]) scn k
       = \<bar>v - q ! (scn ! (n + push_bit LOG2_SCAN_SET_SIZE k))\<bar>"
proof -
  let ?sp = "push_bit LOG2_SCAN_SET_SIZE k"
  have "(\<Sum>m\<leftarrow>[0..<16]. \<bar>q[scn ! (n + ?sp) := v] ! (scn ! (m + ?sp)) - q ! (scn ! (m + ?sp))\<bar>)
      = (\<Sum>m\<leftarrow>[0..<16]. (0::int)) - 0
        + \<bar>q[scn ! (n + ?sp) := v] ! (scn ! (n + ?sp)) - q ! (scn ! (n + ?sp))\<bar>"
    using assms by (intro sum_list_upt_single) (auto simp: group_nth_update)
  then show ?thesis using assms
    by (simp add: group_change_def SCAN_SET_SIZE_def group_nth_update)
qed

lemma group_change_same:
  assumes "\<And>m. m < 16 \<Longrightarrow> q' ! (scn ! (m + push_bit LOG2_SCAN_SET_SIZE k))
                            = q ! (scn ! (m + push_bit LOG2_SCAN_SET_SIZE k))"
  shows "group_change q q' scn k = 0"
proof -
  let ?sp = "push_bit LOG2_SCAN_SET_SIZE k"
  have "(\<Sum>n\<leftarrow>[0..<16]. \<bar>q' ! (scn ! (n + ?sp)) - q ! (scn ! (n + ?sp))\<bar>)
      = (\<Sum>n\<leftarrow>[0..<16]. (0::int))"
    by (rule arg_cong [where f = sum_list], rule map_cong) (use assms in auto)
  then show ?thesis unfolding group_change_def SCAN_SET_SIZE_def by simp
qed

lemma group_first_last:
  assumes "0 \<le> lastNZPos q scn sp 16"
  defines "l \<equiv> nat (lastNZPos q scn sp 16)"
  defines "f \<equiv> firstNZPos q scn sp l 0"
  shows "l < 16" "f \<le> l" "q ! (scn ! (l + sp)) \<noteq> 0" "q ! (scn ! (f + sp)) \<noteq> 0"
    "\<And>m. m < f \<Longrightarrow> q ! (scn ! (m + sp)) = 0"
    "\<And>m. l < m \<Longrightarrow> m < 16 \<Longrightarrow> q ! (scn ! (m + sp)) = 0"
proof -
  show l: "l < 16" using lastNZPos_range [of q scn sp 16] assms(1) by (simp add: l_def)
  show nz: "q ! (scn ! (l + sp)) \<noteq> 0"
    using lastNZPos_nonzero [OF assms(1)] by (simp add: l_def)
  have p: "f \<le> l \<and> q ! (scn ! (f + sp)) \<noteq> 0 \<and> (\<forall>m. m < f \<longrightarrow> q ! (scn ! (m + sp)) = 0)"
    using firstNZPos_props [of 0 l q scn sp] nz by (simp add: f_def)
  show "f \<le> l" "q ! (scn ! (f + sp)) \<noteq> 0" "\<And>m. m < f \<Longrightarrow> q ! (scn ! (m + sp)) = 0"
    using p by auto
  show "\<And>m. l < m \<Longrightarrow> m < 16 \<Longrightarrow> q ! (scn ! (m + sp)) = 0"
    using lastNZPos_zero_after [of q scn sp 16] assms(1) by (simp add: l_def)
qed

lemma group_first_unique:
  assumes "f < 16" "q ! (scn ! (f + sp)) \<noteq> 0" "\<And>m. m < f \<Longrightarrow> q ! (scn ! (m + sp)) = 0"
  shows "0 \<le> lastNZPos q scn sp 16"
    and "firstNZPos q scn sp (nat (lastNZPos q scn sp 16)) 0 = f"
proof -
  have "\<not> lastNZPos q scn sp 16 < 0" using assms(1,2) by (auto simp: lastNZPos_neg)
  then show a: "0 \<le> lastNZPos q scn sp 16" by simp
  have "\<not> lastNZPos q scn sp 16 < int f"
    using lastNZPos_zero_after [of q scn sp 16 f] assms(1,2) by auto
  then have "f \<le> nat (lastNZPos q scn sp 16)" using a by simp
  then show "firstNZPos q scn sp (nat (lastNZPos q scn sp 16)) 0 = f"
    using lastNZPos_nonzero [OF a] assms(2,3) by (intro firstNZPos_eqI) auto
qed

lemma sign_hidden_I:
  assumes "f < 16" "q ! (scn ! (f + push_bit LOG2_SCAN_SET_SIZE k)) \<noteq> 0"
    "\<And>m. m < f \<Longrightarrow> q ! (scn ! (m + push_bit LOG2_SCAN_SET_SIZE k)) = 0"
    "(if q ! (scn ! (f + push_bit LOG2_SCAN_SET_SIZE k)) > 0 then 0 else 1)
       = group_abs_sum q scn (push_bit LOG2_SCAN_SET_SIZE k) mod 2"
  shows "sign_hidden q scn k"
  using group_first_unique(2) [OF assms(1,2,3)] assms(4)
  by (simp add: sign_hidden_def Let_def SCAN_SET_SIZE_def add.commute)

lemma u32_mod2: "u32 y mod 2 = y mod 2"
proof -
  have "(y mod 2 ^ 32) mod 2 = y mod 2"
    by (rule mod_mod_cancel) simp
  then show ?thesis by (simp add: u32_def take_bit_eq_mod)
qed

lemma fold_u32_parity:
  "fold (\<lambda>n s. u32 (s + g n)) xs a mod 2 = (a + sum_list (map g xs)) mod 2"
proof (induction xs arbitrary: a)
  case Nil
  then show ?case by simp
next
  case (Cons x xs)
  have "(u32 (a + g x) + sum_list (map g xs)) mod 2 = (a + g x + sum_list (map g xs)) mod 2"
    by (rule mod_add_cong [OF u32_mod2 refl])
  then show ?case using Cons.IH [of "u32 (a + g x)"] by (simp add: add.assoc)
qed

lemma sum_list_abs_parity:
  "sum_list (map (\<lambda>n. \<bar>g n :: int\<bar>) xs) mod 2 = sum_list (map g xs) mod 2"
proof (induction xs)
  case Nil
  then show ?case by simp
next
  case (Cons x xs)
  have "\<bar>g x\<bar> mod 2 = g x mod 2" by presburger
  from mod_add_cong [OF this Cons.IH] show ?case by simp
qed

lemma sum_list_upt_zero_outside:
  assumes "f \<le> l" "l < k" "\<And>m. m < f \<Longrightarrow> g m = (0::int)" "\<And>m. l < m \<Longrightarrow> m < k \<Longrightarrow> g m = 0"
  shows "(\<Sum>m\<leftarrow>[0..<k]. g m) = (\<Sum>m\<leftarrow>[f..<Suc l]. g m)"
proof -
  have "(\<Sum>m\<leftarrow>[f..<Suc l]. g m) = sum g {f..<Suc l}"
    by (simp add: interv_sum_list_conv_sum_set_nat)
  also have "\<dots> = sum g {0..<k}"
  proof (rule sum.mono_neutral_left)
    show "finite {0..<k}" by simp
    show "{f..<Suc l} \<subseteq> {0..<k}" using assms(2) by auto
    show "\<forall>i\<in>{0..<k} - {f..<Suc l}. g i = 0"
      using assms(3,4) by (auto simp: not_less less_Suc_eq_le)
  qed
  also have "\<dots> = (\<Sum>m\<leftarrow>[0..<k]. g m)"
    by (simp add: interv_sum_list_conv_sum_set_nat)
  finally show ?thesis by simp
qed

lemma hdq_absSum_parity:
  assumes "0 \<le> lastNZPos q scn sp 16"
  shows "hdq_absSum q scn sp (firstNZPos q scn sp (nat (lastNZPos q scn sp 16)) 0)
           (nat (lastNZPos q scn sp 16)) AND 1
       = group_abs_sum q scn sp mod 2"
proof -
  let ?l = "nat (lastNZPos q scn sp 16)"
  let ?f = "firstNZPos q scn sp ?l 0"
  note fl = group_first_last [OF assms]
  have "group_abs_sum q scn sp = (\<Sum>m\<leftarrow>[?f..<Suc ?l]. \<bar>q ! (scn ! (m + sp))\<bar>)"
    unfolding group_abs_sum_def SCAN_SET_SIZE_def
    using fl by (intro sum_list_upt_zero_outside) auto
  then have "group_abs_sum q scn sp mod 2 = (\<Sum>m\<leftarrow>[?f..<Suc ?l]. q ! (scn ! (m + sp))) mod 2"
    using sum_list_abs_parity [of "\<lambda>m. q ! (scn ! (m + sp))" "[?f..<Suc ?l]"] by simp
  moreover have "hdq_absSum q scn sp ?f ?l mod 2 = (\<Sum>m\<leftarrow>[?f..<Suc ?l]. q ! (scn ! (m + sp))) mod 2"
    unfolding hdq_absSum_def
    using fold_u32_parity [of "\<lambda>m. q ! (scn ! (m + sp))" "[?f..<Suc ?l]" 0] by simp
  ultimately show ?thesis by (simp add: and_one_eq)
qed

subsection \<open>The adjustment of a group\<close>

lemma signs_agree_update:
  assumes "signs_agree q coef" "v \<noteq> 0 \<longrightarrow> (v < 0 \<longleftrightarrow> coef ! mp < 0)"
  shows "signs_agree (q[mp := v]) coef"
  unfolding signs_agree_iff
proof (intro allI impI)
  fix i assume "i < length (q[mp := v])" "q[mp := v] ! i \<noteq> 0"
  then show "(q[mp := v] ! i < 0) = (coef ! i < 0)"
    using assms by (cases "i = mp") (auto simp: signs_agree_iff)
qed

lemma in_int16_update:
  assumes "in_int16 q" "- 32768 \<le> v" "v \<le> 32767"
  shows "in_int16 (q[mp := v])"
  unfolding in_int16_iff
proof (intro allI impI)
  fix i assume "i < length (q[mp := v])"
  then show "- 32768 \<le> q[mp := v] ! i \<and> q[mp := v] ! i \<le> 32767"
    using assms by (cases "i = mp") (auto simp: in_int16_iff)
qed

lemma sbh_group_adjust:
  assumes sc: "scan_ok N scn" and len: "length q = N"
    and sp: "push_bit LOG2_SCAN_SET_SIZE k + 16 \<le> N"
    and ag: "signs_agree q coef" and rg: "in_int16 q"
    and l0: "0 \<le> lastNZPos q scn (push_bit LOG2_SCAN_SET_SIZE k) 16"
    and mm: "(if q ! (scn ! (push_bit LOG2_SCAN_SET_SIZE k
                 + firstNZPos q scn (push_bit LOG2_SCAN_SET_SIZE k)
                     (nat (lastNZPos q scn (push_bit LOG2_SCAN_SET_SIZE k) 16)) 0)) > 0
              then 0 else 1)
             \<noteq> group_abs_sum q scn (push_bit LOG2_SCAN_SET_SIZE k) mod 2"
    and sel: "sbh_selected q coef scn (push_bit LOG2_SCAN_SET_SIZE k)
               (firstNZPos q scn (push_bit LOG2_SCAN_SET_SIZE k)
                     (nat (lastNZPos q scn (push_bit LOG2_SCAN_SET_SIZE k) 16)) 0)
               (if q ! (scn ! (push_bit LOG2_SCAN_SET_SIZE k
                 + firstNZPos q scn (push_bit LOG2_SCAN_SET_SIZE k)
                     (nat (lastNZPos q scn (push_bit LOG2_SCAN_SET_SIZE k) 16)) 0)) > 0
                then 0 else 1) 16 s"
  shows "\<exists>q' n'. sbh_apply q coef numSig s = Some (q', n')
           \<and> length q' = N \<and> signs_agree q' coef \<and> in_int16 q'
           \<and> (numSig = count_nonzero q \<and> N \<le> 1024 \<longrightarrow> n' = count_nonzero q')
           \<and> sign_hidden q' scn k
           \<and> group_change q q' scn k = 1
           \<and> q' ! (scn ! (push_bit LOG2_SCAN_SET_SIZE k
                 + firstNZPos q scn (push_bit LOG2_SCAN_SET_SIZE k)
                     (nat (lastNZPos q scn (push_bit LOG2_SCAN_SET_SIZE k) 16)) 0)) \<noteq> 0
           \<and> (\<forall>i<N. (\<forall>m<16. i \<noteq> scn ! (m + push_bit LOG2_SCAN_SET_SIZE k)) \<longrightarrow> q' ! i = q ! i)
           \<and> (\<forall>i<N. \<bar>q' ! i\<bar> \<le> \<bar>q ! i\<bar> + 1)"
proof -
  let ?sp = "push_bit LOG2_SCAN_SET_SIZE k"
  let ?l = "nat (lastNZPos q scn ?sp 16)"
  let ?f = "firstNZPos q scn ?sp ?l 0"
  let ?sb = "if q ! (scn ! (?sp + ?f)) > 0 then 0 else 1 :: int"
  note fl = group_first_last [OF l0]
  from sel obtain n where n: "n < 16" "minPos s = int (scn ! (n + ?sp))"
    and z: "q ! (scn ! (n + ?sp)) = 0 \<longrightarrow> finalChange s = 1 \<and>
           (n < ?f \<longrightarrow> (if coef ! (scn ! (n + ?sp)) \<ge> 0 then 0 else 1) = ?sb)"
    and nz: "q ! (scn ! (n + ?sp)) \<noteq> 0 \<longrightarrow> finalChange s = 1 \<or>
           finalChange s = - 1 \<and> \<not> (n = ?f \<and> abs32 (q ! (scn ! (n + ?sp))) = 1)"
    unfolding sbh_selected_def by blast
  let ?mp = "scn ! (n + ?sp)"
  have mpN: "?mp < length q" using scan_nth_lt [OF sc, of "n + ?sp"] n(1) sp len by simp
  have fc: "finalChange s = 1 \<or> finalChange s = - 1" using z nz by blast
  from sbh_apply_value [OF mpN ag rg n(2) _ fc, of numSig] z
  obtain v n' where ap: "sbh_apply q coef numSig s = Some (q[?mp := v], n')"
    and vr: "- 32768 \<le> v" "v \<le> 32767"
    and vs: "v \<noteq> 0 \<longrightarrow> (v < 0 \<longleftrightarrow> coef ! ?mp < 0)"
    and vm: "\<bar>v\<bar> = \<bar>q ! ?mp\<bar> + 1 \<or> \<bar>v\<bar> = \<bar>q ! ?mp\<bar> - 1 \<and> (v = 0 \<longrightarrow> finalChange s = - 1)"
    and cn: "numSig = count_nonzero q \<and> length q \<le> 1024 \<longrightarrow> n' = count_nonzero (q[?mp := v])"
    by blast
  let ?q' = "q[?mp := v]"
  have qr: "- 32768 \<le> q ! ?mp" "q ! ?mp \<le> 32767"
    using rg mpN by (auto simp: in_int16_iff)
  have qag: "q ! ?mp \<noteq> 0 \<Longrightarrow> (q ! ?mp < 0 \<longleftrightarrow> coef ! ?mp < 0)"
    using ag mpN by (auto simp: signs_agree_iff)
  have nth: "\<And>m. m < 16 \<Longrightarrow> ?q' ! (scn ! (m + ?sp)) = (if m = n then v else q ! (scn ! (m + ?sp)))"
    using group_nth_update [OF sc len sp n(1)] by simp
  have sum: "group_abs_sum ?q' scn ?sp = group_abs_sum q scn ?sp - \<bar>q ! ?mp\<bar> + \<bar>v\<bar>"
    by (rule group_abs_sum_update [OF sc len sp n(1)])
  have par: "group_abs_sum ?q' scn ?sp mod 2 = ?sb"
  proof -
    have "group_abs_sum ?q' scn ?sp = group_abs_sum q scn ?sp + 1
        \<or> group_abs_sum ?q' scn ?sp = group_abs_sum q scn ?sp - 1"
      using sum vm by auto
    then show ?thesis using mm by presburger
  qed
  have diff1: "\<bar>v - q ! ?mp\<bar> = 1"
    using vm vs qag by (cases "q ! ?mp = 0"; cases "v = 0") (auto simp: abs_if split: if_splits)
  have f16: "?f < 16" using fl(1,2) by simp
  \<comment> \<open>the first nonzero coefficient of the old block stays nonzero\<close>
  have keep: "?q' ! (scn ! (?sp + ?f)) \<noteq> 0"
  proof (cases "n = ?f")
    case True
    have a: "abs32 (q ! ?mp) = \<bar>q ! ?mp\<bar>" using qr by (rule abs32_int16)
    have "q ! ?mp \<noteq> 0" using True fl(4) by simp
    then have "v \<noteq> 0" using vm nz True a by auto
    then show ?thesis using nth [OF f16] True by (simp add: add.commute)
  next
    case False
    then show ?thesis using nth [OF f16] fl(4) by (simp add: add.commute)
  qed
  \<comment> \<open>the first nonzero position of the new block and its sign bit\<close>
  have hid: "sign_hidden ?q' scn k"
  proof (cases "n < ?f")
    case True
    then have q0: "q ! ?mp = 0" using fl(5) by simp
    then have v1: "v \<noteq> 0" using vm by auto
    have sb: "(if coef ! ?mp \<ge> 0 then 0 else 1) = ?sb" using z q0 True by simp
    have "(if v > 0 then 0 else 1) = ?sb" using v1 vs sb by (auto split: if_splits)
    then have "(if ?q' ! (scn ! (n + ?sp)) > 0 then 0 else 1)
             = group_abs_sum ?q' scn ?sp mod 2"
      using par nth [OF n(1)] by simp
    moreover have "?q' ! (scn ! (n + ?sp)) \<noteq> 0" using nth [OF n(1)] v1 by simp
    moreover have "\<And>m. m < n \<Longrightarrow> ?q' ! (scn ! (m + ?sp)) = 0"
      using nth n(1) True fl(5) by simp
    ultimately show ?thesis using n(1) by (intro sign_hidden_I [of n]) auto
  next
    case False
    have same: "(?q' ! (scn ! (?f + ?sp)) > 0) = (q ! (scn ! (?f + ?sp)) > 0)"
    proof (cases "n = ?f")
      case True
      have "v \<noteq> 0" using keep nth [OF f16] True by (simp add: add.commute)
      moreover have "q ! ?mp \<noteq> 0" using True fl(4) by simp
      ultimately have "(v > 0) = (q ! ?mp > 0)" using vs qag by auto
      then show ?thesis using nth [OF f16] True by simp
    next
      case False
      then show ?thesis using nth [OF f16] by simp
    qed
    have "(if ?q' ! (scn ! (?f + ?sp)) > 0 then 0 else 1) = group_abs_sum ?q' scn ?sp mod 2"
      using par same by (simp add: add.commute)
    moreover have "?q' ! (scn ! (?f + ?sp)) \<noteq> 0" using keep by (simp add: add.commute)
    moreover have "\<And>m. m < ?f \<Longrightarrow> ?q' ! (scn ! (m + ?sp)) = 0"
      using nth False fl(5) f16 by simp
    ultimately show ?thesis using f16 by (intro sign_hidden_I [of ?f]) auto
  qed
  have chg: "group_change q ?q' scn k = 1"
    using group_change_update [OF sc len sp n(1)] diff1 by simp
  have oth: "\<forall>i<N. (\<forall>m<16. i \<noteq> scn ! (m + ?sp)) \<longrightarrow> ?q' ! i = q ! i"
    using n(1) by (auto simp: nth_list_update)
  have bnd: "\<forall>i<N. \<bar>?q' ! i\<bar> \<le> \<bar>q ! i\<bar> + 1"
  proof (intro allI impI)
    fix i assume "i < N"
    then show "\<bar>?q' ! i\<bar> \<le> \<bar>q ! i\<bar> + 1"
      using vm len by (cases "i = ?mp") auto
  qed
  have "signs_agree ?q' coef" using signs_agree_update [OF ag vs] .
  moreover have "in_int16 ?q'" using in_int16_update [OF rg vr] .
  moreover have "numSig = count_nonzero q \<and> N \<le> 1024 \<longrightarrow> n' = count_nonzero ?q'"
    using cn len by simp
  ultimately show ?thesis using ap len hid chg keep oth bnd by auto
qed

lemma sbh_selected_mono:
  "sbh_selected q coef scn sp f sb b s \<Longrightarrow> b \<le> b' \<Longrightarrow> sbh_selected q coef scn sp f sb b' s"
  unfolding sbh_selected_def by (meson less_le_trans)

lemma parity_mismatch_cong:
  assumes "\<And>m. m < 16 \<Longrightarrow> q' ! (scn ! (m + push_bit LOG2_SCAN_SET_SIZE k))
                            = q ! (scn ! (m + push_bit LOG2_SCAN_SET_SIZE k))"
  shows "parity_mismatch q' scn k = parity_mismatch q scn k"
proof -
  let ?sp = "push_bit LOG2_SCAN_SET_SIZE k"
  have l: "lastNZPos q' scn ?sp 16 = lastNZPos q scn ?sp 16"
    using assms by (intro lastNZPos_cong) auto
  have lr: "lastNZPos q scn ?sp 16 < 16" using lastNZPos_range [of q scn ?sp 16] by simp
  have f: "firstNZPos q' scn ?sp (nat (lastNZPos q scn ?sp 16)) 0
         = firstNZPos q scn ?sp (nat (lastNZPos q scn ?sp 16)) 0"
    using assms lr by (intro firstNZPos_cong) auto
  have fr: "0 \<le> lastNZPos q scn ?sp 16 \<Longrightarrow>
     firstNZPos q scn ?sp (nat (lastNZPos q scn ?sp 16)) 0 < 16"
    using group_first_last(1,2) [of q scn ?sp] by simp
  have s: "group_abs_sum q' scn ?sp = group_abs_sum q scn ?sp"
    using assms by (intro group_abs_sum_cong) auto
  have v: "0 \<le> lastNZPos q scn ?sp 16 \<Longrightarrow>
     q' ! (scn ! (?sp + firstNZPos q scn ?sp (nat (lastNZPos q scn ?sp 16)) 0))
   = q ! (scn ! (?sp + firstNZPos q scn ?sp (nat (lastNZPos q scn ?sp 16)) 0))"
    using assms [OF fr] by (simp add: add.commute)
  show ?thesis
    unfolding parity_mismatch_def Let_def SCAN_SET_SIZE_def l f s using v by auto
qed

lemma group_change_cong:
  assumes "\<And>m. m < 16 \<Longrightarrow> q1 ! (scn ! (m + push_bit LOG2_SCAN_SET_SIZE k))
                            = q ! (scn ! (m + push_bit LOG2_SCAN_SET_SIZE k))"
    and "\<And>m. m < 16 \<Longrightarrow> q2 ! (scn ! (m + push_bit LOG2_SCAN_SET_SIZE k))
                            = q' ! (scn ! (m + push_bit LOG2_SCAN_SET_SIZE k))"
  shows "group_change q1 q2 scn k = group_change q q' scn k"
  unfolding group_change_def SCAN_SET_SIZE_def
  by (rule arg_cong [where f = sum_list], rule map_cong) (use assms in auto)

lemma first_kept_cong:
  assumes "\<And>m. m < 16 \<Longrightarrow> q1 ! (scn ! (m + push_bit LOG2_SCAN_SET_SIZE k))
                            = q ! (scn ! (m + push_bit LOG2_SCAN_SET_SIZE k))"
    and "\<And>m. m < 16 \<Longrightarrow> q2 ! (scn ! (m + push_bit LOG2_SCAN_SET_SIZE k))
                            = q' ! (scn ! (m + push_bit LOG2_SCAN_SET_SIZE k))"
  shows "first_kept q1 q2 scn k = first_kept q q' scn k"
proof -
  let ?sp = "push_bit LOG2_SCAN_SET_SIZE k"
  have l: "lastNZPos q1 scn ?sp 16 = lastNZPos q scn ?sp 16"
    using assms(1) by (intro lastNZPos_cong) auto
  have lr: "lastNZPos q scn ?sp 16 < 16" using lastNZPos_range [of q scn ?sp 16] by simp
  have f: "firstNZPos q1 scn ?sp (nat (lastNZPos q scn ?sp 16)) 0
         = firstNZPos q scn ?sp (nat (lastNZPos q scn ?sp 16)) 0"
    using assms(1) lr by (intro firstNZPos_cong) auto
  have fr: "0 \<le> lastNZPos q scn ?sp 16 \<Longrightarrow>
     firstNZPos q scn ?sp (nat (lastNZPos q scn ?sp 16)) 0 < 16"
    using group_first_last(1,2) [of q scn ?sp] by simp
  have v: "0 \<le> lastNZPos q scn ?sp 16 \<Longrightarrow>
     q2 ! (scn ! (?sp + firstNZPos q scn ?sp (nat (lastNZPos q scn ?sp 16)) 0))
   = q' ! (scn ! (?sp + firstNZPos q scn ?sp (nat (lastNZPos q scn ?sp 16)) 0))"
    using assms(2) [OF fr] by (simp add: add.commute)
  show ?thesis
    unfolding first_kept_def Let_def SCAN_SET_SIZE_def l f using v by auto
qed

lemma group_adjusted_cong:
  assumes "\<And>m. m < 16 \<Longrightarrow> q1 ! (scn ! (m + push_bit LOG2_SCAN_SET_SIZE k))
                            = q ! (scn ! (m + push_bit LOG2_SCAN_SET_SIZE k))"
    and "\<And>m. m < 16 \<Longrightarrow> q2 ! (scn ! (m + push_bit LOG2_SCAN_SET_SIZE k))
                            = q' ! (scn ! (m + push_bit LOG2_SCAN_SET_SIZE k))"
  shows "group_adjusted q1 q2 scn k = group_adjusted q q' scn k"
  unfolding group_adjusted_def
  using sign_hidden_cong [of q2 scn k q', OF assms(2)]
    group_change_cong [of q1 scn k q q2 q', OF assms]
    parity_mismatch_cong [of q1 scn k q, OF assms(1)]
    first_kept_cong [of q1 scn k q q2 q', OF assms]
  by simp

lemma group_adjusted_refl:
  assumes "\<not> parity_mismatch q scn k"
  shows "group_adjusted q q scn k"
proof -
  let ?sp = "push_bit LOG2_SCAN_SET_SIZE k"
  have "sign_hidden q scn k"
    using assms by (auto simp: sign_hidden_def parity_mismatch_def Let_def)
  moreover have "group_change q q scn k = 0" by (rule group_change_same) simp
  moreover have "first_kept q q scn k"
    using group_first_last(4) [of q scn ?sp]
    by (auto simp: first_kept_def Let_def SCAN_SET_SIZE_def add.commute)
  ultimately show ?thesis using assms by (simp add: group_adjusted_def)
qed

lemma hdq_group_props:
  assumes sc: "scan_ok N scn" and len: "length q = N" and lend: "length deltaU = N"
    and sp: "push_bit LOG2_SCAN_SET_SIZE k + 16 \<le> N"
    and ag: "signs_agree q coef" and rg: "in_int16 q" and dr: "in_int32 deltaU"
  shows "\<exists>q' n' lc'. hdq_group coef deltaU scn k (q, numSig, lastCG) = Some (q', n', lc')
           \<and> length q' = N \<and> signs_agree q' coef \<and> in_int16 q'
           \<and> (numSig = count_nonzero q \<and> N \<le> 1024 \<longrightarrow> n' = count_nonzero q')
           \<and> group_adjusted q q' scn k
           \<and> (\<forall>i<N. (\<forall>m<16. i \<noteq> scn ! (m + push_bit LOG2_SCAN_SET_SIZE k)) \<longrightarrow> q' ! i = q ! i)
           \<and> (\<forall>i<N. \<bar>q' ! i\<bar> \<le> \<bar>q ! i\<bar> + 1)"
proof -
  let ?sp = "push_bit LOG2_SCAN_SET_SIZE k"
  let ?li = "lastNZPos q scn ?sp 16"
  let ?l = "nat ?li"
  let ?f = "firstNZPos q scn ?sp ?l 0"
  let ?sb = "if q ! (scn ! (?sp + ?f)) > 0 then 0 else 1 :: int"
  let ?mm = "0 \<le> ?li \<and> ?li - int ?f \<ge> SBH_THRESHOLD \<and> ?sb \<noteq> group_abs_sum q scn ?sp mod 2"
  have pm: "parity_mismatch q scn k \<longleftrightarrow> ?mm"
    by (simp add: parity_mismatch_def Let_def SCAN_SET_SIZE_def)
  show ?thesis
  proof (cases ?mm)
    case False
    have npm: "\<not> parity_mismatch q scn k" using False pm by simp
    have ab: "0 \<le> ?li \<Longrightarrow> hdq_absSum q scn ?sp ?f ?l AND 1 = group_abs_sum q scn ?sp mod 2"
      by (rule hdq_absSum_parity)
    have "\<exists>lc'. hdq_group coef deltaU scn k (q, numSig, lastCG) = Some (q, numSig, lc')"
      using False ab by (auto simp: hdq_group_def Let_def SCAN_SET_SIZE_def)
    then show ?thesis using len ag rg group_adjusted_refl [OF npm] by auto
  next
    case True
    then have l0: "0 \<le> ?li" and th: "?li - int ?f \<ge> SBH_THRESHOLD"
      and mm: "?sb \<noteq> group_abs_sum q scn ?sp mod 2" by auto
    note fl = group_first_last [OF l0]
    have ab: "hdq_absSum q scn ?sp ?f ?l AND 1 = group_abs_sum q scn ?sp mod 2"
      using l0 by (rule hdq_absSum_parity)
    define start where "start = (if lastCG = 1 then ?l else SCAN_SET_SIZE - 1)"
    define s where "s = hdq_search q coef deltaU scn ?sp ?f ?sb (Suc start) (sbh_init MAX_INT)"
    have st: "?l \<le> start" "Suc start \<le> 16"
      using fl(1) by (auto simp: start_def SCAN_SET_SIZE_def)
    have inv: "sbh_inv MAX_INT q coef scn ?sp ?f ?sb (Suc start) s"
      unfolding s_def by (intro hdq_search_inv sbh_inv_init) simp
    have lf: "?l \<noteq> ?f" using th l0 by (simp add: SBH_THRESHOLD_def)
    have mpN: "scn ! (?l + ?sp) < N" using scan_nth_lt [OF sc, of "?l + ?sp"] fl(1) sp by simp
    then have dlr: "- 2147483648 \<le> deltaU ! (scn ! (?l + ?sp))"
      "deltaU ! (scn ! (?l + ?sp)) \<le> 2147483647"
      using dr lend by (auto simp: in_int32_iff)
    have fin: "minCostInc s < MAX_INT"
      unfolding s_def using st(1) fl(3) lf dlr by (intro hdq_search_finds [of ?l]) auto
    then have "sbh_selected q coef scn ?sp ?f ?sb (Suc start) s"
      using inv by (simp add: sbh_inv_def)
    then have sel: "sbh_selected q coef scn ?sp ?f ?sb 16 s"
      using st(2) by (rule sbh_selected_mono)
    from sbh_group_adjust [OF sc len sp ag rg l0 mm sel, of numSig]
    obtain q' n' where ap: "sbh_apply q coef numSig s = Some (q', n')"
      and p: "length q' = N" "signs_agree q' coef" "in_int16 q'"
        "numSig = count_nonzero q \<and> N \<le> 1024 \<longrightarrow> n' = count_nonzero q'"
        "sign_hidden q' scn k" "group_change q q' scn k = 1" "q' ! (scn ! (?sp + ?f)) \<noteq> 0"
        "\<forall>i<N. (\<forall>m<16. i \<noteq> scn ! (m + ?sp)) \<longrightarrow> q' ! i = q ! i"
        "\<forall>i<N. \<bar>q' ! i\<bar> \<le> \<bar>q ! i\<bar> + 1"
      by blast
    have "hdq_group coef deltaU scn k (q, numSig, lastCG) = Some (q', n', 0)"
      using True ab ap
      by (simp add: hdq_group_def Let_def SCAN_SET_SIZE_def s_def start_def)
    moreover have "group_adjusted q q' scn k"
      using p(5,6,7) True pm
      by (simp add: group_adjusted_def first_kept_def Let_def SCAN_SET_SIZE_def)
    ultimately show ?thesis using p by blast
  qed
qed

subsection \<open>The loop over the groups of \<open>signBitHidingHDQ\<close>\<close>

lemma subPos_eq: "push_bit LOG2_SCAN_SET_SIZE (k::nat) = 16 * k"
  by (simp add: LOG2_SCAN_SET_SIZE_def push_bit_eq_mult mult.commute)

lemma groups_disjoint:
  assumes "scan_ok N scn" "16 * k + 16 \<le> N" "16 * k' + 16 \<le> N" "k \<noteq> k'"
    "m < (16::nat)" "m' < (16::nat)"
  shows "scn ! (m + 16 * k) \<noteq> scn ! (m' + 16 * k')"
proof -
  have "m + 16 * k \<noteq> m' + 16 * k'" using assms(4,5,6) by arith
  then show ?thesis using scan_nth_inj [OF assms(1), of "m + 16 * k" "m' + 16 * k'"] assms by auto
qed

lemma hdq_groups_props:
  assumes sc: "scan_ok N scn" and lend: "length deltaU = N" and dr: "in_int32 deltaU"
    and K: "16 * K \<le> N"
    and len: "length q = N" and ag: "signs_agree q coef" and rg: "in_int16 q"
  shows "\<exists>q' n' lc'. hdq_groups coef deltaU scn K (q, numSig, lastCG) = Some (q', n', lc')
           \<and> length q' = N \<and> signs_agree q' coef \<and> in_int16 q'
           \<and> (numSig = count_nonzero q \<and> N \<le> 1024 \<longrightarrow> n' = count_nonzero q')
           \<and> (\<forall>k<K. group_adjusted q q' scn k)
           \<and> (\<forall>i<N. (\<forall>k<K. \<forall>m<16. i \<noteq> scn ! (m + 16 * k)) \<longrightarrow> q' ! i = q ! i)
           \<and> (\<forall>i<N. \<bar>q' ! i\<bar> \<le> \<bar>q ! i\<bar> + 1)"
  using K len ag rg
proof (induction K arbitrary: q numSig lastCG)
  case 0
  then show ?case by simp
next
  case (Suc K)
  have sp: "push_bit LOG2_SCAN_SET_SIZE K + 16 \<le> N" using Suc.prems(1) by (simp add: subPos_eq)
  from hdq_group_props [OF sc Suc.prems(2) lend sp Suc.prems(3,4) dr, of numSig lastCG]
  obtain q1 n1 lc1 where g: "hdq_group coef deltaU scn K (q, numSig, lastCG) = Some (q1, n1, lc1)"
    and p1: "length q1 = N" "signs_agree q1 coef" "in_int16 q1"
      "numSig = count_nonzero q \<and> N \<le> 1024 \<longrightarrow> n1 = count_nonzero q1"
      "group_adjusted q q1 scn K"
      "\<forall>i<N. (\<forall>m<16. i \<noteq> scn ! (m + 16 * K)) \<longrightarrow> q1 ! i = q ! i"
      "\<forall>i<N. \<bar>q1 ! i\<bar> \<le> \<bar>q ! i\<bar> + 1"
    unfolding subPos_eq by blast
  have K': "16 * K \<le> N" using Suc.prems(1) by simp
  from Suc.IH [OF K' p1(1,2,3), of n1 lc1]
  obtain q' n' lc' where r: "hdq_groups coef deltaU scn K (q1, n1, lc1) = Some (q', n', lc')"
    and p2: "length q' = N" "signs_agree q' coef" "in_int16 q'"
      "n1 = count_nonzero q1 \<and> N \<le> 1024 \<longrightarrow> n' = count_nonzero q'"
      "\<forall>k<K. group_adjusted q1 q' scn k"
      "\<forall>i<N. (\<forall>k<K. \<forall>m<16. i \<noteq> scn ! (m + 16 * k)) \<longrightarrow> q' ! i = q1 ! i"
      "\<forall>i<N. \<bar>q' ! i\<bar> \<le> \<bar>q1 ! i\<bar> + 1"
    by blast
  have res: "hdq_groups coef deltaU scn (Suc K) (q, numSig, lastCG) = Some (q', n', lc')"
    using g r by simp
  \<comment> \<open>positions of the group K are in no group below K, and conversely\<close>
  have inK: "\<And>m::nat. m < 16 \<Longrightarrow> scn ! (m + 16 * K) < N"
    using scan_nth_lt [OF sc] Suc.prems(1) by simp
  have notbelow: "\<And>(m::nat) k (m'::nat). m < 16 \<Longrightarrow> k < K \<Longrightarrow> m' < 16 \<Longrightarrow>
      scn ! (m + 16 * K) \<noteq> scn ! (m' + 16 * k)"
    using groups_disjoint [OF sc, of K] Suc.prems(1) by simp
  have q'K: "\<And>m::nat. m < 16 \<Longrightarrow> q' ! (scn ! (m + 16 * K)) = q1 ! (scn ! (m + 16 * K))"
    using p2(6) inK notbelow by blast
  have q1k: "\<And>(m::nat) k. m < 16 \<Longrightarrow> k < K \<Longrightarrow> q1 ! (scn ! (m + 16 * k)) = q ! (scn ! (m + 16 * k))"
  proof -
    fix m k :: nat assume h: "m < 16" "k < K"
    have "scn ! (m + 16 * k) < N" using scan_nth_lt [OF sc] Suc.prems(1) h by simp
    moreover have "\<forall>m'<16. scn ! (m + 16 * k) \<noteq> scn ! (m' + 16 * K)"
      using notbelow h by metis
    ultimately show "q1 ! (scn ! (m + 16 * k)) = q ! (scn ! (m + 16 * k))"
      using p1(6) by blast
  qed
  have adj: "\<forall>k<Suc K. group_adjusted q q' scn k"
  proof (intro allI impI)
    fix k assume "k < Suc K"
    show "group_adjusted q q' scn k"
    proof (cases "k = K")
      case True
      have "group_adjusted q q' scn K = group_adjusted q q1 scn K"
        by (rule group_adjusted_cong) (simp_all add: subPos_eq q'K)
      then show ?thesis using p1(5) True by simp
    next
      case False
      then have kK: "k < K" using \<open>k < Suc K\<close> by simp
      have "group_adjusted q1 q' scn k = group_adjusted q q' scn k"
        by (rule group_adjusted_cong) (simp_all add: subPos_eq q1k [OF _ kK])
      then show ?thesis using p2(5) kK by simp
    qed
  qed
  have oth: "\<forall>i<N. (\<forall>k<Suc K. \<forall>m<16. i \<noteq> scn ! (m + 16 * k)) \<longrightarrow> q' ! i = q ! i"
  proof (intro allI impI)
    fix i assume i: "i < N" "\<forall>k<Suc K. \<forall>m<16. i \<noteq> scn ! (m + 16 * k)"
    then have "q' ! i = q1 ! i" using p2(6) by simp
    moreover have "q1 ! i = q ! i" using p1(6) i by simp
    ultimately show "q' ! i = q ! i" by simp
  qed
  have bnd: "\<forall>i<N. \<bar>q' ! i\<bar> \<le> \<bar>q ! i\<bar> + 1"
  proof (intro allI impI)
    fix i assume i: "i < N"
    show "\<bar>q' ! i\<bar> \<le> \<bar>q ! i\<bar> + 1"
    proof (cases "\<exists>m<16. i = scn ! (m + 16 * K)")
      case True
      then have "q' ! i = q1 ! i" using q'K by auto
      then show ?thesis using p1(7) i by simp
    next
      case False
      then have "q1 ! i = q ! i" using p1(6) i by simp
      then show ?thesis using p2(7) i by (metis)
    qed
  qed
  have cnt: "numSig = count_nonzero q \<and> N \<le> 1024 \<longrightarrow> n' = count_nonzero q'"
    using p1(4) p2(4) by simp
  show ?case using res p2(1,2,3) cnt adj oth bnd by blast
qed

subsection \<open>The search loop and the groups of the pass in \<open>rdoQuant\<close>\<close>

lemma rdo_sbh_cost_keep:
  "minCostInc (rdo_sbh_cost dst resi h lc l f sb n b s) = minCostInc s"
  "minPos (rdo_sbh_cost dst resi h lc l f sb n b s) = minPos s"
  "finalChange (rdo_sbh_cost dst resi h lc l f sb n b s) = finalChange s"
  by (simp_all add: rdo_sbh_cost_def Let_def)

lemma rdo_step_inv:
  assumes "sbh_inv MAX_INT64 q coef scn sp f sb bound s" "n < bound"
  shows "sbh_inv MAX_INT64 q coef scn sp f sb bound
           (sbh_take_min (scn ! (n + sp)) (rdo_sbh_cost q coef h lc l f sb n (scn ! (n + sp)) s))"
proof -
  let ?b = "scn ! (n + sp)"
  let ?s = "rdo_sbh_cost q coef h lc l f sb n ?b s"
  note keep = rdo_sbh_cost_keep [of q coef h lc l f sb n ?b s]
  show ?thesis
  proof (cases "curCost ?s < minCostInc ?s")
    case False
    then have "sbh_take_min ?b ?s = ?s" by (simp add: sbh_take_min_def)
    then show ?thesis using assms(1) sbh_inv_cong [OF keep] by simp
  next
    case True
    then have lt: "curCost ?s < MAX_INT64" using assms(1) keep by (simp add: sbh_inv_def)
    have sel: "(q ! ?b = 0 \<longrightarrow> curChange ?s = 1 \<and> (n < f \<longrightarrow> (if coef ! ?b \<ge> 0 then 0 else 1) = sb))
       \<and> (q ! ?b \<noteq> 0 \<longrightarrow> curChange ?s = 1 \<or> curChange ?s = - 1 \<and> \<not> (n = f \<and> abs32 (q ! ?b) = 1))"
      using lt by (auto simp: rdo_sbh_cost_def Let_def split: if_splits)
    have "sbh_take_min ?b ?s = ?s\<lparr>minCostInc := curCost ?s, finalChange := curChange ?s, minPos := int ?b\<rparr>"
      using True by (simp add: sbh_take_min_def)
    then show ?thesis using lt sel assms(2)
      by (auto simp: sbh_inv_def sbh_selected_def)
  qed
qed

lemma rdo_sbh_search_inv:
  assumes "sbh_inv MAX_INT64 q coef scn sp f sb bound s" "k \<le> bound"
  shows "sbh_inv MAX_INT64 q coef scn sp f sb bound (rdo_sbh_search q coef h scn sp lc l f sb k s)"
  using assms
proof (induction k arbitrary: s)
  case 0
  then show ?case by simp
next
  case (Suc k)
  have "sbh_inv MAX_INT64 q coef scn sp f sb bound
           (sbh_take_min (scn ! (k + sp)) (rdo_sbh_cost q coef h lc l f sb k (scn ! (k + sp)) s))"
    using rdo_step_inv [OF Suc.prems(1)] Suc.prems(2) by simp
  then show ?case using Suc.IH Suc.prems(2) by (simp add: Let_def)
qed

lemma rdo_sbh_search_mono:
  "minCostInc (rdo_sbh_search q coef h scn sp lc l f sb k s) \<le> minCostInc s"
proof (induction k arbitrary: s)
  case 0
  then show ?case by simp
next
  case (Suc k)
  have "minCostInc (sbh_take_min (scn ! (k + sp)) (rdo_sbh_cost q coef h lc l f sb k (scn ! (k + sp)) s))
          \<le> minCostInc s"
    using sbh_take_min_le [of "scn ! (k + sp)" "rdo_sbh_cost q coef h lc l f sb k (scn ! (k + sp)) s"]
    by (simp add: rdo_sbh_cost_keep)
  then show ?case using Suc.IH order_trans by (simp add: Let_def) blast
qed

lemma s64_id: "- 9223372036854775808 \<le> x \<Longrightarrow> x \<le> 9223372036854775807 \<Longrightarrow> s64 x = x"
  unfolding s64_def by (rule signed_take_bit_int_eq_self) simp_all

lemma s64_le: "s64 x \<le> MAX_INT64"
proof -
  have "signed_take_bit 63 x < 2 ^ 63" by (rule signed_take_bit_int_less_exp)
  then show ?thesis by (simp add: s64_def MAX_INT64_def)
qed

lemma s32_range: "- 2147483648 \<le> s32 x \<and> s32 x \<le> 2147483647"
proof -
  have "signed_take_bit 31 x < 2 ^ 31" by (rule signed_take_bit_int_less_exp)
  moreover have "- (2 ^ 31) \<le> signed_take_bit 31 x" by (rule signed_take_bit_int_greater_eq_minus_exp)
  ultimately show ?thesis by (simp add: s32_def)
qed

lemma mult_bound_62:
  assumes "\<bar>a\<bar> \<le> 2147483648" "- 2147483648 \<le> b" "b \<le> (2147483647::int)"
  shows "\<bar>a * b\<bar> \<le> 4611686018427387904"
proof -
  have "\<bar>b\<bar> \<le> 2147483648" using assms by simp
  then have "\<bar>a\<bar> * \<bar>b\<bar> \<le> 2147483648 * 2147483648"
    using assms(1) by (intro mult_mono) simp_all
  then show ?thesis by (simp add: abs_mult)
qed

lemma rdo_cost_last_finite:
  assumes "q ! b \<noteq> 0" "n \<noteq> f" "\<bar>h_rdFactor h\<bar> \<le> 2147483648"
    "- 2147483648 \<le> h_deltaU h ! b" "h_deltaU h ! b \<le> 2147483647"
    "- 2147483648 \<le> h_rateIncDown h ! b" "h_rateIncDown h ! b \<le> 2147483647"
  shows "curCost (rdo_sbh_cost q coef h lc l f sb n b s) < MAX_INT64"
proof -
  define costUp where "costUp = s64 (s64 (h_rdFactor h * s32 (- (h_deltaU h ! b))) + h_rateIncUp h ! b)"
  define v1 where "v1 = h_rdFactor h * (h_deltaU h ! b)"
  define rid where "rid = h_rateIncDown h ! b"
  define d where "d = (if abs32 (q ! b) = 1 then s32 (32768 + h_sigRateDelta h ! b) else 0)"
  define cd0 where "cd0 = s64 (s64 (s64 v1 + rid) - d)"
  define cd where "cd = (if lc = 1 \<and> l = n \<and> abs32 (q ! b) = 1 then s64 (cd0 - 131072) else cd0)"
  have b1: "\<bar>v1\<bar> \<le> 4611686018427387904"
    unfolding v1_def using assms(3,4,5) by (rule mult_bound_62)
  have rr: "- 2147483648 \<le> rid" "rid \<le> 2147483647" using assms(6,7) by (simp_all add: rid_def)
  have dr: "- 2147483648 \<le> d \<and> d \<le> 2147483647"
    using s32_range [of "32768 + h_sigRateDelta h ! b"] by (simp add: d_def)
  have e1: "s64 v1 = v1" using b1 by (intro s64_id) linarith+
  have e2: "s64 (v1 + rid) = v1 + rid" using b1 rr by (intro s64_id) linarith+
  have e3: "s64 (v1 + rid - d) = v1 + rid - d" using b1 rr dr by (intro s64_id) linarith+
  have e4: "s64 (v1 + rid - d - 131072) = v1 + rid - d - 131072"
    using b1 rr dr by (intro s64_id) linarith+
  have c0: "cd0 = v1 + rid - d" unfolding cd0_def e1 e2 e3 ..
  have "cd = (if lc = 1 \<and> l = n \<and> abs32 (q ! b) = 1 then v1 + rid - d - 131072 else v1 + rid - d)"
    unfolding cd_def c0 e4 ..
  then have cdlt: "cd < MAX_INT64"
    using b1 rr dr by (auto simp: MAX_INT64_def)
  have unf: "curCost (rdo_sbh_cost q coef h lc l f sb n b s) = (if costUp < cd then costUp else cd)"
    using assms(1,2)
    by (simp add: rdo_sbh_cost_def Let_def costUp_def cd_def cd0_def v1_def rid_def d_def)
  show ?thesis using cdlt unfolding unf by auto
qed

lemma rdo_sbh_search_finds:
  assumes "l' < k" "q ! (scn ! (l' + sp)) \<noteq> 0" "l' \<noteq> f" "\<bar>h_rdFactor h\<bar> \<le> 2147483648"
    "- 2147483648 \<le> h_deltaU h ! (scn ! (l' + sp))" "h_deltaU h ! (scn ! (l' + sp)) \<le> 2147483647"
    "- 2147483648 \<le> h_rateIncDown h ! (scn ! (l' + sp))"
    "h_rateIncDown h ! (scn ! (l' + sp)) \<le> 2147483647"
  shows "minCostInc (rdo_sbh_search q coef h scn sp lc l f sb k s) < MAX_INT64"
  using assms(1)
proof (induction k arbitrary: s)
  case 0
  then show ?case by simp
next
  case (Suc k)
  let ?s = "sbh_take_min (scn ! (k + sp)) (rdo_sbh_cost q coef h lc l f sb k (scn ! (k + sp)) s)"
  show ?case
  proof (cases "l' = k")
    case True
    have "minCostInc ?s \<le> curCost (rdo_sbh_cost q coef h lc l f sb k (scn ! (k + sp)) s)"
      by (rule sbh_take_min_cur)
    also have "\<dots> < MAX_INT64" using rdo_cost_last_finite [OF _ _ assms(4)] assms True by simp
    finally have "minCostInc ?s < MAX_INT64" .
    then show ?thesis
      using rdo_sbh_search_mono [of q coef h scn sp lc l f sb k ?s] by (simp add: Let_def)
  next
    case False
    then have "l' < k" using Suc.prems by simp
    then show ?thesis using Suc.IH by (simp add: Let_def)
  qed
qed

lemma s32_mod2: "s32 y mod 2 = y mod 2"
proof -
  have "even (signed_take_bit 31 y) = even y" by (rule even_signed_take_bit_iff)
  then show ?thesis unfolding s32_def by presburger
qed

lemma fold_s32_parity:
  "fold (\<lambda>n s. s32 (s + g n)) xs a mod 2 = (a + sum_list (map g xs)) mod 2"
proof (induction xs arbitrary: a)
  case Nil
  then show ?case by simp
next
  case (Cons x xs)
  have "(s32 (a + g x) + sum_list (map g xs)) mod 2 = (a + g x + sum_list (map g xs)) mod 2"
    by (rule mod_add_cong [OF s32_mod2 refl])
  then show ?case using Cons.IH [of "s32 (a + g x)"] by (simp add: add.assoc)
qed

lemma rdo_absSum_parity:
  assumes "0 \<le> lastNZPos q scn sp 16"
  shows "u32 (rdo_absSum q scn sp (firstNZPos q scn sp (nat (lastNZPos q scn sp 16)) 0)
           (nat (lastNZPos q scn sp 16))) AND 1
       = group_abs_sum q scn sp mod 2"
proof -
  let ?l = "nat (lastNZPos q scn sp 16)"
  let ?f = "firstNZPos q scn sp ?l 0"
  note fl = group_first_last [OF assms]
  have "group_abs_sum q scn sp = (\<Sum>m\<leftarrow>[?f..<Suc ?l]. \<bar>q ! (scn ! (m + sp))\<bar>)"
    unfolding group_abs_sum_def SCAN_SET_SIZE_def
    using fl by (intro sum_list_upt_zero_outside) auto
  then have "group_abs_sum q scn sp mod 2 = (\<Sum>m\<leftarrow>[?f..<Suc ?l]. q ! (scn ! (m + sp))) mod 2"
    using sum_list_abs_parity [of "\<lambda>m. q ! (scn ! (m + sp))" "[?f..<Suc ?l]"] by simp
  moreover have "rdo_absSum q scn sp ?f ?l mod 2 = (\<Sum>m\<leftarrow>[?f..<Suc ?l]. q ! (scn ! (m + sp))) mod 2"
    unfolding rdo_absSum_def
    using fold_s32_parity [of "\<lambda>m. q ! (scn ! (m + sp))" "[?f..<Suc ?l]" 0] by simp
  ultimately have "u32 (rdo_absSum q scn sp ?f ?l) mod 2 = group_abs_sum q scn sp mod 2"
    by (simp add: u32_mod2)
  then show ?thesis by (simp add: and_one_eq)
qed

lemma rdo_sbh_group_props:
  assumes sc: "scan_ok N scn" and len: "length q = N"
    and lh: "N \<le> length (h_deltaU h)" "N \<le> length (h_rateIncDown h)"
    and sp: "push_bit LOG2_SCAN_SET_SIZE k + 16 \<le> N"
    and ag: "signs_agree q coef" and rg: "in_int16 q"
    and hr: "in_int32 (h_deltaU h)" "in_int32 (h_rateIncDown h)" "\<bar>h_rdFactor h\<bar> \<le> 2147483648"
  shows "\<exists>q' n' lc'. rdo_sbh_group coef h scn k (q, numSig, lastCG) = Some (q', n', lc')
           \<and> length q' = N \<and> signs_agree q' coef \<and> in_int16 q'
           \<and> (numSig = count_nonzero q \<and> N \<le> 1024 \<longrightarrow> n' = count_nonzero q')
           \<and> group_adjusted q q' scn k
           \<and> (\<forall>i<N. (\<forall>m<16. i \<noteq> scn ! (m + push_bit LOG2_SCAN_SET_SIZE k)) \<longrightarrow> q' ! i = q ! i)
           \<and> (\<forall>i<N. \<bar>q' ! i\<bar> \<le> \<bar>q ! i\<bar> + 1)"
proof -
  let ?sp = "push_bit LOG2_SCAN_SET_SIZE k"
  let ?li = "lastNZPos q scn ?sp 16"
  let ?l = "nat ?li"
  let ?f = "firstNZPos q scn ?sp ?l 0"
  let ?sb = "if q ! (scn ! (?sp + ?f)) > 0 then 0 else 1 :: int"
  let ?mm = "0 \<le> ?li \<and> ?li - int ?f \<ge> SBH_THRESHOLD \<and> ?sb \<noteq> group_abs_sum q scn ?sp mod 2"
  have pm: "parity_mismatch q scn k \<longleftrightarrow> ?mm"
    by (simp add: parity_mismatch_def Let_def SCAN_SET_SIZE_def)
  show ?thesis
  proof (cases ?mm)
    case False
    have npm: "\<not> parity_mismatch q scn k" using False pm by simp
    have ab: "0 \<le> ?li \<Longrightarrow> u32 (rdo_absSum q scn ?sp ?f ?l) AND 1 = group_abs_sum q scn ?sp mod 2"
      by (rule rdo_absSum_parity)
    have "\<exists>lc'. rdo_sbh_group coef h scn k (q, numSig, lastCG) = Some (q, numSig, lc')"
      using False ab by (auto simp: rdo_sbh_group_def Let_def SCAN_SET_SIZE_def)
    then show ?thesis using len ag rg group_adjusted_refl [OF npm] by auto
  next
    case True
    then have l0: "0 \<le> ?li" and th: "?li - int ?f \<ge> SBH_THRESHOLD"
      and mm: "?sb \<noteq> group_abs_sum q scn ?sp mod 2" by auto
    note fl = group_first_last [OF l0]
    have ab: "u32 (rdo_absSum q scn ?sp ?f ?l) AND 1 = group_abs_sum q scn ?sp mod 2"
      using l0 by (rule rdo_absSum_parity)
    define start where "start = (if lastCG = 1 then ?l else SCAN_SET_SIZE - 1)"
    define s where "s = rdo_sbh_search q coef h scn ?sp lastCG ?l ?f ?sb (Suc start) (sbh_init MAX_INT64)"
    have st: "?l \<le> start" "Suc start \<le> 16"
      using fl(1) by (auto simp: start_def SCAN_SET_SIZE_def)
    have inv: "sbh_inv MAX_INT64 q coef scn ?sp ?f ?sb (Suc start) s"
      unfolding s_def by (intro rdo_sbh_search_inv sbh_inv_init) simp
    have lf: "?l \<noteq> ?f" using th l0 by (simp add: SBH_THRESHOLD_def)
    have mpN: "scn ! (?l + ?sp) < N" using scan_nth_lt [OF sc, of "?l + ?sp"] fl(1) sp by simp
    then have dlr: "- 2147483648 \<le> h_deltaU h ! (scn ! (?l + ?sp))"
      "h_deltaU h ! (scn ! (?l + ?sp)) \<le> 2147483647"
      "- 2147483648 \<le> h_rateIncDown h ! (scn ! (?l + ?sp))"
      "h_rateIncDown h ! (scn ! (?l + ?sp)) \<le> 2147483647"
      using hr lh by (auto simp: in_int32_iff)
    have fin: "minCostInc s < MAX_INT64"
      unfolding s_def using st(1) fl(3) lf hr(3) dlr
      by (intro rdo_sbh_search_finds [of ?l]) auto
    then have "sbh_selected q coef scn ?sp ?f ?sb (Suc start) s"
      using inv by (simp add: sbh_inv_def)
    then have sel: "sbh_selected q coef scn ?sp ?f ?sb 16 s"
      using st(2) by (rule sbh_selected_mono)
    from sbh_group_adjust [OF sc len sp ag rg l0 mm sel, of numSig]
    obtain q' n' where ap: "sbh_apply q coef numSig s = Some (q', n')"
      and p: "length q' = N" "signs_agree q' coef" "in_int16 q'"
        "numSig = count_nonzero q \<and> N \<le> 1024 \<longrightarrow> n' = count_nonzero q'"
        "sign_hidden q' scn k" "group_change q q' scn k = 1" "q' ! (scn ! (?sp + ?f)) \<noteq> 0"
        "\<forall>i<N. (\<forall>m<16. i \<noteq> scn ! (m + ?sp)) \<longrightarrow> q' ! i = q ! i"
        "\<forall>i<N. \<bar>q' ! i\<bar> \<le> \<bar>q ! i\<bar> + 1"
      by blast
    have "rdo_sbh_group coef h scn k (q, numSig, lastCG) = Some (q', n', 0)"
      using True ab ap
      by (simp add: rdo_sbh_group_def Let_def SCAN_SET_SIZE_def s_def start_def)
    moreover have "group_adjusted q q' scn k"
      using p(5,6,7) True pm
      by (simp add: group_adjusted_def first_kept_def Let_def SCAN_SET_SIZE_def)
    ultimately show ?thesis using p by blast
  qed
qed

lemma rdo_sbh_groups_props:
  assumes sc: "scan_ok N scn"
    and lh: "N \<le> length (h_deltaU h)" "N \<le> length (h_rateIncDown h)"
    and hr: "in_int32 (h_deltaU h)" "in_int32 (h_rateIncDown h)" "\<bar>h_rdFactor h\<bar> \<le> 2147483648"
    and K: "16 * K \<le> N"
    and len: "length q = N" and ag: "signs_agree q coef" and rg: "in_int16 q"
  shows "\<exists>q' n' lc'. rdo_sbh_groups coef h scn K (q, numSig, lastCG) = Some (q', n', lc')
           \<and> length q' = N \<and> signs_agree q' coef \<and> in_int16 q'
           \<and> (numSig = count_nonzero q \<and> N \<le> 1024 \<longrightarrow> n' = count_nonzero q')
           \<and> (\<forall>k<K. group_adjusted q q' scn k)
           \<and> (\<forall>i<N. (\<forall>k<K. \<forall>m<16. i \<noteq> scn ! (m + 16 * k)) \<longrightarrow> q' ! i = q ! i)
           \<and> (\<forall>i<N. \<bar>q' ! i\<bar> \<le> \<bar>q ! i\<bar> + 1)"
  using K len ag rg
proof (induction K arbitrary: q numSig lastCG)
  case 0
  then show ?case by simp
next
  case (Suc K)
  have sp: "push_bit LOG2_SCAN_SET_SIZE K + 16 \<le> N" using Suc.prems(1) by (simp add: subPos_eq)
  from rdo_sbh_group_props [OF sc Suc.prems(2) lh sp Suc.prems(3,4) hr, of numSig lastCG]
  obtain q1 n1 lc1 where g: "rdo_sbh_group coef h scn K (q, numSig, lastCG) = Some (q1, n1, lc1)"
    and p1: "length q1 = N" "signs_agree q1 coef" "in_int16 q1"
      "numSig = count_nonzero q \<and> N \<le> 1024 \<longrightarrow> n1 = count_nonzero q1"
      "group_adjusted q q1 scn K"
      "\<forall>i<N. (\<forall>m<16. i \<noteq> scn ! (m + 16 * K)) \<longrightarrow> q1 ! i = q ! i"
      "\<forall>i<N. \<bar>q1 ! i\<bar> \<le> \<bar>q ! i\<bar> + 1"
    unfolding subPos_eq by blast
  have K': "16 * K \<le> N" using Suc.prems(1) by simp
  from Suc.IH [OF K' p1(1,2,3), of n1 lc1]
  obtain q' n' lc' where r: "rdo_sbh_groups coef h scn K (q1, n1, lc1) = Some (q', n', lc')"
    and p2: "length q' = N" "signs_agree q' coef" "in_int16 q'"
      "n1 = count_nonzero q1 \<and> N \<le> 1024 \<longrightarrow> n' = count_nonzero q'"
      "\<forall>k<K. group_adjusted q1 q' scn k"
      "\<forall>i<N. (\<forall>k<K. \<forall>m<16. i \<noteq> scn ! (m + 16 * k)) \<longrightarrow> q' ! i = q1 ! i"
      "\<forall>i<N. \<bar>q' ! i\<bar> \<le> \<bar>q1 ! i\<bar> + 1"
    by blast
  have res: "rdo_sbh_groups coef h scn (Suc K) (q, numSig, lastCG) = Some (q', n', lc')"
    using g r by simp
  have inK: "\<And>m::nat. m < 16 \<Longrightarrow> scn ! (m + 16 * K) < N"
    using scan_nth_lt [OF sc] Suc.prems(1) by simp
  have notbelow: "\<And>(m::nat) k (m'::nat). m < 16 \<Longrightarrow> k < K \<Longrightarrow> m' < 16 \<Longrightarrow>
      scn ! (m + 16 * K) \<noteq> scn ! (m' + 16 * k)"
    using groups_disjoint [OF sc, of K] Suc.prems(1) by simp
  have q'K: "\<And>m::nat. m < 16 \<Longrightarrow> q' ! (scn ! (m + 16 * K)) = q1 ! (scn ! (m + 16 * K))"
    using p2(6) inK notbelow by blast
  have q1k: "\<And>(m::nat) k. m < 16 \<Longrightarrow> k < K \<Longrightarrow> q1 ! (scn ! (m + 16 * k)) = q ! (scn ! (m + 16 * k))"
  proof -
    fix m k :: nat assume h: "m < 16" "k < K"
    have "scn ! (m + 16 * k) < N" using scan_nth_lt [OF sc] Suc.prems(1) h by simp
    moreover have "\<forall>m'<16. scn ! (m + 16 * k) \<noteq> scn ! (m' + 16 * K)"
      using notbelow h by metis
    ultimately show "q1 ! (scn ! (m + 16 * k)) = q ! (scn ! (m + 16 * k))"
      using p1(6) by blast
  qed
  have adj: "\<forall>k<Suc K. group_adjusted q q' scn k"
  proof (intro allI impI)
    fix k assume "k < Suc K"
    show "group_adjusted q q' scn k"
    proof (cases "k = K")
      case True
      have "group_adjusted q q' scn K = group_adjusted q q1 scn K"
        by (rule group_adjusted_cong) (simp_all add: subPos_eq q'K)
      then show ?thesis using p1(5) True by simp
    next
      case False
      then have kK: "k < K" using \<open>k < Suc K\<close> by simp
      have "group_adjusted q1 q' scn k = group_adjusted q q' scn k"
        by (rule group_adjusted_cong) (simp_all add: subPos_eq q1k [OF _ kK])
      then show ?thesis using p2(5) kK by simp
    qed
  qed
  have oth: "\<forall>i<N. (\<forall>k<Suc K. \<forall>m<16. i \<noteq> scn ! (m + 16 * k)) \<longrightarrow> q' ! i = q ! i"
  proof (intro allI impI)
    fix i assume i: "i < N" "\<forall>k<Suc K. \<forall>m<16. i \<noteq> scn ! (m + 16 * k)"
    then have "q' ! i = q1 ! i" using p2(6) by simp
    moreover have "q1 ! i = q ! i" using p1(6) i by simp
    ultimately show "q' ! i = q ! i" by simp
  qed
  have bnd: "\<forall>i<N. \<bar>q' ! i\<bar> \<le> \<bar>q ! i\<bar> + 1"
  proof (intro allI impI)
    fix i assume i: "i < N"
    show "\<bar>q' ! i\<bar> \<le> \<bar>q ! i\<bar> + 1"
    proof (cases "\<exists>m<16. i = scn ! (m + 16 * K)")
      case True
      then have "q' ! i = q1 ! i" using q'K by auto
      then show ?thesis using p1(7) i by simp
    next
      case False
      then have "q1 ! i = q ! i" using p1(6) i by simp
      then show ?thesis using p2(7) i by (metis)
    qed
  qed
  have cnt: "numSig = count_nonzero q \<and> N \<le> 1024 \<longrightarrow> n' = count_nonzero q'"
    using p1(4) p2(4) by simp
  show ?case using res p2(1,2,3) cnt adj oth bnd by blast
qed


section \<open>The reverse scan of \<open>rdoQuant\<close>\<close>

subsection \<open>The level search\<close>

text \<open>Projections of the pieces of the reverse scan.\<close>

lemma rdo_coded_level_stop:
  assumes "\<not> max (u32 (m - 1)) 1 \<le> lvl"
  shows "rdo_coded_level env b sig bl g la gr cc1 m err1 lvl (level, cc, cs, e2) = (level, cc, cs, e2)"
  by (subst rdo_coded_level.simps) (simp only: Let_def assms if_False)

lemma rdo_coded_level_step:
  assumes "max (u32 (m - 1)) 1 \<le> lvl"
  shows "\<exists>level' cc' cs' e'.
           rdo_coded_level env b sig bl g la gr cc1 m err1 lvl (level, cc, cs, e2)
             = rdo_coded_level env b sig bl g la gr cc1 m err1 (u32 (lvl - 1)) (level', cc', cs', e')
           \<and> (level' = level \<or> level' = lvl)"
  apply (subst rdo_coded_level.simps)
  apply (simp only: Let_def assms if_True)
  apply (intro exI conjI)
   apply (rule refl)
  apply simp
  done

lemma rdo_coded_level_bounds:
  assumes "level0 = 0 \<or> (1 \<le> level0 \<and> level0 \<le> m)" "lvl \<le> m"
  shows "fst (rdo_coded_level env b sig bl g la gr cc1 m err1 lvl (level0, cc, cs, e2)) = 0
       \<or> (1 \<le> fst (rdo_coded_level env b sig bl g la gr cc1 m err1 lvl (level0, cc, cs, e2))
          \<and> fst (rdo_coded_level env b sig bl g la gr cc1 m err1 lvl (level0, cc, cs, e2)) \<le> m)"
  using assms
proof (induction "nat lvl" arbitrary: lvl level0 cc cs e2 rule: less_induct)
  case less
  show ?case
  proof (cases "max (u32 (m - 1)) 1 \<le> lvl")
    case False
    then show ?thesis using less.prems by (simp add: rdo_coded_level_stop)
  next
    case True
    then have l1: "1 \<le> lvl" by simp
    then have "0 \<le> lvl - 1" by simp
    then have ul: "u32 (lvl - 1) \<le> lvl - 1"
      unfolding u32_def by (simp only: take_bit_int_less_eq_self_iff)
    have u0: "0 \<le> u32 (lvl - 1)" unfolding u32_def by simp
    from rdo_coded_level_step [OF True, of env b sig bl g la gr cc1 err1 level0 cc cs e2]
    obtain level' cc' cs' e' where
      eq: "rdo_coded_level env b sig bl g la gr cc1 m err1 lvl (level0, cc, cs, e2)
             = rdo_coded_level env b sig bl g la gr cc1 m err1 (u32 (lvl - 1)) (level', cc', cs', e')"
      and lv: "level' = level0 \<or> level' = lvl" by blast
    have a: "level' = 0 \<or> (1 \<le> level' \<and> level' \<le> m)" using lv less.prems l1 by auto
    have b: "u32 (lvl - 1) \<le> m" using ul less.prems(2) by simp
    have c: "nat (u32 (lvl - 1)) < nat lvl" using ul u0 l1 by simp
    show ?thesis unfolding eq by (rule less.hyps [OF c a b])
  qed
qed

lemma in_int32_update:
  assumes "in_int32 xs" "- 2147483648 \<le> v" "v \<le> 2147483647"
  shows "in_int32 (xs[i := v])"
  unfolding in_int32_iff
proof (intro allI impI)
  fix j assume "j < length (xs[i := v])"
  then show "- 2147483648 \<le> xs[i := v] ! j \<and> xs[i := v] ! j \<le> 2147483647"
    using assms by (cases "j = i") (auto simp: in_int32_iff)
qed

lemma in_int32_update_s32: "in_int32 xs \<Longrightarrow> in_int32 (xs[i := s32 v])"
  using s32_range [of v] by (intro in_int32_update) auto

lemma rdo_level_est_keeps:
  "r_dstCoeff (snd (rdo_level_est env sp b pat m c bl g la st)) = r_dstCoeff st"
  "r_lastScanPos (snd (rdo_level_est env sp b pat m c bl g la st)) = r_lastScanPos st"
  "r_cgLastScanPos (snd (rdo_level_est env sp b pat m c bl g la st)) = r_cgLastScanPos st"
  "r_deltaU (snd (rdo_level_est env sp b pat m c bl g la st)) = r_deltaU st"
  "r_rateIncDown (snd (rdo_level_est env sp b pat m c bl g la st)) = r_rateIncDown st"
  by (simp_all add: rdo_level_est_def Let_def split: prod.splits)

lemma rdo_coded_level_res:
  assumes "0 \<le> m"
  shows "0 \<le> fst (rdo_coded_level env b sig bl g la gr c m err1 m (0, cc, cs, e2))
       \<and> fst (rdo_coded_level env b sig bl g la gr c m err1 m (0, cc, cs, e2)) \<le> m"
  using rdo_coded_level_bounds [of 0 m m env b sig bl g la gr c err1 cc cs e2] assms by auto

lemma rdo_level_est_level:
  assumes "0 \<le> m"
  shows "0 \<le> fst (rdo_level_est env sp b pat m c bl g la st)
       \<and> fst (rdo_level_est env sp b pat m c bl g la st) \<le> m"
  unfolding rdo_level_est_def Let_def split_beta
  using assms by (simp add: rdo_coded_level_res [OF assms])

text \<open>The level search returns zero, the candidate level or the level below it.\<close>

lemma rdo_coded_level_values:
  assumes m: "1 \<le> m" "m \<le> 4294967296"
  shows "fst (rdo_coded_level env b sig bl g la gr cc1 m err1 m (0, cc, cs, e2))
           \<in> {0, m, max (m - 1) 1}"
proof -
  have u1: "u32 (m - 1) = m - 1" using m by (intro u32_id) auto
  have s1: "max (u32 (m - 1)) 1 \<le> m" using m u1 by simp
  from rdo_coded_level_step [OF s1, of env b sig bl g la gr cc1 err1 0 cc cs e2]
  obtain l1 c1 d1 e1 where
    eq1: "rdo_coded_level env b sig bl g la gr cc1 m err1 m (0, cc, cs, e2)
            = rdo_coded_level env b sig bl g la gr cc1 m err1 (m - 1) (l1, c1, d1, e1)"
    and l1: "l1 = 0 \<or> l1 = m"
    unfolding u1 by blast
  show ?thesis
  proof (cases "m = 1")
    case True
    have "\<not> max (u32 (m - 1)) 1 \<le> m - 1" using True u1 by simp
    then have "rdo_coded_level env b sig bl g la gr cc1 m err1 (m - 1) (l1, c1, d1, e1)
                 = (l1, c1, d1, e1)"
      by (rule rdo_coded_level_stop)
    then show ?thesis using eq1 l1 by auto
  next
    case False
    then have m2: "2 \<le> m" using m by simp
    have s2: "max (u32 (m - 1)) 1 \<le> m - 1" using m2 u1 by simp
    have u2: "u32 (m - 1 - 1) = m - 2" using m m2 by (intro trans [OF u32_id]) auto
    from rdo_coded_level_step [OF s2, of env b sig bl g la gr cc1 err1 l1 c1 d1 e1]
    obtain l2 c2 d2 e2' where
      eq2: "rdo_coded_level env b sig bl g la gr cc1 m err1 (m - 1) (l1, c1, d1, e1)
              = rdo_coded_level env b sig bl g la gr cc1 m err1 (m - 2) (l2, c2, d2, e2')"
      and l2: "l2 = l1 \<or> l2 = m - 1"
      unfolding u2 by blast
    have "\<not> max (u32 (m - 1)) 1 \<le> m - 2" using m2 u1 by simp
    then have "rdo_coded_level env b sig bl g la gr cc1 m err1 (m - 2) (l2, c2, d2, e2')
                 = (l2, c2, d2, e2')"
      by (rule rdo_coded_level_stop)
    then show ?thesis using eq1 eq2 l1 l2 m2 by auto
  qed
qed

lemma rdo_coded_level_values0:
  assumes m: "0 \<le> m" "m \<le> 4294967296"
  shows "fst (rdo_coded_level env b sig bl g la gr cc1 m err1 m (0, cc, cs, e2)) = 0
       \<or> fst (rdo_coded_level env b sig bl g la gr cc1 m err1 m (0, cc, cs, e2)) = m
       \<or> fst (rdo_coded_level env b sig bl g la gr cc1 m err1 m (0, cc, cs, e2)) = max (m - 1) 1"
proof (cases "m = 0")
  case True
  have "\<not> max (u32 (m - 1)) 1 \<le> m" using True by simp
  then have "rdo_coded_level env b sig bl g la gr cc1 m err1 m (0, cc, cs, e2) = (0, cc, cs, e2)"
    by (rule rdo_coded_level_stop)
  then show ?thesis by simp
next
  case False
  then have "1 \<le> m" using m by simp
  then show ?thesis
    using rdo_coded_level_values [of m env b sig bl g la gr cc1 err1 cc cs e2] m(2) by auto
qed

lemma rdo_level_est_values:
  assumes "0 \<le> m" "m \<le> 4294967296"
  shows "fst (rdo_level_est env sp b pat m c bl g la st) \<in> {0, m, max (m - 1) 1}"
  unfolding rdo_level_est_def Let_def split_beta
  using assms by (simp add: rdo_coded_level_values0 [OF assms])

subsection \<open>One scan position\<close>

lemma rdo_record_fields:
  "r_dstCoeff (rdo_record env sp b level c bl g la st) = (r_dstCoeff st)[b := s32 level]"
  "r_lastScanPos (rdo_record env sp b level c bl g la st) = r_lastScanPos st"
  "r_cgLastScanPos (rdo_record env sp b level c bl g la st) = r_cgLastScanPos st"
  "length (r_deltaU (rdo_record env sp b level c bl g la st)) = length (r_deltaU st)"
  "length (r_rateIncDown (rdo_record env sp b level c bl g la st)) = length (r_rateIncDown st)"
  by (simp_all add: rdo_record_def Let_def)

lemma rdo_record_int32:
  "in_int32 (r_deltaU st) \<Longrightarrow> in_int32 (r_deltaU (rdo_record env sp b level c bl g la st))"
  "in_int32 (r_rateIncDown st) \<Longrightarrow> in_int32 (r_rateIncDown (rdo_record env sp b level c bl g la st))"
  by (simp_all add: rdo_record_def Let_def in_int32_update_s32 in_int32_update)

lemma rdo_update_cabac_keeps:
  "r_dstCoeff (rdo_update_cabac env sp level bl st) = r_dstCoeff st"
  "r_lastScanPos (rdo_update_cabac env sp level bl st) = r_lastScanPos st"
  "r_cgLastScanPos (rdo_update_cabac env sp level bl st) = r_cgLastScanPos st"
  "r_deltaU (rdo_update_cabac env sp level bl st) = r_deltaU st"
  "r_rateIncDown (rdo_update_cabac env sp level bl st) = r_rateIncDown st"
  by (simp_all add: rdo_update_cabac_def Let_def)

lemma rdo_coef_coded_fields:
  assumes "0 \<le> m" "m \<le> 32768"
  shows "\<exists>level. 0 \<le> level \<and> level \<le> m
      \<and> r_dstCoeff (rdo_coef_coded env sp b pat m st) = (r_dstCoeff st)[b := level]"
    and "r_lastScanPos (rdo_coef_coded env sp b pat m st) = r_lastScanPos st"
    and "r_cgLastScanPos (rdo_coef_coded env sp b pat m st) = r_cgLastScanPos st"
    and "length (r_deltaU (rdo_coef_coded env sp b pat m st)) = length (r_deltaU st)"
    and "length (r_rateIncDown (rdo_coef_coded env sp b pat m st)) = length (r_rateIncDown st)"
    and "in_int32 (r_deltaU st) \<Longrightarrow> in_int32 (r_deltaU (rdo_coef_coded env sp b pat m st))"
    and "in_int32 (r_rateIncDown st) \<Longrightarrow> in_int32 (r_rateIncDown (rdo_coef_coded env sp b pat m st))"
proof -
  define c where "c = u32 (shr (u32 (r_c1Idx st - 8)) 31 + (shr (s32 (- s32 (r_c2Idx st))) 31 + 1) * 2)"
  define bl :: int where "bl = drop_bit (nat (c * 2)) 217 AND 3"
  define g where "g = greaterOneBits (e_est env) ! nat (u32 (4 * r_ctxSet st + r_c1 st))"
  define la where "la = levelAbsBits (e_est env) ! nat (u32 (r_ctxSet st + r_c2 st))"
  define r where "r = rdo_level_est env sp b pat m c bl g la st"
  have eq: "rdo_coef_coded env sp b pat m st
     = rdo_update_cabac env sp (fst r) bl (rdo_record env sp b (fst r) c bl g la (snd r))"
    unfolding rdo_coef_coded_def Let_def split_beta c_def bl_def g_def la_def r_def by simp
  have lv: "0 \<le> fst r" "fst r \<le> m" using rdo_level_est_level [OF assms(1), of env sp b pat c bl g la st] unfolding r_def by simp_all
  have s: "s32 (fst r) = fst r" using lv assms by (intro s32_id) linarith+
  have k: "r_dstCoeff (snd r) = r_dstCoeff st" "r_lastScanPos (snd r) = r_lastScanPos st"
    "r_cgLastScanPos (snd r) = r_cgLastScanPos st" "r_deltaU (snd r) = r_deltaU st"
    "r_rateIncDown (snd r) = r_rateIncDown st"
    unfolding r_def by (rule rdo_level_est_keeps)+
  show "\<exists>level. 0 \<le> level \<and> level \<le> m
      \<and> r_dstCoeff (rdo_coef_coded env sp b pat m st) = (r_dstCoeff st)[b := level]"
    using lv by (intro exI [of _ "fst r"]) (simp add: eq rdo_update_cabac_keeps rdo_record_fields k s)
  show "r_lastScanPos (rdo_coef_coded env sp b pat m st) = r_lastScanPos st"
    by (simp add: eq rdo_update_cabac_keeps rdo_record_fields k)
  show "r_cgLastScanPos (rdo_coef_coded env sp b pat m st) = r_cgLastScanPos st"
    by (simp add: eq rdo_update_cabac_keeps rdo_record_fields k)
  show "length (r_deltaU (rdo_coef_coded env sp b pat m st)) = length (r_deltaU st)"
    by (simp add: eq rdo_update_cabac_keeps rdo_record_fields k)
  show "length (r_rateIncDown (rdo_coef_coded env sp b pat m st)) = length (r_rateIncDown st)"
    by (simp add: eq rdo_update_cabac_keeps rdo_record_fields k)
  show "in_int32 (r_deltaU st) \<Longrightarrow> in_int32 (r_deltaU (rdo_coef_coded env sp b pat m st))"
    using rdo_record_int32(1) [of "snd r"] by (simp add: eq rdo_update_cabac_keeps k)
  show "in_int32 (r_rateIncDown st) \<Longrightarrow> in_int32 (r_rateIncDown (rdo_coef_coded env sp b pat m st))"
    using rdo_record_int32(2) [of "snd r"] by (simp add: eq rdo_update_cabac_keeps k)
qed

text \<open>What one step of the reverse scan does to the fields of the invariant.\<close>

lemma rdo_coef_fields:
  fixes pat msk :: int
  assumes m: "\<bar>r_dstCoeff st ! (scan (e_cp env) ! (16 * cg + n))\<bar> \<le> 32768"
  defines "sp \<equiv> 16 * cg + n"
  defines "b \<equiv> scan (e_cp env) ! (16 * cg + n)"
  defines "st' \<equiv> rdo_coef env cg pat msk n st"
  defines "hit \<equiv> r_dstCoeff st ! b \<noteq> 0 \<and> r_lastScanPos st < 0"
  shows "r_lastScanPos st' = (if hit then int sp else r_lastScanPos st)"
    and "r_cgLastScanPos st' = (if hit then int cg else r_cgLastScanPos st)"
    and "if 0 \<le> r_lastScanPos st'
         then \<exists>level. 0 \<le> level \<and> level \<le> \<bar>r_dstCoeff st ! b\<bar>
                \<and> r_dstCoeff st' = (r_dstCoeff st)[b := level]
         else r_dstCoeff st' = r_dstCoeff st"
    and "length (r_deltaU st') = length (r_deltaU st)"
    and "length (r_rateIncDown st') = length (r_rateIncDown st)"
    and "in_int32 (r_deltaU st) \<Longrightarrow> in_int32 (r_deltaU st')"
    and "in_int32 (r_rateIncDown st) \<Longrightarrow> in_int32 (r_rateIncDown st')"
proof -
  define mx where "mx = u32 (abs32 (r_dstCoeff st ! b))"
  have a: "abs32 (r_dstCoeff st ! b) = \<bar>r_dstCoeff st ! b\<bar>"
    unfolding abs32_def using m by (intro s32_id) (auto simp: b_def)
  have mx: "mx = \<bar>r_dstCoeff st ! b\<bar>"
    unfolding mx_def a using m by (intro u32_id) (auto simp: b_def)
  have mx0: "0 \<le> mx" "mx \<le> 32768" using mx m by (auto simp: b_def)
  have hit: "hit \<longleftrightarrow> mx > 0 \<and> r_lastScanPos st < 0" unfolding hit_def mx by auto
  define st2 where "st2 = rdo_coef_start env cg sp b mx st"
  define st3 where "st3 = (if r_lastScanPos st2 \<ge> 0
                then rdo_coef_coded env sp b pat mx st2
                else st2\<lparr>r_costCoeff := (r_costCoeff st2)[sp := d_of_int (e_fp env) 0],
                        r_baseCost := d_add (e_fp env) (r_baseCost st2) (r_costCoeff0 st2 ! sp)\<rparr>)"
  have spe: "push_bit MLS_CG_SIZE cg + n = sp"
    by (simp add: sp_def MLS_CG_SIZE_def push_bit_eq_mult)
  have eq: "st' = rdo_coef_stats env sp b msk n st3"
    unfolding st'_def rdo_coef_def Let_def spe st3_def st2_def mx_def b_def sp_def ..
  have k: "r_dstCoeff st' = r_dstCoeff st3" "r_lastScanPos st' = r_lastScanPos st3"
    "r_cgLastScanPos st' = r_cgLastScanPos st3" "r_deltaU st' = r_deltaU st3"
    "r_rateIncDown st' = r_rateIncDown st3"
    unfolding eq rdo_coef_stats_def Let_def by simp_all
  have k2: "r_dstCoeff st2 = r_dstCoeff st" "r_deltaU st2 = r_deltaU st"
    "r_rateIncDown st2 = r_rateIncDown st"
    "r_lastScanPos st2 = (if hit then int sp else r_lastScanPos st)"
    "r_cgLastScanPos st2 = (if hit then int cg else r_cgLastScanPos st)"
    unfolding st2_def rdo_coef_start_def Let_def hit by simp_all
  have l3: "r_lastScanPos st3 = r_lastScanPos st2" "r_cgLastScanPos st3 = r_cgLastScanPos st2"
    unfolding st3_def by (simp_all add: rdo_coef_coded_fields(2,3) [OF mx0])
  show "r_lastScanPos st' = (if hit then int sp else r_lastScanPos st)"
    unfolding k l3 k2 ..
  show "r_cgLastScanPos st' = (if hit then int cg else r_cgLastScanPos st)"
    unfolding k l3 k2 ..
  show "if 0 \<le> r_lastScanPos st'
         then \<exists>level. 0 \<le> level \<and> level \<le> \<bar>r_dstCoeff st ! b\<bar>
                \<and> r_dstCoeff st' = (r_dstCoeff st)[b := level]
         else r_dstCoeff st' = r_dstCoeff st"
    unfolding k(1) k(2) l3
    using rdo_coef_coded_fields(1) [OF mx0, of env sp b pat st2]
    by (simp add: st3_def k2(1) mx)
  show "length (r_deltaU st') = length (r_deltaU st)"
    unfolding k st3_def using rdo_coef_coded_fields(4) [OF mx0, of env sp b pat st2]
    by (simp add: k2)
  show "length (r_rateIncDown st') = length (r_rateIncDown st)"
    unfolding k st3_def using rdo_coef_coded_fields(5) [OF mx0, of env sp b pat st2]
    by (simp add: k2)
  show "in_int32 (r_deltaU st) \<Longrightarrow> in_int32 (r_deltaU st')"
    unfolding k st3_def using rdo_coef_coded_fields(6) [OF mx0, of st2 env sp b pat]
    by (simp add: k2)
  show "in_int32 (r_rateIncDown st) \<Longrightarrow> in_int32 (r_rateIncDown st')"
    unfolding k st3_def using rdo_coef_coded_fields(7) [OF mx0, of st2 env sp b pat]
    by (simp add: k2)
qed

lemma mls16: "push_bit MLS_CG_SIZE (1::nat) = 16"
  by (simp add: MLS_CG_SIZE_def)

text \<open>One step of the reverse scan keeps the invariant, one scan position lower.\<close>

lemma rdo_coef_inv:
  fixes pat msk :: int
  assumes sc: "scan_ok N (scan (e_cp env))" and nq: "in_int16 nq" "length nq = N"
    and n: "n < 16" and p: "16 * cg + n < N"
    and inv: "rdo_inv N (scan (e_cp env)) nq (Suc (16 * cg + n)) st"
  shows "rdo_inv N (scan (e_cp env)) nq (16 * cg + n) (rdo_coef env cg pat msk n st)"
proof -
  define scn where "scn = scan (e_cp env)"
  define sp where "sp = 16 * cg + n"
  define b where "b = scn ! sp"
  define st' where "st' = rdo_coef env cg pat msk n st"
  define dst where "dst = r_dstCoeff st"
  have bN: "b < N" unfolding b_def scn_def sp_def using scan_nth_lt [OF sc p] .
  have len: "length dst = N" using inv by (simp add: rdo_inv_def dst_def)
  have low: "\<And>s. s < Suc sp \<Longrightarrow> dst ! (scn ! s) = nq ! (scn ! s)"
    using inv by (simp add: rdo_inv_def dst_def scn_def sp_def)
  have high: "\<And>s. Suc sp \<le> s \<Longrightarrow> s < N \<Longrightarrow> 0 \<le> dst ! (scn ! s) \<and> dst ! (scn ! s) \<le> \<bar>nq ! (scn ! s)\<bar>"
    using inv by (simp add: rdo_inv_def dst_def scn_def sp_def)
  have db: "dst ! b = nq ! b" using low [of sp] by (simp add: b_def)
  have nqb: "- 32768 \<le> nq ! b" "nq ! b \<le> 32767" using nq bN by (auto simp: in_int16_iff)
  have m: "\<bar>r_dstCoeff st ! (scan (e_cp env) ! (16 * cg + n))\<bar> \<le> 32768"
    using db nqb by (simp add: dst_def b_def scn_def sp_def)
  note f = rdo_coef_fields [OF m, of pat msk, folded st'_def sp_def scn_def, folded b_def dst_def]
  have inj: "\<And>s. s < N \<Longrightarrow> s \<noteq> sp \<Longrightarrow> scn ! s \<noteq> b"
    unfolding b_def scn_def using scan_nth_inj [OF sc _ p] by (simp add: sp_def)
  have spN: "sp < N" using p by (simp add: sp_def)
  have rates: "in_int32 (r_deltaU st')" "in_int32 (r_rateIncDown st')"
    "N \<le> length (r_deltaU st')" "N \<le> length (r_rateIncDown st')"
    using f(4,5,6,7) inv by (simp_all add: rdo_inv_def)
  show ?thesis
  proof (cases "0 \<le> r_lastScanPos st'")
    case True
    then obtain level where lv: "0 \<le> level" "level \<le> \<bar>dst ! b\<bar>" and d': "r_dstCoeff st' = dst[b := level]"
      using f(3) by auto
    have g1: "length (r_dstCoeff st') = N" using d' len by simp
    have g2: "\<forall>s. s < sp \<longrightarrow> r_dstCoeff st' ! (scn ! s) = nq ! (scn ! s)"
    proof (intro allI impI)
      fix s assume s: "s < sp"
      then have "scn ! s \<noteq> b" using inj [of s] spN by simp
      then show "r_dstCoeff st' ! (scn ! s) = nq ! (scn ! s)"
        using low [of s] s by (simp add: d')
    qed
    have g3: "\<forall>s. sp \<le> s \<and> s < N \<longrightarrow>
        0 \<le> r_dstCoeff st' ! (scn ! s) \<and> r_dstCoeff st' ! (scn ! s) \<le> \<bar>nq ! (scn ! s)\<bar>"
    proof (intro allI impI)
      fix s assume s: "sp \<le> s \<and> s < N"
      show "0 \<le> r_dstCoeff st' ! (scn ! s) \<and> r_dstCoeff st' ! (scn ! s) \<le> \<bar>nq ! (scn ! s)\<bar>"
      proof (cases "s = sp")
        case True
        then show ?thesis using lv db bN len by (simp add: d' b_def [symmetric])
      next
        case False
        then have "scn ! s \<noteq> b" using inj [of s] s by simp
        then show ?thesis using high [of s] s False by (simp add: d')
      qed
    qed
    have g4: "int sp \<le> r_lastScanPos st' \<and> r_lastScanPos st' < int N \<and>
           r_cgLastScanPos st' = r_lastScanPos st' div 16 \<and>
           (\<forall>s. r_lastScanPos st' < int s \<and> s < N \<longrightarrow> r_dstCoeff st' ! (scn ! s) = 0)"
    proof (cases "dst ! b \<noteq> 0 \<and> r_lastScanPos st < 0")
      case True
      then have l: "r_lastScanPos st' = int sp" "r_cgLastScanPos st' = int cg" using f(1,2) by simp_all
      have z: "\<And>s. Suc sp \<le> s \<Longrightarrow> s < N \<Longrightarrow> dst ! (scn ! s) = 0"
        using inv True by (simp add: rdo_inv_def dst_def scn_def sp_def)
      have "int sp div 16 = int cg" using n by (simp add: sp_def)
      moreover have "\<forall>s. int sp < int s \<and> s < N \<longrightarrow> r_dstCoeff st' ! (scn ! s) = 0"
      proof (intro allI impI)
        fix s assume s: "int sp < int s \<and> s < N"
        then have "scn ! s \<noteq> b" using inj [of s] by simp
        then show "r_dstCoeff st' ! (scn ! s) = 0" using z [of s] s by (simp add: d')
      qed
      ultimately show ?thesis using spN by (simp add: l)
    next
      case False
      then have l: "r_lastScanPos st' = r_lastScanPos st" "r_cgLastScanPos st' = r_cgLastScanPos st"
        using f(1,2) by auto
      have pos: "0 \<le> r_lastScanPos st" using True l by simp
      have o: "int (Suc sp) \<le> r_lastScanPos st" "r_lastScanPos st < int N"
        "r_cgLastScanPos st = r_lastScanPos st div 16"
        "\<And>s. r_lastScanPos st < int s \<Longrightarrow> s < N \<Longrightarrow> dst ! (scn ! s) = 0"
        using inv pos by (simp_all add: rdo_inv_def dst_def scn_def sp_def)
      have "\<forall>s. r_lastScanPos st < int s \<and> s < N \<longrightarrow> r_dstCoeff st' ! (scn ! s) = 0"
      proof (intro allI impI)
        fix s assume s: "r_lastScanPos st < int s \<and> s < N"
        then have "s \<noteq> sp" using o(1) by auto
        then have "scn ! s \<noteq> b" using inj [of s] s by simp
        then show "r_dstCoeff st' ! (scn ! s) = 0" using o(4) [of s] s by (simp add: d')
      qed
      then show ?thesis using o(1,2,3) by (simp add: l)
    qed
    show ?thesis
      unfolding rdo_inv_def st'_def [symmetric] scn_def [symmetric] sp_def [symmetric]
      using g1 g2 g3 g4 rates True by simp
  next
    case False
    then have d': "r_dstCoeff st' = dst" using f(3) by simp
    have nohit: "\<not> (dst ! b \<noteq> 0 \<and> r_lastScanPos st < 0)" using False f(1) by auto
    have neg: "r_lastScanPos st < 0" using False f(1) nohit by auto
    then have z0: "dst ! b = 0" using nohit by simp
    have z: "\<And>s. Suc sp \<le> s \<Longrightarrow> s < N \<Longrightarrow> dst ! (scn ! s) = 0"
      using inv neg by (simp add: rdo_inv_def dst_def scn_def sp_def)
    have zz: "\<And>s. sp \<le> s \<Longrightarrow> s < N \<Longrightarrow> dst ! (scn ! s) = 0"
    proof -
      fix s assume "sp \<le> s" "s < N"
      then show "dst ! (scn ! s) = 0" using z [of s] z0 by (cases "s = sp") (auto simp: b_def)
    qed
    have g2: "\<forall>s. s < sp \<longrightarrow> r_dstCoeff st' ! (scn ! s) = nq ! (scn ! s)"
      using low by (simp add: d')
    show ?thesis
      unfolding rdo_inv_def st'_def [symmetric] scn_def [symmetric] sp_def [symmetric]
      using len g2 zz rates False by (simp add: d')
  qed
qed

subsection \<open>The loops over the scan positions and the groups\<close>

lemma rdo_inv_fields:
  assumes "r_dstCoeff a = r_dstCoeff b" "r_lastScanPos a = r_lastScanPos b"
    "r_cgLastScanPos a = r_cgLastScanPos b" "r_deltaU a = r_deltaU b"
    "r_rateIncDown a = r_rateIncDown b"
  shows "rdo_inv N scn nq p a = rdo_inv N scn nq p b"
  unfolding rdo_inv_def assms ..

lemma rdo_inv_zero:
  assumes sc: "scan_ok N scn" and inv: "rdo_inv N scn nq p st" and s: "p \<le> s" "s < N"
    and f: "r_lastScanPos st' = r_lastScanPos st"
    "r_cgLastScanPos st' = r_cgLastScanPos st" "r_deltaU st' = r_deltaU st"
    "r_rateIncDown st' = r_rateIncDown st"
    "r_dstCoeff st' = (r_dstCoeff st)[scn ! s := 0]"
  shows "rdo_inv N scn nq p st'"
proof -
  have len: "length (r_dstCoeff st) = N" using inv by (simp add: rdo_inv_def)
  have bN: "scn ! s < N" using scan_nth_lt [OF sc s(2)] .
  have v: "\<And>t. t < N \<Longrightarrow> r_dstCoeff st' ! (scn ! t) = (if t = s then 0 else r_dstCoeff st ! (scn ! t))"
  proof -
    fix t assume t: "t < N"
    have "scn ! t < N" using scan_nth_lt [OF sc t] .
    moreover have "(scn ! t = scn ! s) = (t = s)" using scan_nth_inj [OF sc t s(2)] .
    ultimately show "r_dstCoeff st' ! (scn ! t) = (if t = s then 0 else r_dstCoeff st ! (scn ! t))"
      unfolding f(5) using len by (auto simp: nth_list_update)
  qed
  have v0: "\<And>t. t < N \<Longrightarrow> r_dstCoeff st ! (scn ! t) = 0 \<Longrightarrow> r_dstCoeff st' ! (scn ! t) = 0"
    using v by simp
  have a1: "length (r_dstCoeff st') = N" using len by (simp add: f(5))
  have a2: "\<forall>t<p. r_dstCoeff st' ! (scn ! t) = nq ! (scn ! t)"
  proof (intro allI impI)
    fix t assume t: "t < p"
    then have "t < N" "t \<noteq> s" using s by auto
    then show "r_dstCoeff st' ! (scn ! t) = nq ! (scn ! t)"
      using v [of t] inv t by (simp add: rdo_inv_def)
  qed
  have a3: "\<forall>t. p \<le> t \<and> t < N \<longrightarrow>
        0 \<le> r_dstCoeff st' ! (scn ! t) \<and> r_dstCoeff st' ! (scn ! t) \<le> \<bar>nq ! (scn ! t)\<bar>"
  proof (intro allI impI)
    fix t assume t: "p \<le> t \<and> t < N"
    then have "0 \<le> r_dstCoeff st ! (scn ! t) \<and> r_dstCoeff st ! (scn ! t) \<le> \<bar>nq ! (scn ! t)\<bar>"
      using inv by (simp add: rdo_inv_def)
    then show "0 \<le> r_dstCoeff st' ! (scn ! t) \<and> r_dstCoeff st' ! (scn ! t) \<le> \<bar>nq ! (scn ! t)\<bar>"
      using v [of t] t by (cases "t = s") auto
  qed
  show ?thesis
  proof (cases "r_lastScanPos st < 0")
    case True
    then have "\<forall>t. p \<le> t \<and> t < N \<longrightarrow> r_dstCoeff st ! (scn ! t) = 0"
      using inv by (simp add: rdo_inv_def)
    then have "\<forall>t. p \<le> t \<and> t < N \<longrightarrow> r_dstCoeff st' ! (scn ! t) = 0" using v0 by blast
    then show ?thesis
      unfolding rdo_inv_def [of N scn nq p st'] f(1,2,3,4)
      using a1 a2 a3 True inv by (simp add: rdo_inv_def [of N scn nq p st])
  next
    case False
    then have "\<forall>t. r_lastScanPos st < int t \<and> t < N \<longrightarrow> r_dstCoeff st ! (scn ! t) = 0"
      using inv by (simp add: rdo_inv_def)
    then have "\<forall>t. r_lastScanPos st < int t \<and> t < N \<longrightarrow> r_dstCoeff st' ! (scn ! t) = 0"
      using v0 by blast
    then show ?thesis
      unfolding rdo_inv_def [of N scn nq p st'] f(1,2,3,4)
      using a1 a2 a3 False inv by (simp add: rdo_inv_def [of N scn nq p st])
  qed
qed

lemma rdo_coefs_inv:
  fixes pat msk :: int
  assumes sc: "scan_ok N (scan (e_cp env))" and nq: "in_int16 nq" "length nq = N"
  shows "k \<le> 16 \<Longrightarrow> 16 * cg + k \<le> N \<Longrightarrow> rdo_inv N (scan (e_cp env)) nq (16 * cg + k) st
    \<Longrightarrow> rdo_inv N (scan (e_cp env)) nq (16 * cg) (rdo_coefs env cg pat msk k st)"
proof (induction k arbitrary: st)
  case 0
  then show ?case by simp
next
  case (Suc k)
  have "rdo_inv N (scan (e_cp env)) nq (16 * cg + k) (rdo_coef env cg pat msk k st)"
    using rdo_coef_inv [OF sc nq, of k cg st pat msk] Suc.prems by simp
  then show ?case using Suc.IH [of "rdo_coef env cg pat msk k st"] Suc.prems by simp
qed

lemma rdo_zero_group_inv:
  assumes sc: "scan_ok N (scan (e_cp env))"
  shows "k \<le> 16 \<Longrightarrow> 16 * cg + 16 \<le> N \<Longrightarrow> rdo_inv N (scan (e_cp env)) nq (16 * cg) st
    \<Longrightarrow> rdo_inv N (scan (e_cp env)) nq (16 * cg) (rdo_zero_group env cg k st)"
proof (induction k arbitrary: st)
  case 0
  then show ?case by simp
next
  case (Suc k)
  define st1 where "st1 = (let scanPos = cg * push_bit MLS_CG_SIZE 1 + k;
            blkPos = scan (e_cp env) ! scanPos;
            st = (if r_dstCoeff st ! blkPos \<noteq> 0
                  then st\<lparr>r_costCoeff := (r_costCoeff st)[scanPos := r_costCoeff0 st ! scanPos],
                          r_costSig := (r_costSig st)[scanPos := d_of_int (e_fp env) 0]\<rparr>
                  else st)
        in st\<lparr>r_dstCoeff := (r_dstCoeff st)[blkPos := 0]\<rparr>)"
  have e: "cg * 2 ^ MLS_CG_SIZE + k = 16 * cg + k" by (simp add: MLS_CG_SIZE_def)
  have "rdo_inv N (scan (e_cp env)) nq (16 * cg) st1"
    by (rule rdo_inv_zero [OF sc Suc.prems(3), of "16 * cg + k"])
       (use Suc.prems in \<open>simp_all add: st1_def Let_def e\<close>)
  then have "rdo_inv N (scan (e_cp env)) nq (16 * cg) (rdo_zero_group env cg k st1)"
    using Suc.IH [of st1] Suc.prems by simp
  then show ?case unfolding st1_def by simp
qed

lemma rdo_inv_upd [simp]:
  "rdo_inv N scn nq p (st\<lparr>r_costCoeffGroupSig := x1\<rparr>) = rdo_inv N scn nq p st"
  "rdo_inv N scn nq p (st\<lparr>r_baseCost := x2\<rparr>) = rdo_inv N scn nq p st"
  "rdo_inv N scn nq p (st\<lparr>r_rdStats := x3\<rparr>) = rdo_inv N scn nq p st"
  "rdo_inv N scn nq p (st\<lparr>r_sigCoeffGroupFlag64 := x4\<rparr>) = rdo_inv N scn nq p st"
  by (simp_all add: rdo_inv_def)

lemma rdo_cg_tail_inv:
  fixes msk px py :: int
  assumes sc: "scan_ok N (scan (e_cp env))" and b: "16 * cg + 16 \<le> N"
    and inv: "rdo_inv N (scan (e_cp env)) nq (16 * cg) st"
  shows "rdo_inv N (scan (e_cp env)) nq (16 * cg) (rdo_cg_tail env cg msk px py st)"
proof -
  have zg: "\<And>s. rdo_inv N (scan (e_cp env)) nq (16 * cg) s
      \<Longrightarrow> rdo_inv N (scan (e_cp env)) nq (16 * cg) (rdo_zero_group env cg 16 s)"
    using rdo_zero_group_inv [OF sc _ b, of 16 nq] by simp
  show ?thesis
    unfolding rdo_cg_tail_def Let_def mls16
    using inv by (auto intro!: zg)
qed

lemma rdo_cg_inv:
  assumes sc: "scan_ok N (scan (e_cp env))" and nq: "in_int16 nq" "length nq = N"
    and b: "16 * cg + 16 \<le> N"
    and inv: "rdo_inv N (scan (e_cp env)) nq (16 * cg + 16) st"
  shows "rdo_inv N (scan (e_cp env)) nq (16 * cg) (rdo_cg env cg st)"
  unfolding rdo_cg_def Let_def mls16
  by (intro rdo_cg_tail_inv [OF sc b] rdo_coefs_inv [OF sc nq _ b]) (simp_all add: inv)

lemma rdo_cgs_inv:
  assumes sc: "scan_ok N (scan (e_cp env))" and nq: "in_int16 nq" "length nq = N"
  shows "16 * k \<le> N \<Longrightarrow> rdo_inv N (scan (e_cp env)) nq (16 * k) st
    \<Longrightarrow> rdo_inv N (scan (e_cp env)) nq 0 (rdo_cgs env k st)"
proof (induction k arbitrary: st)
  case 0
  then show ?case by simp
next
  case (Suc k)
  have "rdo_inv N (scan (e_cp env)) nq (16 * k) (rdo_cg env k st)"
    using rdo_cg_inv [OF sc nq, of k st] Suc.prems by (simp add: add.commute)
  then show ?case using Suc.IH [of "rdo_cg env k st"] Suc.prems by simp
qed


section \<open>The last position, the signs and the result of \<open>rdoQuant\<close>\<close>

text \<open>The search for the best last position keeps bestLastIdx between 0 and lastScanPos + 1.\<close>

lemma rdo_last_coefs_idx:
  assumes l: "r_lastScanPos st < 2147483647"
  shows "0 \<le> l_bestLastIdx ls \<and> l_bestLastIdx ls \<le> r_lastScanPos st + 1
    \<Longrightarrow> 0 \<le> l_bestLastIdx (rdo_last_coefs env st cg k ls)
      \<and> l_bestLastIdx (rdo_last_coefs env st cg k ls) \<le> r_lastScanPos st + 1"
proof -
  define P where "P = (\<lambda>ls :: 'a rdo_last. 0 \<le> l_bestLastIdx ls \<and> l_bestLastIdx ls \<le> r_lastScanPos st + 1)"
  have u: "\<And>ls x. P (ls\<lparr>l_baseCost := x\<rparr>) = P ls" "\<And>ls x. P (ls\<lparr>l_foundLast := x\<rparr>) = P ls"
    "\<And>ls x. P (ls\<lparr>l_bestCost := x\<rparr>) = P ls"
    by (simp_all add: P_def)
  have "P ls \<Longrightarrow> P (rdo_last_coefs env st cg k ls)"
  proof (induction k arbitrary: ls)
    case 0
    then show ?case by simp
  next
    case (Suc k)
    define sp where "sp = cg * push_bit MLS_CG_SIZE 1 + k"
    show ?case
    proof (cases "int sp > r_lastScanPos st")
      case True
      then show ?thesis using Suc.IH [OF Suc.prems] by (simp add: sp_def Let_def)
    next
      case False
      have e: "s32 (u32 (int sp + 1)) = int sp + 1"
      proof -
        have "u32 (int sp + 1) = int sp + 1" using False l by (intro u32_id) linarith+
        moreover have "s32 (int sp + 1) = int sp + 1" using False l by (intro s32_id) linarith+
        ultimately show ?thesis by simp
      qed
      have n: "\<And>ls. P (ls\<lparr>l_bestLastIdx := int sp + 1\<rparr>)" using False by (simp add: P_def)
      show ?thesis
        unfolding rdo_last_coefs.simps Let_def sp_def [symmetric] e
        using False Suc.prems by (auto intro!: Suc.IH simp: u n)
    qed
  qed
  then show "0 \<le> l_bestLastIdx ls \<and> l_bestLastIdx ls \<le> r_lastScanPos st + 1
    \<Longrightarrow> 0 \<le> l_bestLastIdx (rdo_last_coefs env st cg k ls)
      \<and> l_bestLastIdx (rdo_last_coefs env st cg k ls) \<le> r_lastScanPos st + 1"
    by (simp add: P_def)
qed

lemma rdo_last_cgs_idx:
  assumes l: "r_lastScanPos st < 2147483647"
  shows "0 \<le> l_bestLastIdx ls \<and> l_bestLastIdx ls \<le> r_lastScanPos st + 1
    \<Longrightarrow> 0 \<le> l_bestLastIdx (rdo_last_cgs env st k ls)
      \<and> l_bestLastIdx (rdo_last_cgs env st k ls) \<le> r_lastScanPos st + 1"
proof -
  define P where "P = (\<lambda>ls :: 'a rdo_last. 0 \<le> l_bestLastIdx ls \<and> l_bestLastIdx ls \<le> r_lastScanPos st + 1)"
  have u: "\<And>ls x. P (ls\<lparr>l_baseCost := x\<rparr>) = P ls"
    by (simp_all add: P_def)
  have c: "\<And>ls cg k. P ls \<Longrightarrow> P (rdo_last_coefs env st cg k ls)"
    unfolding P_def using rdo_last_coefs_idx [OF l] by blast
  have "P ls \<Longrightarrow> P (rdo_last_cgs env st k ls)"
  proof (induction k arbitrary: ls)
    case 0
    then show ?case by simp
  next
    case (Suc k)
    show ?case
      unfolding rdo_last_cgs.simps Let_def
      using Suc.prems by (auto intro!: Suc.IH c simp: u)
  qed
  then show "0 \<le> l_bestLastIdx ls \<and> l_bestLastIdx ls \<le> r_lastScanPos st + 1
    \<Longrightarrow> 0 \<le> l_bestLastIdx (rdo_last_cgs env st k ls)
      \<and> l_bestLastIdx (rdo_last_cgs env st k ls) \<le> r_lastScanPos st + 1"
    by (simp add: P_def)
qed

text \<open>The sign application.\<close>

lemma sign_mask: "u32 (shr (s32 r) 31) = (if s32 r < 0 then 4294967295 else 0)"
proof -
  have r: "- 2147483648 \<le> s32 r" "s32 r \<le> 2147483647" using s32_range [of r] by auto
  have "shr (s32 r) 31 = s32 r div 2147483648" by (simp add: shr_def drop_bit_eq_div)
  also have "\<dots> = (if s32 r < 0 then - 1 else 0)" using r by auto
  finally show ?thesis by (simp add: u32_def mask_eq_exp_minus_1)
qed

lemma xor_sign_neg:
  assumes "0 \<le> level" "level \<le> 2147483647"
  shows "s32 (u32 (u32 (u32 level XOR 4294967295) - 4294967295)) = - level"
proof -
  have a: "u32 level = level" using assms by (intro u32_id) linarith+
  have m: "(4294967295 :: int) = take_bit 32 (- 1)" by (simp add: mask_eq_exp_minus_1)
  have "level XOR take_bit 32 (- 1) = take_bit 32 level XOR take_bit 32 (- 1)"
    using a by (simp add: u32_def)
  also have "\<dots> = take_bit 32 (level XOR - 1)" by (simp only: take_bit_xor)
  also have "\<dots> = take_bit 32 (- level - 1)" by (simp add: not_int_def)
  finally have x: "level XOR 4294967295 = take_bit 32 (- level - 1)" by (simp only: m)
  have y: "u32 (take_bit 32 (- level - 1)) = take_bit 32 (- level - 1)" by (simp add: u32_def)
  have "u32 (take_bit 32 (- level - 1) - 4294967295) = take_bit 32 (- level)"
  proof -
    have "take_bit 32 (take_bit 32 (- level - 1) - 4294967295) = take_bit 32 ((- level - 1) - 4294967295)"
      unfolding take_bit_eq_mod by (rule mod_diff_left_eq)
    also have "\<dots> = take_bit 32 (- level)"
    proof -
      have e: "- level - 1 - 4294967295 = - level + (- 1) * 2 ^ 32" by simp
      show ?thesis unfolding take_bit_eq_mod e by (rule mod_mult_self1)
    qed
    finally show ?thesis by (simp add: u32_def)
  qed
  moreover have "s32 (take_bit 32 (- level)) = - level"
  proof -
    have "signed_take_bit 31 (take_bit 32 (- level)) = signed_take_bit 31 (- level)"
      by (simp add: signed_take_bit_take_bit)
    also have "\<dots> = - level" using assms by (intro signed_take_bit_int_eq_self) simp_all
    finally show ?thesis by (simp add: s32_def)
  qed
  ultimately show ?thesis unfolding a x y by (simp only:)
qed

lemma xor_sign_pos:
  assumes "0 \<le> level" "level \<le> 2147483647"
  shows "s32 (u32 (u32 (u32 level XOR 0) - 0)) = level"
proof -
  have a: "u32 level = level" using assms by (intro u32_id) linarith+
  have b: "s32 level = level" using assms by (intro s32_id) linarith+
  show ?thesis by (simp add: a b)
qed

lemma rdo_apply_sign_step:
  assumes lv: "0 \<le> dst ! b" "dst ! b \<le> 2147483647" "b < length dst" "0 \<le> n" "n < 4294967295"
    and b: "b = scn ! pos"
  shows "rdo_apply_sign resi scn pos (dst, n)
     = (dst[b := (if s32 (resi ! b) < 0 then - (dst ! b) else dst ! b)],
        n + (if dst ! b \<noteq> 0 then 1 else 0))"
proof -
  have u: "u32 (n + (if dst ! b \<noteq> 0 then 1 else 0)) = n + (if dst ! b \<noteq> 0 then 1 else 0)"
    using lv by (intro u32_id) auto
  show ?thesis
    unfolding rdo_apply_sign_def Let_def b [symmetric] sign_mask prod.case u
    using xor_sign_neg [OF lv(1,2)] xor_sign_pos [OF lv(1,2)] by simp
qed

lemma nz_before_Suc:
  "nz_before dst scn (Suc K) = nz_before dst scn K + (if dst ! (scn ! K) \<noteq> 0 then 1 else 0)"
proof -
  have f: "finite {s. s < K \<and> dst ! (scn ! s) \<noteq> 0}" by simp
  show ?thesis
  proof (cases "dst ! (scn ! K) \<noteq> 0")
    case True
    then have "{s. s < Suc K \<and> dst ! (scn ! s) \<noteq> 0} = insert K {s. s < K \<and> dst ! (scn ! s) \<noteq> 0}"
      by (auto simp: less_Suc_eq)
    then show ?thesis using True f by (simp add: nz_before_def)
  next
    case False
    then have "{s. s < Suc K \<and> dst ! (scn ! s) \<noteq> 0} = {s. s < K \<and> dst ! (scn ! s) \<noteq> 0}"
      by (auto simp: less_Suc_eq)
    then show ?thesis using False by (simp add: nz_before_def)
  qed
qed

lemma nz_before_le: "nz_before dst scn K \<le> int K"
proof -
  have "{s. s < K \<and> dst ! (scn ! s) \<noteq> 0} \<subseteq> {..<K}" by auto
  then have "card {s. s < K \<and> dst ! (scn ! s) \<noteq> 0} \<le> card {..<K}" by (intro card_mono) auto
  then show ?thesis by (simp add: nz_before_def)
qed

lemma rdo_apply_signs_fold:
  assumes sc: "scan_ok N scn" and len: "length dst = N" and N: "N < 4294967295"
    and lv: "\<forall>s<N. 0 \<le> dst ! (scn ! s) \<and> dst ! (scn ! s) \<le> 2147483647"
  shows "K \<le> N \<Longrightarrow> \<exists>dst'. fold (rdo_apply_sign resi scn) [0..<K] (dst, 0) = (dst', nz_before dst scn K)
     \<and> length dst' = N
     \<and> (\<forall>s<N. dst' ! (scn ! s) = (if s < K then (if s32 (resi ! (scn ! s)) < 0 then - (dst ! (scn ! s))
                                                  else dst ! (scn ! s))
                                   else dst ! (scn ! s)))"
proof (induction K)
  case 0
  then show ?case using len by (simp add: nz_before_def)
next
  case (Suc K)
  then obtain d1 where f: "fold (rdo_apply_sign resi scn) [0..<K] (dst, 0) = (d1, nz_before dst scn K)"
    and l1: "length d1 = N"
    and v1: "\<forall>s<N. d1 ! (scn ! s) = (if s < K then (if s32 (resi ! (scn ! s)) < 0 then - (dst ! (scn ! s))
                                                  else dst ! (scn ! s))
                                   else dst ! (scn ! s))"
    by auto
  have KN: "K < N" using Suc.prems by simp
  define b where "b = scn ! K"
  have bN: "b < N" unfolding b_def using scan_nth_lt [OF sc KN] .
  have d1b: "d1 ! b = dst ! b" using v1 KN by (simp add: b_def)
  have r: "0 \<le> d1 ! b" "d1 ! b \<le> 2147483647" using lv KN d1b by (auto simp: b_def)
  have nb: "0 \<le> nz_before dst scn K" "nz_before dst scn K < 4294967295"
    using nz_before_le [of dst scn K] KN N by (auto simp: nz_before_def)
  have st: "rdo_apply_sign resi scn K (d1, nz_before dst scn K)
     = (d1[b := (if s32 (resi ! b) < 0 then - (d1 ! b) else d1 ! b)],
        nz_before dst scn K + (if d1 ! b \<noteq> 0 then 1 else 0))"
    using rdo_apply_sign_step [OF r _ nb, of scn K resi] bN l1 by (simp add: b_def)
  define d2 where "d2 = d1[b := (if s32 (resi ! b) < 0 then - (dst ! b) else dst ! b)]"
  have res: "fold (rdo_apply_sign resi scn) [0..<Suc K] (dst, 0) = (d2, nz_before dst scn (Suc K))"
    by (simp add: f st d1b [unfolded b_def] nz_before_Suc d2_def b_def)
  have v2: "\<forall>s<N. d2 ! (scn ! s) = (if s < Suc K then (if s32 (resi ! (scn ! s)) < 0 then - (dst ! (scn ! s))
                                                  else dst ! (scn ! s))
                                   else dst ! (scn ! s))"
  proof (intro allI impI)
    fix s assume s: "s < N"
    show "d2 ! (scn ! s) = (if s < Suc K then (if s32 (resi ! (scn ! s)) < 0 then - (dst ! (scn ! s))
                                                  else dst ! (scn ! s))
                                   else dst ! (scn ! s))"
    proof (cases "s = K")
      case True
      then show ?thesis using bN l1 by (simp add: d2_def b_def)
    next
      case False
      then have "scn ! s \<noteq> b" unfolding b_def using scan_nth_inj [OF sc s KN] by simp
      then show ?thesis using v1 s False by (simp add: d2_def less_Suc_eq)
    qed
  qed
  show ?case using res v2 l1 by (intro exI [of _ d2]) (simp add: d2_def)
qed

lemma rdo_clean_fold:
  assumes sc: "scan_ok N scn" and len: "length dst = N"
  shows "b \<le> N \<Longrightarrow> length (fold (\<lambda>pos dst. dst[scn ! pos := 0]) [a..<b] dst) = N
     \<and> (\<forall>s<N. fold (\<lambda>pos dst. dst[scn ! pos := 0]) [a..<b] dst ! (scn ! s)
              = (if a \<le> s \<and> s < b then 0 else dst ! (scn ! s)))"
proof (induction b)
  case 0
  then show ?case using len by simp
next
  case (Suc b)
  show ?case
  proof (cases "a \<le> b")
    case False
    then show ?thesis using len by auto
  next
    case True
    define d1 where "d1 = fold (\<lambda>pos dst. dst[scn ! pos := 0]) [a..<b] dst"
    have l1: "length d1 = N" and v1: "\<forall>s<N. d1 ! (scn ! s) = (if a \<le> s \<and> s < b then 0 else dst ! (scn ! s))"
      using Suc unfolding d1_def by simp_all
    have e: "fold (\<lambda>pos dst. dst[scn ! pos := 0]) [a..<Suc b] dst = d1[scn ! b := 0]"
      using True by (simp add: d1_def)
    have bN: "b < N" using Suc.prems by simp
    have "\<forall>s<N. d1[scn ! b := 0] ! (scn ! s) = (if a \<le> s \<and> s < Suc b then 0 else dst ! (scn ! s))"
    proof (intro allI impI)
      fix s assume s: "s < N"
      show "d1[scn ! b := 0] ! (scn ! s) = (if a \<le> s \<and> s < Suc b then 0 else dst ! (scn ! s))"
      proof (cases "s = b")
        case True
        then show ?thesis using scan_nth_lt [OF sc bN] l1 \<open>a \<le> b\<close> by simp
      next
        case False
        then have "scn ! s \<noteq> scn ! b" using scan_nth_inj [OF sc s bN] by simp
        then show ?thesis using v1 s False by (simp add: less_Suc_eq)
      qed
    qed
    then show ?thesis unfolding e using l1 by simp
  qed
qed

text \<open>Counting the nonzero coefficients along the scan.\<close>

lemma count_nonzero_scan:
  assumes sc: "scan_ok N scn" and len: "length q = N"
  shows "count_nonzero q = nz_before q scn N"
proof -
  have inj: "inj_on (\<lambda>s. scn ! s) {s. s < N \<and> q ! (scn ! s) \<noteq> 0}"
    using scan_nth_inj [OF sc] by (auto simp: inj_on_def)
  have "{i. i < N \<and> q ! i \<noteq> 0} = (\<lambda>s. scn ! s) ` {s. s < N \<and> q ! (scn ! s) \<noteq> 0}"
  proof (intro set_eqI iffI)
    fix i assume "i \<in> {i. i < N \<and> q ! i \<noteq> 0}"
    then have i: "i < N" "q ! i \<noteq> 0" by auto
    have "i \<in> set scn"
    proof -
      have "set scn \<subseteq> {..<N}" using sc by (auto simp: scan_ok_def list_all_iff)
      moreover have "card (set scn) = N" using sc by (simp add: scan_ok_def distinct_card)
      ultimately have "set scn = {..<N}" by (intro card_subset_eq) auto
      then show ?thesis using i by simp
    qed
    then obtain s where "s < length scn" "scn ! s = i" by (auto simp: in_set_conv_nth)
    then show "i \<in> (\<lambda>s. scn ! s) ` {s. s < N \<and> q ! (scn ! s) \<noteq> 0}"
      using i sc by (auto simp: scan_ok_def)
  next
    fix i assume "i \<in> (\<lambda>s. scn ! s) ` {s. s < N \<and> q ! (scn ! s) \<noteq> 0}"
    then show "i \<in> {i. i < N \<and> q ! i \<noteq> 0}" using scan_nth_lt [OF sc] by auto
  qed
  then have "card {i. i < N \<and> q ! i \<noteq> 0} = card {s. s < N \<and> q ! (scn ! s) \<noteq> 0}"
    using card_image [OF inj] by simp
  then show ?thesis
    unfolding count_nonzero_def nz_before_def length_filter_conv_card len by simp
qed

lemma nz_before_cong:
  assumes "\<And>s. s < K \<Longrightarrow> (q ! (scn ! s) \<noteq> 0) = (q' ! (scn ! s) \<noteq> 0)"
  shows "nz_before q scn K = nz_before q' scn K"
proof -
  have "{s. s < K \<and> q ! (scn ! s) \<noteq> 0} = {s. s < K \<and> q' ! (scn ! s) \<noteq> 0}" using assms by auto
  then show ?thesis by (simp add: nz_before_def)
qed

lemma nz_before_zero_tail:
  assumes "K \<le> N" "\<And>s. K \<le> s \<Longrightarrow> s < N \<Longrightarrow> q ! (scn ! s) = 0"
  shows "nz_before q scn N = nz_before q scn K"
proof -
  have "{s. s < N \<and> q ! (scn ! s) \<noteq> 0} = {s. s < K \<and> q ! (scn ! s) \<noteq> 0}"
    using assms by (auto simp: not_less) (metis not_le_imp_less)
  then show ?thesis by (simp add: nz_before_def)
qed

subsection \<open>The kernels \<open>nquant\<close> and \<open>quant\<close>\<close>

lemma shr_nonneg: "0 \<le> x \<Longrightarrow> 0 \<le> shr x n"
  by (simp add: shr_def)

lemma nquant_level_props:
  assumes "0 \<le> qc" "0 \<le> add"
  shows "- 32767 \<le> nquant_level c qc qbits add" "nquant_level c qc qbits add \<le> 32767"
    "nquant_level c qc qbits add \<noteq> 0 \<longrightarrow> (nquant_level c qc qbits add < 0 \<longleftrightarrow> c < 0)"
    "\<bar>nquant_level c qc qbits add\<bar> \<le> shr (\<bar>c\<bar> * qc + add) qbits"
proof -
  have "0 \<le> \<bar>c\<bar> * qc + add" using assms by simp
  then have l: "0 \<le> shr (\<bar>c\<bar> * qc + add) qbits" by (rule shr_nonneg)
  show "- 32767 \<le> nquant_level c qc qbits add" "nquant_level c qc qbits add \<le> 32767"
    "nquant_level c qc qbits add \<noteq> 0 \<longrightarrow> (nquant_level c qc qbits add < 0 \<longleftrightarrow> c < 0)"
    "\<bar>nquant_level c qc qbits add\<bar> \<le> shr (\<bar>c\<bar> * qc + add) qbits"
    using l unfolding nquant_level_def Let_def by auto
qed

text \<open>Rounding to nearest is at most the ceiling.\<close>

lemma round_le_ceiling:
  assumes "0 \<le> (a::int)" "1 \<le> n"
  shows "shr (a + 2 ^ (n - 1)) (int n) \<le> \<lceil>real_of_int a / 2 ^ n\<rceil>"
proof -
  define x where "x = real_of_int a / 2 ^ n"
  have p: "(2::real) ^ n = 2 * 2 ^ (n - 1)" using assms(2) by (cases n) simp_all
  have "shr (a + 2 ^ (n - 1)) (int n) = (a + 2 ^ (n - 1)) div 2 ^ n"
    by (simp add: shr_def drop_bit_eq_div)
  also have "\<dots> = \<lfloor>real_of_int (a + 2 ^ (n - 1)) / real_of_int (2 ^ n)\<rfloor>"
    by (rule floor_divide_of_int_eq [symmetric])
  also have "real_of_int (a + 2 ^ (n - 1)) / real_of_int (2 ^ n) = x + 1 / 2"
    by (simp add: x_def add_divide_distrib p)
  finally have e: "shr (a + 2 ^ (n - 1)) (int n) = \<lfloor>x + 1 / 2\<rfloor>" .
  have "real_of_int \<lfloor>x + 1 / 2\<rfloor> \<le> x + 1 / 2" by (rule of_int_floor_le)
  moreover have "x \<le> real_of_int \<lceil>x\<rceil>" by (rule le_of_int_ceiling)
  ultimately have "real_of_int \<lfloor>x + 1 / 2\<rfloor> < real_of_int \<lceil>x\<rceil> + 1" by linarith
  then have "real_of_int \<lfloor>x + 1 / 2\<rfloor> < real_of_int (\<lceil>x\<rceil> + 1)" by (simp only: of_int_add of_int_1)
  then have "\<lfloor>x + 1 / 2\<rfloor> < \<lceil>x\<rceil> + 1" by (simp only: of_int_less_iff)
  then show ?thesis unfolding e x_def by simp
qed


lemma scan_surj:
  assumes sc: "scan_ok N scn" and i: "i < N"
  shows "\<exists>s<N. scn ! s = i"
proof -
  have "set scn \<subseteq> {..<N}" using sc by (auto simp: scan_ok_def list_all_iff)
  moreover have "card (set scn) = N" using sc by (simp add: scan_ok_def distinct_card)
  ultimately have "set scn = {..<N}" by (intro card_subset_eq) auto
  then have "i \<in> set scn" using i by simp
  then obtain s where "s < length scn" "scn ! s = i" by (auto simp: in_set_conv_nth)
  then show ?thesis using sc by (auto simp: scan_ok_def)
qed

lemma nquant_eq:
  "nquant coef qc qbits add N =
     (map (\<lambda>i. \<bar>coef ! i\<bar> * qc ! i) [0..<N],
      map (\<lambda>i. nquant_level (coef ! i) (qc ! i) qbits add) [0..<N],
      count_nonzero (map (\<lambda>i. nquant_level (coef ! i) (qc ! i) qbits add) [0..<N]))"
  by (simp add: nquant_def Let_def count_nonzero_def)

lemma quant_prim_eq:
  "quant_prim coef qc qbits add N =
     (map (\<lambda>i. quant_deltaU (coef ! i) (qc ! i) qbits add) [0..<N],
      map (\<lambda>i. nquant_level (coef ! i) (qc ! i) qbits add) [0..<N],
      count_nonzero (map (\<lambda>i. nquant_level (coef ! i) (qc ! i) qbits add) [0..<N]))"
  by (simp add: quant_prim_def Let_def count_nonzero_def)

lemma nquant_block_props:
  fixes coef :: "int list" and qbits :: int
  assumes qc: "\<forall>i<N. 0 \<le> qc ! i" and add: "0 \<le> add"
  defines "nq \<equiv> map (\<lambda>i. nquant_level (coef ! i) (qc ! i) qbits add) [0..<N]"
  shows "length nq = N" "in_int16 nq" "signs_agree nq coef" "\<forall>i<N. \<bar>nq ! i\<bar> \<le> 32767"
    "\<forall>i<N. nq ! i = nquant_level (coef ! i) (qc ! i) qbits add"
proof -
  show l: "length nq = N" by (simp add: nq_def)
  show v: "\<forall>i<N. nq ! i = nquant_level (coef ! i) (qc ! i) qbits add" by (simp add: nq_def)
  show "in_int16 nq"
    unfolding in_int16_iff l using v nquant_level_props(1,2) [OF _ add] qc
    by (smt (verit, best))
  show "signs_agree nq coef"
    unfolding signs_agree_iff l using v nquant_level_props(3) [OF _ add] qc by simp
  show "\<forall>i<N. \<bar>nq ! i\<bar> \<le> 32767"
    using v nquant_level_props(1,2) [OF _ add] qc by (smt (verit, best))
qed

lemma quant_deltaU_int32: "in_int32 (map (\<lambda>i. quant_deltaU (coef ! i) (qc ! i) qbits add) [0..<N])"
  unfolding in_int32_iff using s32_range by (simp add: quant_deltaU_def Let_def)

subsection \<open>\<open>rdoQuant\<close> as a whole\<close>

text \<open>The phases of rdoQuant after the reverse scan, from a state that satisfies the invariant.\<close>

lemma rdo_finish_props:
  assumes sc: "scan_ok N scn" and N: "N \<le> 1024"
    and nq: "length nq = N" "signs_agree nq resi" "\<forall>i<N. \<bar>nq ! i\<bar> \<le> 32767"
    and rs: "\<forall>i<N. - 2147483648 \<le> resi ! i \<and> resi ! i \<le> 2147483647"
    and inv: "rdo_inv N scn nq 0 st" and last: "0 \<le> r_lastScanPos st"
    and best: "0 \<le> bestLastIdx" "bestLastIdx \<le> r_lastScanPos st + 1"
  shows "\<exists>d1 n1 d2. rdo_apply_signs resi scn bestLastIdx (r_dstCoeff st) = (d1, n1)
      \<and> rdo_clean scn bestLastIdx (r_lastScanPos st) d1 = d2
      \<and> length d2 = N \<and> n1 = count_nonzero d2 \<and> signs_agree d2 resi \<and> in_int16 d2
      \<and> (\<forall>i<N. \<bar>d2 ! i\<bar> \<le> \<bar>nq ! i\<bar>)"
proof -
  define dst where "dst = r_dstCoeff st"
  define K where "K = nat bestLastIdx"
  define L where "L = nat (r_lastScanPos st + 1)"
  have len: "length dst = N" using inv by (simp add: rdo_inv_def dst_def)
  have lN: "r_lastScanPos st < int N" using inv last by (simp add: rdo_inv_def)
  have KL: "K \<le> L" "L \<le> N" using best last lN by (auto simp: K_def L_def)
  have rng: "\<And>s. s < N \<Longrightarrow> 0 \<le> dst ! (scn ! s) \<and> dst ! (scn ! s) \<le> \<bar>nq ! (scn ! s)\<bar>"
    using inv by (simp add: rdo_inv_def dst_def)
  have zero: "\<And>s. L \<le> s \<Longrightarrow> s < N \<Longrightarrow> dst ! (scn ! s) = 0"
    using inv last by (simp add: rdo_inv_def dst_def L_def) 
  have nqb: "\<And>s. s < N \<Longrightarrow> \<bar>nq ! (scn ! s)\<bar> \<le> 32767"
    using nq(3) scan_nth_lt [OF sc] by simp
  have lv: "\<forall>s<N. 0 \<le> dst ! (scn ! s) \<and> dst ! (scn ! s) \<le> 2147483647"
    using rng nqb by (smt (verit, best))
  have KN: "K \<le> N" using KL by simp
  from rdo_apply_signs_fold [OF sc len _ lv KN, of resi]
  obtain d1 where f: "fold (rdo_apply_sign resi scn) [0..<K] (dst, 0) = (d1, nz_before dst scn K)"
    and l1: "length d1 = N"
    and v1: "\<forall>s<N. d1 ! (scn ! s) = (if s < K then (if s32 (resi ! (scn ! s)) < 0 then - (dst ! (scn ! s))
                                                  else dst ! (scn ! s))
                                   else dst ! (scn ! s))"
    using N by auto
  define d2 where "d2 = rdo_clean scn bestLastIdx (r_lastScanPos st) d1"
  have d2e: "d2 = fold (\<lambda>pos dst. dst[scn ! pos := 0]) [K..<L] d1"
    by (simp add: d2_def rdo_clean_def K_def L_def)
  have l2: "length d2 = N"
    and v2: "\<forall>s<N. d2 ! (scn ! s) = (if K \<le> s \<and> s < L then 0 else d1 ! (scn ! s))"
    unfolding d2e using rdo_clean_fold [OF sc l1 KL(2), of K] by simp_all
  have s32r: "\<And>s. s < N \<Longrightarrow> s32 (resi ! (scn ! s)) = resi ! (scn ! s)"
    using rs scan_nth_lt [OF sc] by (intro s32_id) auto
  have v: "\<And>s. s < N \<Longrightarrow> d2 ! (scn ! s)
      = (if s < K then (if resi ! (scn ! s) < 0 then - (dst ! (scn ! s)) else dst ! (scn ! s)) else 0)"
  proof -
    fix s assume s: "s < N"
    show "d2 ! (scn ! s)
      = (if s < K then (if resi ! (scn ! s) < 0 then - (dst ! (scn ! s)) else dst ! (scn ! s)) else 0)"
    proof (cases "s < K")
      case True
      then show ?thesis using v2 v1 s s32r [OF s] by simp
    next
      case False
      show ?thesis
      proof (cases "s < L")
        case True
        then show ?thesis using v2 s False by simp
      next
        case False
        then have "dst ! (scn ! s) = 0" using zero [of s] s by simp
        then show ?thesis using v2 v1 s False KL by simp
      qed
    qed
  qed
  have cnt: "nz_before dst scn K = count_nonzero d2"
  proof -
    have "count_nonzero d2 = nz_before d2 scn N" by (rule count_nonzero_scan [OF sc l2])
    also have "\<dots> = nz_before d2 scn K"
      by (rule nz_before_zero_tail [OF KN]) (simp add: v)
    also have "\<dots> = nz_before dst scn K"
      by (rule nz_before_cong) (use v KN in auto)
    finally show ?thesis by simp
  qed
  have pos: "\<And>i. i < N \<Longrightarrow> \<bar>d2 ! i\<bar> \<le> \<bar>nq ! i\<bar> \<and> (d2 ! i \<noteq> 0 \<longrightarrow> (d2 ! i < 0 \<longleftrightarrow> resi ! i < 0))"
  proof -
    fix i assume i: "i < N"
    then obtain s where s: "s < N" "scn ! s = i" using scan_surj [OF sc] by blast
    show "\<bar>d2 ! i\<bar> \<le> \<bar>nq ! i\<bar> \<and> (d2 ! i \<noteq> 0 \<longrightarrow> (d2 ! i < 0 \<longleftrightarrow> resi ! i < 0))"
      using v [OF s(1)] rng [OF s(1)] unfolding s(2) by auto
  qed
  have a1: "signs_agree d2 resi" unfolding signs_agree_iff l2 using pos by blast
  have a2: "in_int16 d2" unfolding in_int16_iff l2 using pos nq(3) by (smt (verit, best))
  have a3: "\<forall>i<N. \<bar>d2 ! i\<bar> \<le> \<bar>nq ! i\<bar>" using pos by blast
  have e: "rdo_apply_signs resi scn bestLastIdx (r_dstCoeff st) = (d1, nz_before dst scn K)"
    using f by (simp add: rdo_apply_signs_def K_def dst_def)
  show ?thesis
    using e d2_def l2 cnt a1 a2 a3 by blast
qed

text \<open>When the reverse scan finds no coefficient, the block is zero.\<close>

lemma rdo_none_props:
  assumes sc: "scan_ok N scn"
    and inv: "rdo_inv N scn nq 0 st" and last: "r_lastScanPos st < 0"
  shows "length (r_dstCoeff st) = N" "count_nonzero (r_dstCoeff st) = 0"
    "signs_agree (r_dstCoeff st) resi" "in_int16 (r_dstCoeff st)"
    "\<forall>i<N. \<bar>r_dstCoeff st ! i\<bar> \<le> \<bar>nq ! i\<bar>"
proof -
  show len: "length (r_dstCoeff st) = N" using inv by (simp add: rdo_inv_def)
  have z: "\<And>i. i < N \<Longrightarrow> r_dstCoeff st ! i = 0"
  proof -
    fix i assume "i < N"
    then obtain s where s: "s < N" "scn ! s = i" using scan_surj [OF sc] by blast
    have "r_dstCoeff st ! (scn ! s) = 0" using inv last s(1) by (simp add: rdo_inv_def)
    then show "r_dstCoeff st ! i = 0" by (simp add: s(2))
  qed
  have "filter (\<lambda>x. x \<noteq> 0) (r_dstCoeff st) = []"
    unfolding filter_empty_conv using z len by (auto simp: in_set_conv_nth)
  then show "count_nonzero (r_dstCoeff st) = 0" by (simp add: count_nonzero_def)
  show "signs_agree (r_dstCoeff st) resi" unfolding signs_agree_iff len using z by simp
  show "in_int16 (r_dstCoeff st)" unfolding in_int16_iff len using z by simp
  show "\<forall>i<N. \<bar>r_dstCoeff st ! i\<bar> \<le> \<bar>nq ! i\<bar>" using z by simp
qed

lemma rdoQuant_props:
  fixes q :: "'d Quant" and junk :: "'d rdo_state"
  assumes N_def: "N = push_bit (log2TrSz * 2) (1::nat)"
    and cp_def: "cp = getTUEntropyCodingParameters cu"
    and qbits_def: "qbits = QUANT_SHIFT + per (m_qpParam q ttype)
                     + (MAX_TR_DYNAMIC_RANGE - X265_DEPTH - int log2TrSz)"
    and qc_def: "qc = m_quantCoef (m_scalingList q) (log2TrSz - 2)
                   ((if isIntra cu then 0 else 3) + ttype) (nat (rem (m_qpParam q ttype)))"
    and resi_def: "resi = m_resiDctCoeff q"
    and sc: "scan_ok N (scan cp)"
    and cg: "16 * push_bit (log2TrSizeCG cp * 2) (1::nat) = N" and N: "N \<le> 1024"
    and qb: "1 \<le> qbits" "qbits \<le> 31"
    and qcp: "\<forall>i<N. 0 \<le> qc ! i"
    and rs: "\<forall>i<N. - 2147483648 \<le> resi ! i \<and> resi ! i \<le> 2147483647"
    and jk: "in_int32 (r_deltaU junk)" "in_int32 (r_rateIncDown junk)"
      "N \<le> length (r_deltaU junk)" "N \<le> length (r_rateIncDown junk)"
    and rd: "\<bar>rdo_rdFactor fp (s_invQuantScales (m_scalingList q) ! nat (rem (m_qpParam q ttype)))
               (per (m_qpParam q ttype)) (m_lambdas q ttype)\<bar> \<le> 2147483648"
  shows "\<exists>out n. rdoQuant fp goRiceRange groupIdx X265_DEPTH junk q cu log2TrSz ttype = Some (out, n)
     \<and> length out = N \<and> n = count_nonzero out \<and> signs_agree out resi \<and> in_int16 out
     \<and> (\<forall>i<N. \<bar>out ! i\<bar> \<le> \<bar>nquant_level (resi ! i) (qc ! i) qbits (s32 (shl 1 (qbits - 1)))\<bar>
                  + (if bSignHideEnabled cu then 1 else 0))
     \<and> (\<exists>d. (\<forall>i<N. \<bar>d ! i\<bar> \<le> \<bar>nquant_level (resi ! i) (qc ! i) qbits (s32 (shl 1 (qbits - 1)))\<bar>)
            \<and> (\<forall>k. 16 * k + 16 \<le> N \<longrightarrow>
                   group_change d out (scan cp) k \<le> (if bSignHideEnabled cu then 1 else 0)))"
proof -
  define add where "add = s32 (shl 1 (qbits - 1))"
  define nq where "nq = map (\<lambda>i. nquant_level (resi ! i) (qc ! i) qbits add) [0..<N]"
  define scaled where "scaled = map (\<lambda>i. \<bar>resi ! i\<bar> * qc ! i) [0..<N]"
  define sl where "sl = m_scalingList q"
  define rm where "rm = rem (m_qpParam q ttype)"
  define pr where "pr = per (m_qpParam q ttype)"
  define ts where "ts = MAX_TR_DYNAMIC_RANGE - X265_DEPTH - int log2TrSz"
  define lambda2 where "lambda2 = m_lambdas q ttype"
  define env :: "'d rdo_env" where "env = \<lparr>e_fp = fp, e_cp = cp, e_est = m_estBitsSbac q,
                       e_goRiceRange = goRiceRange, e_groupIdx = groupIdx, e_qbits = qbits,
                       e_log2TrSize = log2TrSz, e_bIsLuma = (ttype = TEXT_LUMA),
                       e_usePsy = (m_psyRdoqScale q \<noteq> 0 \<and> (ttype = TEXT_LUMA)),
                       e_psyRdoqScale = m_psyRdoqScale q, e_lambda2 = lambda2,
                       e_errScale = m_errScale sl (log2TrSz - 2) ((if isIntra cu then 0 else 3) + ttype) (nat rm),
                       e_scaledCoeff = scaled, e_resiDctCoeff = m_resiDctCoeff q,
                       e_fencDctCoeff = m_fencDctCoeff q,
                       e_unquantShift = QUANT_IQUANT_SHIFT - QUANT_SHIFT - ts,
                       e_unquantRound = s32 (shl 1 (QUANT_IQUANT_SHIFT - QUANT_SHIFT - ts) - 1),
                       e_unquantScale = s32 (shl (s_invQuantScales sl ! nat rm) pr),
                       e_scaleBits = SCALE_BITS - 2 * ts\<rparr>"
  define st0 where "st0 = junk\<lparr>r_dstCoeff := nq, r_sigCoeffGroupFlag64 := 0, r_ctxSet := 0,
                             r_c1 := 1, r_c2 := 0, r_baseCost := d_of_int fp 0,
                             r_blockUncodedCost := d_of_int fp 0, r_lastScanPos := - 1,
                             r_goRiceParam := 0, r_c1Idx := 0, r_c2Idx := 0,
                             r_cgLastScanPos := - 1\<rparr>"
  define cgNum where "cgNum = push_bit (log2TrSizeCG cp * 2) (1::nat)"
  define st where "st = rdo_cgs env cgNum st0"
  define cbpBits where "cbpBits = (if \<not> isIntra cu \<and> (ttype = TEXT_LUMA) \<and> getTransformIdx cu = 0
                                 then blockRootCbpBits (m_estBitsSbac q) ! 0
                                 else blockCbpBits (m_estBitsSbac q) ! getCtxQtCbf cu)"
  define ls0 :: "'d rdo_last" where "ls0 = \<lparr>l_baseCost = d_add fp (r_baseCost st)
                                   (d_mul fp lambda2 (d_of_int fp (cbpBits ! 1))),
            l_bestCost = d_add fp (r_blockUncodedCost st)
                                   (d_mul fp lambda2 (d_of_int fp (cbpBits ! 0))),
                              l_bestLastIdx = 0, l_foundLast = False\<rparr>"
  define ls where "ls = rdo_last_cgs env st (nat (r_cgLastScanPos st + 1)) ls0"
  define h where "h = \<lparr>h_deltaU = r_deltaU st, h_rateIncUp = r_rateIncUp st,
                             h_rateIncDown = r_rateIncDown st,
                             h_sigRateDelta = r_sigRateDelta st,
                             h_rdFactor = rdo_rdFactor fp (s_invQuantScales sl ! nat rm) pr lambda2\<rparr>"
  define fin where "fin = (case rdo_apply_signs resi (scan cp) (l_bestLastIdx ls) (r_dstCoeff st) of
      (dst, numSig) \<Rightarrow>
        if bSignHideEnabled cu \<and> numSig \<ge> 2
        then rdo_signBitHiding resi h (scan cp) (r_cgLastScanPos st)
               (rdo_clean (scan cp) (l_bestLastIdx ls) (r_lastScanPos st) dst) numSig
        else Some (rdo_clean (scan cp) (l_bestLastIdx ls) (r_lastScanPos st) dst, numSig))"
  have eq: "rdoQuant fp goRiceRange groupIdx X265_DEPTH junk q cu log2TrSz ttype
     = (if count_nonzero nq = 0 then Some (nq, 0)
        else if r_lastScanPos st < 0 then Some (r_dstCoeff st, 0) else fin)"
    unfolding rdoQuant_def nquant_eq Let_def prod.case fin_def h_def ls_def ls0_def cbpBits_def
      st_def cgNum_def st0_def env_def lambda2_def ts_def pr_def rm_def sl_def scaled_def nq_def
      add_def resi_def qc_def qbits_def cp_def N_def
    by (rule refl)
  have add0: "0 \<le> add"
  proof -
    have e: "shl 1 (qbits - 1) = 2 ^ nat (qbits - 1)" by (simp add: shl_def)
    have "(2::int) ^ nat (qbits - 1) \<le> 2 ^ 30"
      using qb by (intro power_increasing) auto
    then have "(2::int) ^ nat (qbits - 1) \<le> 1073741824" by simp
    moreover have "(0::int) \<le> 2 ^ nat (qbits - 1)" by simp
    ultimately have "s32 (2 ^ nat (qbits - 1)) = 2 ^ nat (qbits - 1)"
      by (intro s32_id) linarith+
    then show ?thesis by (simp add: add_def e)
  qed
  note nqp = nquant_block_props [OF qcp add0, of resi qbits, folded nq_def]
  have bound0: "\<And>out. (\<forall>i<N. \<bar>out ! i\<bar> \<le> \<bar>nq ! i\<bar>) \<Longrightarrow>
      (\<forall>i<N. \<bar>out ! i\<bar> \<le> \<bar>nquant_level (resi ! i) (qc ! i) qbits (s32 (shl 1 (qbits - 1)))\<bar>
                  + (if bSignHideEnabled cu then 1 else 0))"
    using nqp(5) by (simp add: add_def) (smt (verit, best))
  have bound1: "\<And>out d. (\<forall>i<N. \<bar>d ! i\<bar> \<le> \<bar>nq ! i\<bar>) \<Longrightarrow> (\<forall>i<N. \<bar>out ! i\<bar> \<le> \<bar>d ! i\<bar> + 1) \<Longrightarrow>
      bSignHideEnabled cu \<Longrightarrow>
      (\<forall>i<N. \<bar>out ! i\<bar> \<le> \<bar>nquant_level (resi ! i) (qc ! i) qbits (s32 (shl 1 (qbits - 1)))\<bar>
                  + (if bSignHideEnabled cu then 1 else 0))"
    using nqp(5) by (simp add: add_def) (smt (verit, best))
  have grp0: "\<And>out. (\<forall>i<N. \<bar>out ! i\<bar> \<le> \<bar>nq ! i\<bar>) \<Longrightarrow>
      (\<exists>d. (\<forall>i<N. \<bar>d ! i\<bar> \<le> \<bar>nquant_level (resi ! i) (qc ! i) qbits (s32 (shl 1 (qbits - 1)))\<bar>)
            \<and> (\<forall>k. 16 * k + 16 \<le> N \<longrightarrow>
                   group_change d out (scan cp) k \<le> (if bSignHideEnabled cu then 1 else 0)))"
  proof -
    fix out assume a: "\<forall>i<N. \<bar>out ! i\<bar> \<le> \<bar>nq ! i\<bar>"
    have "\<forall>i<N. \<bar>out ! i\<bar> \<le> \<bar>nquant_level (resi ! i) (qc ! i) qbits (s32 (shl 1 (qbits - 1)))\<bar>"
      using a nqp(5) by (simp add: add_def)
    moreover have "\<forall>k. 16 * k + 16 \<le> N \<longrightarrow>
                   group_change out out (scan cp) k \<le> (if bSignHideEnabled cu then 1 else 0)"
      by (simp add: group_change_same)
    ultimately show "\<exists>d. (\<forall>i<N. \<bar>d ! i\<bar> \<le> \<bar>nquant_level (resi ! i) (qc ! i) qbits (s32 (shl 1 (qbits - 1)))\<bar>)
            \<and> (\<forall>k. 16 * k + 16 \<le> N \<longrightarrow>
                   group_change d out (scan cp) k \<le> (if bSignHideEnabled cu then 1 else 0))"
      by blast
  qed
  show ?thesis
  proof (cases "count_nonzero nq = 0")
    case True
    then have "rdoQuant fp goRiceRange groupIdx X265_DEPTH junk q cu log2TrSz ttype = Some (nq, 0)"
      using eq by simp
    then show ?thesis using True nqp(1,2,3) bound0 [of nq] grp0 [of nq] by simp
  next
    case nz: False
    have e_cp: "scan (e_cp env) = scan cp" by (simp add: env_def)
    have sce: "scan_ok N (scan (e_cp env))" using sc by (simp add: e_cp)
    have inv0: "rdo_inv N (scan (e_cp env)) nq (16 * cgNum) st0"
      unfolding rdo_inv_def using jk nqp(1) cg by (simp add: st0_def cgNum_def)
    have inv: "rdo_inv N (scan cp) nq 0 st"
      using rdo_cgs_inv [OF sce nqp(2,1) _ inv0] cg
      by (simp add: st_def cgNum_def e_cp)
    show ?thesis
    proof (cases "r_lastScanPos st < 0")
      case True
      then have "rdoQuant fp goRiceRange groupIdx X265_DEPTH junk q cu log2TrSz ttype
          = Some (r_dstCoeff st, 0)"
        using eq nz by simp
      then show ?thesis
        using rdo_none_props [OF sc inv True] bound0 [of "r_dstCoeff st"] grp0 [of "r_dstCoeff st"]
        by simp
    next
      case False
      then have last: "0 \<le> r_lastScanPos st" by simp
      have lN: "r_lastScanPos st < int N" and cgl: "r_cgLastScanPos st = r_lastScanPos st div 16"
        using inv last by (simp_all add: rdo_inv_def)
      have l31: "r_lastScanPos st < 2147483647" using lN N by simp
      have best: "0 \<le> l_bestLastIdx ls" "l_bestLastIdx ls \<le> r_lastScanPos st + 1"
        using rdo_last_cgs_idx [OF l31, of ls0 env "nat (r_cgLastScanPos st + 1)"] last
        by (simp_all add: ls_def ls0_def)
      from rdo_finish_props [OF sc N nqp(1,3,4) rs inv last best]
      obtain d1 n1 d2 where ap: "rdo_apply_signs resi (scan cp) (l_bestLastIdx ls) (r_dstCoeff st) = (d1, n1)"
        and cl: "rdo_clean (scan cp) (l_bestLastIdx ls) (r_lastScanPos st) d1 = d2"
        and p2: "length d2 = N" "n1 = count_nonzero d2" "signs_agree d2 resi" "in_int16 d2"
          "\<forall>i<N. \<bar>d2 ! i\<bar> \<le> \<bar>nq ! i\<bar>"
        by blast
      have fin: "fin = (if bSignHideEnabled cu \<and> n1 \<ge> 2
            then rdo_signBitHiding resi h (scan cp) (r_cgLastScanPos st) d2 n1
            else Some (d2, n1))"
        by (simp add: fin_def ap cl)
      have eq2: "rdoQuant fp goRiceRange groupIdx X265_DEPTH junk q cu log2TrSz ttype = fin"
        using eq nz False by simp
      show ?thesis
      proof (cases "bSignHideEnabled cu \<and> n1 \<ge> 2")
        case False
        then have "rdoQuant fp goRiceRange groupIdx X265_DEPTH junk q cu log2TrSz ttype = Some (d2, n1)"
          unfolding eq2 fin using False by auto
        then show ?thesis using p2 bound0 [of d2] grp0 [of d2] by simp
      next
        case True
        define K where "K = nat (r_cgLastScanPos st + 1)"
        have K: "16 * K \<le> N"
        proof -
          have "N = 16 * cgNum" using cg unfolding cgNum_def by (rule sym)
          then have cgN: "int N = 16 * int cgNum" by simp
          have "r_lastScanPos st div 16 < int cgNum" using lN cgN by linarith
          moreover have "0 \<le> r_lastScanPos st div 16" using last by simp
          ultimately have "16 * int K \<le> int N" unfolding K_def cgl cgN by simp
          then show ?thesis by linarith
        qed
        have hh: "N \<le> length (h_deltaU h)" "N \<le> length (h_rateIncDown h)"
          "in_int32 (h_deltaU h)" "in_int32 (h_rateIncDown h)" "\<bar>h_rdFactor h\<bar> \<le> 2147483648"
          using inv rd by (simp_all add: h_def rdo_inv_def sl_def rm_def pr_def lambda2_def)
        from rdo_sbh_groups_props [OF sc hh K p2(1,3,4), of n1 1]
        obtain q' n' lc' where g: "rdo_sbh_groups resi h (scan cp) K (d2, n1, 1) = Some (q', n', lc')"
          and p3: "length q' = N" "signs_agree q' resi" "in_int16 q'"
            "n1 = count_nonzero d2 \<and> N \<le> 1024 \<longrightarrow> n' = count_nonzero q'"
            "\<forall>i<N. \<bar>q' ! i\<bar> \<le> \<bar>d2 ! i\<bar> + 1"
          and adj: "\<forall>k<K. group_adjusted d2 q' (scan cp) k"
          and oth: "\<forall>i<N. (\<forall>k<K. \<forall>m<16. i \<noteq> scan cp ! (m + 16 * k)) \<longrightarrow> q' ! i = d2 ! i"
          by blast
        have chg: "\<forall>k. 16 * k + 16 \<le> N \<longrightarrow> group_change d2 q' (scan cp) k \<le> 1"
        proof (intro allI impI)
          fix k assume k: "16 * k + 16 \<le> N"
          show "group_change d2 q' (scan cp) k \<le> 1"
          proof (cases "k < K")
            case True
            then have "group_adjusted d2 q' (scan cp) k" using adj by simp
            then show ?thesis by (simp add: group_adjusted_def split: if_splits)
          next
            case False
            have "\<And>m. m < 16 \<Longrightarrow> q' ! (scan cp ! (m + push_bit LOG2_SCAN_SET_SIZE k))
                            = d2 ! (scan cp ! (m + push_bit LOG2_SCAN_SET_SIZE k))"
            proof -
              fix m :: nat assume m: "m < 16"
              have "scan cp ! (m + 16 * k) < N" using scan_nth_lt [OF sc] k m by simp
              moreover have "\<forall>k'<K. \<forall>m'<16. scan cp ! (m + 16 * k) \<noteq> scan cp ! (m' + 16 * k')"
              proof (intro allI impI)
                fix k' m' :: nat assume h: "k' < K" "m' < 16"
                have "16 * k' + 16 \<le> N" using h(1) K by simp
                moreover have "k \<noteq> k'" using False h(1) by simp
                ultimately show "scan cp ! (m + 16 * k) \<noteq> scan cp ! (m' + 16 * k')"
                  using groups_disjoint [OF sc k _ _ m h(2)] by simp
              qed
              ultimately have "q' ! (scan cp ! (m + 16 * k)) = d2 ! (scan cp ! (m + 16 * k))"
                using oth by blast
              then show "q' ! (scan cp ! (m + push_bit LOG2_SCAN_SET_SIZE k))
                            = d2 ! (scan cp ! (m + push_bit LOG2_SCAN_SET_SIZE k))"
                by (simp add: subPos_eq)
            qed
            then have "group_change d2 q' (scan cp) k = 0" by (rule group_change_same)
            then show ?thesis by simp
          qed
        qed
        have grp1: "\<exists>d. (\<forall>i<N. \<bar>d ! i\<bar> \<le> \<bar>nquant_level (resi ! i) (qc ! i) qbits (s32 (shl 1 (qbits - 1)))\<bar>)
            \<and> (\<forall>k. 16 * k + 16 \<le> N \<longrightarrow>
                   group_change d q' (scan cp) k \<le> (if bSignHideEnabled cu then 1 else 0))"
        proof -
          have "\<forall>i<N. \<bar>d2 ! i\<bar> \<le> \<bar>nquant_level (resi ! i) (qc ! i) qbits (s32 (shl 1 (qbits - 1)))\<bar>"
            using p2(5) nqp(5) by (simp add: add_def)
          moreover have "\<forall>k. 16 * k + 16 \<le> N \<longrightarrow>
                   group_change d2 q' (scan cp) k \<le> (if bSignHideEnabled cu then 1 else 0)"
            using chg True by simp
          ultimately show ?thesis by blast
        qed
        have "rdoQuant fp goRiceRange groupIdx X265_DEPTH junk q cu log2TrSz ttype = Some (q', n')"
          unfolding eq2 fin using True g by (simp add: rdo_signBitHiding_def K_def)
        then show ?thesis using p3 p2(2) N bound1 [OF p2(5) p3(5)] grp1 True by simp
      qed
    qed
  qed
qed

subsection \<open>\<open>quant\<close> as a whole\<close>

lemma signBitHidingHDQ_props:
  assumes sc: "scan_ok N (scan cp)" and cg: "16 * push_bit (log2TrSizeCG cp * 2) (1::nat) = N"
    and lend: "length deltaU = N" and dr: "in_int32 deltaU"
    and len: "length q = N" and ag: "signs_agree q coef" and rg: "in_int16 q"
  shows "\<exists>q' n'. signBitHidingHDQ q coef deltaU numSig cp = Some (q', n')
           \<and> length q' = N \<and> signs_agree q' coef \<and> in_int16 q'
           \<and> (numSig = count_nonzero q \<and> N \<le> 1024 \<longrightarrow> n' = count_nonzero q')
           \<and> (\<forall>k<push_bit (log2TrSizeCG cp * 2) (1::nat). group_adjusted q q' (scan cp) k)
           \<and> (\<forall>i<N. \<bar>q' ! i\<bar> \<le> \<bar>q ! i\<bar> + 1)"
proof -
  define K where "K = push_bit (log2TrSizeCG cp * 2) (1::nat)"
  have K: "16 * K \<le> N" using cg by (simp add: K_def)
  from hdq_groups_props [OF sc lend dr K len ag rg, of numSig 1]
  obtain q' n' lc' where g: "hdq_groups coef deltaU (scan cp) K (q, numSig, 1) = Some (q', n', lc')"
    and p: "length q' = N" "signs_agree q' coef" "in_int16 q'"
      "numSig = count_nonzero q \<and> N \<le> 1024 \<longrightarrow> n' = count_nonzero q'"
      "\<forall>k<K. group_adjusted q q' (scan cp) k"
      "\<forall>i<N. \<bar>q' ! i\<bar> \<le> \<bar>q ! i\<bar> + 1"
    by blast
  have "signBitHidingHDQ q coef deltaU numSig cp = Some (q', n')"
    using g by (simp add: signBitHidingHDQ_def K_def)
  then show ?thesis using p unfolding K_def by blast
qed

lemma quant_add_nonneg:
  assumes "qbits \<le> 31" "x = 171 \<or> x = 85"
  shows "0 \<le> s32 (shl x (qbits - 9))"
proof -
  have e: "shl x (qbits - 9) = x * 2 ^ nat (qbits - 9)" by (simp add: shl_def push_bit_eq_mult)
  have "(2::int) ^ nat (qbits - 9) \<le> 2 ^ 22"
    using assms by (intro power_increasing) auto
  then have p: "(2::int) ^ nat (qbits - 9) \<le> 4194304" by simp
  have p0: "(0::int) < 2 ^ nat (qbits - 9)" by simp
  have "x * 2 ^ nat (qbits - 9) \<le> 171 * 4194304"
    using assms(2) p p0 by (intro mult_mono) auto
  moreover have "0 \<le> x * 2 ^ nat (qbits - 9)" using assms(2) p0 by auto
  ultimately have "s32 (x * 2 ^ nat (qbits - 9)) = x * 2 ^ nat (qbits - 9)"
    by (intro s32_id) linarith+
  then show ?thesis using \<open>0 \<le> x * 2 ^ nat (qbits - 9)\<close> by (simp add: e)
qed

lemma quant_props:
  fixes q :: "'d Quant"
  assumes N_def: "N = push_bit (log2TrSz * 2) (1::nat)"
    and cp_def: "cp = getTUEntropyCodingParameters cu"
    and qbits_def: "qbits = QUANT_SHIFT + per (m_qpParam q ttype)
                     + (MAX_TR_DYNAMIC_RANGE - X265_DEPTH - int log2TrSz)"
    and qc_def: "qc = m_quantCoef (m_scalingList q) (log2TrSz - 2)
                   ((if isIntra cu then 0 else 3) + ttype) (nat (rem (m_qpParam q ttype)))"
    and resi_def: "resi = m_resiDctCoeff q"
    and sc: "scan_ok N (scan cp)"
    and cg: "16 * push_bit (log2TrSizeCG cp * 2) (1::nat) = N" and N: "N \<le> 1024"
    and qb: "qbits \<le> 31"
    and qcp: "\<forall>i<N. 0 \<le> qc ! i"
  shows "\<exists>out n. quant X265_DEPTH q cu log2TrSz ttype = Some (out, n)
     \<and> length out = N \<and> n = count_nonzero out \<and> signs_agree out resi \<and> in_int16 out"
proof -
  define add where "add = s32 (shl (if isISlice cu then 171 else 85) (qbits - 9))"
  define nq where "nq = map (\<lambda>i. nquant_level (resi ! i) (qc ! i) qbits add) [0..<N]"
  define deltaU where "deltaU = map (\<lambda>i. quant_deltaU (resi ! i) (qc ! i) qbits add) [0..<N]"
  have eq: "quant X265_DEPTH q cu log2TrSz ttype
     = (if count_nonzero nq \<ge> 2 \<and> bSignHideEnabled cu
        then signBitHidingHDQ nq resi deltaU (count_nonzero nq) cp
        else Some (nq, count_nonzero nq))"
    unfolding quant_def quant_prim_eq Let_def prod.case deltaU_def nq_def add_def resi_def qc_def
      qbits_def cp_def N_def
    by (rule refl)
  have add0: "0 \<le> add" unfolding add_def by (rule quant_add_nonneg [OF qb]) simp
  note nqp = nquant_block_props [OF qcp add0, of resi qbits, folded nq_def]
  have du: "length deltaU = N" "in_int32 deltaU"
    unfolding deltaU_def using quant_deltaU_int32 by simp_all
  show ?thesis
  proof (cases "count_nonzero nq \<ge> 2 \<and> bSignHideEnabled cu")
    case False
    then have "quant X265_DEPTH q cu log2TrSz ttype = Some (nq, count_nonzero nq)"
      unfolding eq by auto
    then show ?thesis using nqp by simp
  next
    case True
    from signBitHidingHDQ_props [OF sc cg du nqp(1,3,2), of "count_nonzero nq"]
    obtain q' n' where g: "signBitHidingHDQ nq resi deltaU (count_nonzero nq) cp = Some (q', n')"
      and p: "length q' = N" "signs_agree q' resi" "in_int16 q'"
        "count_nonzero nq = count_nonzero nq \<and> N \<le> 1024 \<longrightarrow> n' = count_nonzero q'"
      by blast
    have "quant X265_DEPTH q cu log2TrSz ttype = Some (q', n')"
      unfolding eq using True g by simp
    then show ?thesis using p N by simp
  qed
qed


section \<open>The bypass copies and \<open>transformNxN\<close>\<close>

lemma count_nonzero_take_Suc:
  assumes "p < length c"
  shows "count_nonzero (take (Suc p) c) = count_nonzero (take p c) + (if c ! p \<noteq> 0 then 1 else 0)"
  using assms by (simp add: take_Suc_conv_app_nth count_nonzero_def)

lemma count_nonzero_le_length: "0 \<le> count_nonzero c \<and> count_nonzero c \<le> int (length c)"
  unfolding count_nonzero_def by simp

lemma bypass_row:
  assumes tr: "0 < trSz" and L: "trSz * trSz \<le> L" "L < 4294967296" and k: "k < trSz"
  shows "m \<le> trSz \<Longrightarrow> bypass_fwd_inv trSz stride residual L (k * trSz) acc \<Longrightarrow>
    bypass_fwd_inv trSz stride residual L (k * trSz + m)
      (fold (\<lambda>j (coeff, numSig).
                        (coeff[k * trSz + j := sint (residual ! (k * stride + j))],
                         u32 (numSig + (if residual ! (k * stride + j) \<noteq> 0 then 1 else 0))))
          [0..<m] acc)"
proof (induction m)
  case 0
  then show ?case by simp
next
  case (Suc m)
  define a1 where "a1 = fold (\<lambda>j (coeff, numSig).
                        (coeff[k * trSz + j := sint (residual ! (k * stride + j))],
                         u32 (numSig + (if residual ! (k * stride + j) \<noteq> 0 then 1 else 0))))
          [0..<m] acc"
  obtain c n where a1: "a1 = (c, n)" by (cases a1)
  have inv: "bypass_fwd_inv trSz stride residual L (k * trSz + m) (c, n)"
    using Suc unfolding a1_def [symmetric] a1 by simp
  define p where "p = k * trSz + m"
  have len: "length c = L" and n: "n = count_nonzero (take p c)"
    and v: "\<forall>i<p. c ! i = sint (residual ! ((i div trSz) * stride + i mod trSz))"
    using inv by (simp_all add: bypass_fwd_inv_def p_def)
  have "k * trSz + m < k * trSz + trSz" using Suc.prems by simp
  also have "\<dots> = (k + 1) * trSz" by simp
  also have "\<dots> \<le> trSz * trSz" using k by (metis Suc_eq_plus1 Suc_leI mult.commute mult_le_mono2)
  finally have pL: "p < L" using L by (simp add: p_def)
  have dm: "p div trSz = k" "p mod trSz = m" using Suc.prems tr by (simp_all add: p_def)
  define x where "x = residual ! (k * stride + m)"
  define c' where "c' = c[p := sint x]"
  have n0: "0 \<le> n" "n \<le> int p"
    using count_nonzero_le_length [of "take p c"] n len pL by auto
  have u: "u32 (n + (if x \<noteq> 0 then 1 else 0)) = n + (if x \<noteq> 0 then 1 else 0)"
    using n0 pL L by (intro u32_id) auto
  have step: "fold (\<lambda>j (coeff, numSig).
                        (coeff[k * trSz + j := sint (residual ! (k * stride + j))],
                         u32 (numSig + (if residual ! (k * stride + j) \<noteq> 0 then 1 else 0))))
          [0..<Suc m] acc = (c', n + (if x \<noteq> 0 then 1 else 0))"
    by (simp add: a1_def [symmetric] a1 c'_def x_def p_def u [unfolded x_def])
  have t: "take p c' = take p c" by (simp add: c'_def)
  have cp: "c' ! p = sint x" using pL len by (simp add: c'_def)
  have sx: "(sint x \<noteq> 0) = (x \<noteq> 0)" by (simp add: signed_eq_0_iff)
  have lc': "p < length c'" using pL len by (simp add: c'_def)
  have cnt: "count_nonzero (take (Suc p) c') = n + (if x \<noteq> 0 then 1 else 0)"
    unfolding count_nonzero_take_Suc [OF lc'] t cp sx n ..
  have vals: "\<forall>i<Suc p. c' ! i = sint (residual ! ((i div trSz) * stride + i mod trSz))"
  proof (intro allI impI)
    fix i assume i: "i < Suc p"
    show "c' ! i = sint (residual ! ((i div trSz) * stride + i mod trSz))"
    proof (cases "i = p")
      case True
      then show ?thesis using cp dm by (simp add: x_def)
    next
      case False
      then show ?thesis using v i by (simp add: c'_def)
    qed
  qed
  show ?case
    unfolding step bypass_fwd_inv_def using len cnt vals by (simp add: c'_def p_def)
qed

lemma bypass_rows:
  assumes tr: "0 < trSz" and L: "trSz * trSz \<le> L" "L < 4294967296"
  shows "k \<le> trSz \<Longrightarrow> bypass_fwd_inv trSz stride residual L 0 acc \<Longrightarrow>
    bypass_fwd_inv trSz stride residual L (k * trSz)
      (fold (\<lambda>k. fold (\<lambda>j (coeff, numSig).
                        (coeff[k * trSz + j := sint (residual ! (k * stride + j))],
                         u32 (numSig + (if residual ! (k * stride + j) \<noteq> 0 then 1 else 0))))
                  [0..<trSz]) [0..<k] acc)"
proof (induction k)
  case 0
  then show ?case by simp
next
  case (Suc k)
  have "bypass_fwd_inv trSz stride residual L (k * trSz + trSz)
      (fold (\<lambda>j (coeff, numSig).
                        (coeff[k * trSz + j := sint (residual ! (k * stride + j))],
                         u32 (numSig + (if residual ! (k * stride + j) \<noteq> 0 then 1 else 0))))
          [0..<trSz] (fold (\<lambda>k. fold (\<lambda>j (coeff, numSig).
                        (coeff[k * trSz + j := sint (residual ! (k * stride + j))],
                         u32 (numSig + (if residual ! (k * stride + j) \<noteq> 0 then 1 else 0))))
                  [0..<trSz]) [0..<k] acc))"
    using Suc by (intro bypass_row [OF tr L]) simp_all
  then show ?case by (simp add: add.commute)
qed

lemma residual_block_nth:
  assumes "i < trSz * trSz"
  shows "residual_block trSz stride residual ! i = residual ! ((i div trSz) * stride + i mod trSz)"
    and "length (residual_block trSz stride residual) = trSz * trSz"
proof -
  have tr: "0 < trSz" using assms by (cases trSz) auto
  have d: "i div trSz < trSz" using assms tr by (simp add: less_mult_imp_div_less)
  show "residual_block trSz stride residual ! i = residual ! ((i div trSz) * stride + i mod trSz)"
    unfolding residual_block_def using assms d tr by (simp add: product_nth)
  show "length (residual_block trSz stride residual) = trSz * trSz"
    by (simp add: residual_block_def)
qed

lemma bypass_fwd_props:
  assumes tr: "0 < trSz" and L: "length coeff = trSz * trSz" "trSz * trSz < 4294967296"
  shows "\<exists>out n. bypass_fwd trSz stride residual (coeff, 0) = (out, n)
     \<and> length out = trSz * trSz \<and> n = count_nonzero out
     \<and> out = map sint (residual_block trSz stride residual)"
proof -
  obtain out n where r: "bypass_fwd trSz stride residual (coeff, 0) = (out, n)"
    by (cases "bypass_fwd trSz stride residual (coeff, 0)")
  have i0: "bypass_fwd_inv trSz stride residual (trSz * trSz) 0 (coeff, 0)"
    using L by (simp add: bypass_fwd_inv_def count_nonzero_def)
  have "bypass_fwd_inv trSz stride residual (trSz * trSz) (trSz * trSz) (out, n)"
    using bypass_rows [where L = "trSz * trSz" and k = trSz, OF tr _ L(2) _ i0] r
    by (simp add: bypass_fwd_def)
  then have len: "length out = trSz * trSz" and n: "n = count_nonzero out"
    and v: "\<forall>i<trSz * trSz. out ! i = sint (residual ! ((i div trSz) * stride + i mod trSz))"
    by (simp_all add: bypass_fwd_inv_def)
  have "out = map sint (residual_block trSz stride residual)"
  proof (rule nth_equalityI)
    show "length out = length (map sint (residual_block trSz stride residual))"
      by (simp add: len residual_block_def)
  next
    fix i assume "i < length out"
    then have i: "i < trSz * trSz" by (simp add: len)
    show "out ! i = map sint (residual_block trSz stride residual) ! i"
      using i v residual_block_nth [OF i, of stride residual] by simp
  qed
  then show ?thesis using r len n by blast
qed

text \<open>The inverse bypass copy.\<close>

lemma stride_inj:
  assumes "trSz \<le> stride" "j < trSz" "j' < trSz" "k * stride + j = k' * stride + j'"
  shows "k = k' \<and> j = (j'::nat)"
proof -
  have a: "j < stride" "j' < stride" using assms by auto
  have "(k * stride + j) div stride = k" "(k' * stride + j') div stride = k'"
    using a by simp_all
  then have "k = k'" using assms(4) by metis
  then show ?thesis using assms(4) by simp
qed

lemma bypass_inv_row:
  assumes st: "trSz \<le> stride" and L: "(trSz - 1) * stride + trSz \<le> L" and k: "k < trSz"
  shows "m \<le> trSz \<Longrightarrow> bypass_inv_inv trSz stride coeff L k 0 r \<Longrightarrow>
    bypass_inv_inv trSz stride coeff L k m
      (fold (\<lambda>j residual. residual[k * stride + j := of_int (coeff ! (k * trSz + j))]) [0..<m] r)"
proof (induction m)
  case 0
  then show ?case by simp
next
  case (Suc m)
  define r1 where "r1 = fold (\<lambda>j residual. residual[k * stride + j := of_int (coeff ! (k * trSz + j))]) [0..<m] r"
  have inv: "bypass_inv_inv trSz stride coeff L k m r1" using Suc unfolding r1_def by simp
  have m: "m < trSz" using Suc.prems by simp
  have "k * stride \<le> (trSz - 1) * stride" using k by (intro mult_le_mono1) simp
  then have idx: "k * stride + m < L" using L m by linarith
  define r2 where "r2 = r1[k * stride + m := of_int (coeff ! (k * trSz + m))]"
  have e: "fold (\<lambda>j residual. residual[k * stride + j := of_int (coeff ! (k * trSz + j))]) [0..<Suc m] r = r2"
    by (simp add: r1_def r2_def)
  have len: "length r1 = L" using inv by (simp add: bypass_inv_inv_def)
  have "\<forall>k' j'. j' < trSz \<and> (k' < k \<or> (k' = k \<and> j' < Suc m)) \<longrightarrow>
        r2 ! (k' * stride + j') = of_int (coeff ! (k' * trSz + j'))"
  proof (intro allI impI)
    fix k' j' assume h: "j' < trSz \<and> (k' < k \<or> (k' = k \<and> j' < Suc m))"
    show "r2 ! (k' * stride + j') = of_int (coeff ! (k' * trSz + j'))"
    proof (cases "k' = k \<and> j' = m")
      case True
      then show ?thesis using idx len by (simp add: r2_def)
    next
      case False
      then have "k * stride + m \<noteq> k' * stride + j'"
        using stride_inj [OF st m, of j' k k'] h by auto
      moreover have "r1 ! (k' * stride + j') = of_int (coeff ! (k' * trSz + j'))"
        using inv h False by (auto simp: bypass_inv_inv_def less_Suc_eq)
      ultimately show ?thesis by (simp add: r2_def)
    qed
  qed
  then show ?case unfolding e bypass_inv_inv_def using len by (simp add: r2_def)
qed

lemma bypass_inv_rows:
  assumes st: "trSz \<le> stride" and L: "(trSz - 1) * stride + trSz \<le> L"
  shows "k \<le> trSz \<Longrightarrow> length r = L \<Longrightarrow>
    bypass_inv_inv trSz stride coeff L k 0
      (fold (\<lambda>k. fold (\<lambda>j residual. residual[k * stride + j := of_int (coeff ! (k * trSz + j))])
                  [0..<trSz]) [0..<k] r)"
proof (induction k)
  case 0
  then show ?case by (simp add: bypass_inv_inv_def)
next
  case (Suc k)
  define r1 where "r1 = fold (\<lambda>k. fold (\<lambda>j residual. residual[k * stride + j := of_int (coeff ! (k * trSz + j))])
                  [0..<trSz]) [0..<k] r"
  have "bypass_inv_inv trSz stride coeff L k 0 r1" using Suc unfolding r1_def by simp
  then have "bypass_inv_inv trSz stride coeff L k trSz
      (fold (\<lambda>j residual. residual[k * stride + j := of_int (coeff ! (k * trSz + j))]) [0..<trSz] r1)"
    using Suc.prems by (intro bypass_inv_row [OF st L]) simp_all
  then have "bypass_inv_inv trSz stride coeff L (Suc k) 0
      (fold (\<lambda>j residual. residual[k * stride + j := of_int (coeff ! (k * trSz + j))]) [0..<trSz] r1)"
    by (auto simp: bypass_inv_inv_def less_Suc_eq)
  then show ?case by (simp add: r1_def)
qed

lemma bypass_inv_props:
  assumes st: "trSz \<le> stride" and L: "(trSz - 1) * stride + trSz \<le> length r"
    and c: "length coeff = trSz * trSz"
  shows "residual_block trSz stride (bypass_inv trSz stride coeff r) = map of_int coeff"
proof -
  have inv: "bypass_inv_inv trSz stride coeff (length r) trSz 0 (bypass_inv trSz stride coeff r)"
    unfolding bypass_inv_def by (rule bypass_inv_rows [OF st L]) simp_all
  show ?thesis
  proof (rule nth_equalityI)
    show "length (residual_block trSz stride (bypass_inv trSz stride coeff r)) = length (map of_int coeff)"
      by (simp add: residual_block_def c)
  next
    fix i assume "i < length (residual_block trSz stride (bypass_inv trSz stride coeff r))"
    then have i: "i < trSz * trSz" by (simp add: residual_block_def)
    then have tr: "0 < trSz" by (cases trSz) auto
    have d: "i div trSz < trSz" "i mod trSz < trSz" using i tr by (simp_all add: less_mult_imp_div_less)
    have "bypass_inv trSz stride coeff r ! ((i div trSz) * stride + i mod trSz)
        = of_int (coeff ! ((i div trSz) * trSz + i mod trSz))"
      using inv d by (simp add: bypass_inv_inv_def)
    then show "residual_block trSz stride (bypass_inv trSz stride coeff r) ! i = map of_int coeff ! i"
      using i c by (simp add: residual_block_nth)
  qed
qed

lemma quant_ok_iff:
  "quant_ok X265_DEPTH q cu log2TrSz ttype \<longleftrightarrow>
     scan_ok (push_bit (log2TrSz * 2) (1::nat)) (scan (getTUEntropyCodingParameters cu))
     \<and> 16 * push_bit (log2TrSizeCG (getTUEntropyCodingParameters cu) * 2) (1::nat)
         = push_bit (log2TrSz * 2) (1::nat)
     \<and> push_bit (log2TrSz * 2) (1::nat) \<le> 1024
     \<and> QUANT_SHIFT + per (m_qpParam q ttype) + (MAX_TR_DYNAMIC_RANGE - X265_DEPTH - int log2TrSz) \<le> 31
     \<and> (\<forall>i<push_bit (log2TrSz * 2) (1::nat).
           0 \<le> m_quantCoef (m_scalingList q) (log2TrSz - 2) ((if isIntra cu then 0 else 3) + ttype)
                 (nat (rem (m_qpParam q ttype))) ! i)"
  unfolding quant_ok_def Let_def list_all_iff by auto

lemma rdoq_ok_iff:
  "rdoq_ok fp X265_DEPTH junk q log2TrSz ttype \<longleftrightarrow>
     1 \<le> QUANT_SHIFT + per (m_qpParam q ttype) + (MAX_TR_DYNAMIC_RANGE - X265_DEPTH - int log2TrSz)
     \<and> (\<forall>i<push_bit (log2TrSz * 2) (1::nat).
           - 2147483648 \<le> m_resiDctCoeff q ! i \<and> m_resiDctCoeff q ! i \<le> 2147483647)
     \<and> in_int32 (r_deltaU junk) \<and> in_int32 (r_rateIncDown junk)
     \<and> push_bit (log2TrSz * 2) (1::nat) \<le> length (r_deltaU junk)
     \<and> push_bit (log2TrSz * 2) (1::nat) \<le> length (r_rateIncDown junk)
     \<and> \<bar>rdo_rdFactor fp (s_invQuantScales (m_scalingList q) ! nat (rem (m_qpParam q ttype)))
              (per (m_qpParam q ttype)) (m_lambdas q ttype)\<bar> \<le> 2147483648"
  unfolding rdoq_ok_def Let_def list_all_iff by auto

lemma rdoQuant_ok_props:
  assumes a: "quant_ok X265_DEPTH q cu log2TrSz ttype"
    and b: "rdoq_ok fp X265_DEPTH junk q log2TrSz ttype"
  shows "\<exists>out n. rdoQuant fp goRiceRange groupIdx X265_DEPTH junk q cu log2TrSz ttype = Some (out, n)
     \<and> length out = push_bit (log2TrSz * 2) (1::nat) \<and> n = count_nonzero out
     \<and> signs_agree out (m_resiDctCoeff q) \<and> in_int16 out
     \<and> (\<forall>i<push_bit (log2TrSz * 2) (1::nat). \<bar>out ! i\<bar> \<le>
           \<bar>nquant_level (m_resiDctCoeff q ! i)
              (m_quantCoef (m_scalingList q) (log2TrSz - 2) ((if isIntra cu then 0 else 3) + ttype)
                 (nat (rem (m_qpParam q ttype))) ! i)
              (QUANT_SHIFT + per (m_qpParam q ttype) + (MAX_TR_DYNAMIC_RANGE - X265_DEPTH - int log2TrSz))
              (s32 (shl 1 (QUANT_SHIFT + per (m_qpParam q ttype)
                 + (MAX_TR_DYNAMIC_RANGE - X265_DEPTH - int log2TrSz) - 1)))\<bar>
           + (if bSignHideEnabled cu then 1 else 0))
     \<and> (\<exists>d. (\<forall>i<push_bit (log2TrSz * 2) (1::nat). \<bar>d ! i\<bar> \<le>
           \<bar>nquant_level (m_resiDctCoeff q ! i)
              (m_quantCoef (m_scalingList q) (log2TrSz - 2) ((if isIntra cu then 0 else 3) + ttype)
                 (nat (rem (m_qpParam q ttype))) ! i)
              (QUANT_SHIFT + per (m_qpParam q ttype) + (MAX_TR_DYNAMIC_RANGE - X265_DEPTH - int log2TrSz))
              (s32 (shl 1 (QUANT_SHIFT + per (m_qpParam q ttype)
                 + (MAX_TR_DYNAMIC_RANGE - X265_DEPTH - int log2TrSz) - 1)))\<bar>)
          \<and> (\<forall>k. 16 * k + 16 \<le> push_bit (log2TrSz * 2) (1::nat) \<longrightarrow>
                 group_change d out (scan (getTUEntropyCodingParameters cu)) k
                   \<le> (if bSignHideEnabled cu then 1 else 0)))"
  using a b unfolding quant_ok_iff rdoq_ok_iff
  by (intro rdoQuant_props [OF refl refl refl refl refl]) blast+

lemma quant_ok_props:
  assumes a: "quant_ok X265_DEPTH q cu log2TrSz ttype"
  shows "\<exists>out n. quant X265_DEPTH q cu log2TrSz ttype = Some (out, n)
     \<and> length out = push_bit (log2TrSz * 2) (1::nat) \<and> n = count_nonzero out
     \<and> signs_agree out (m_resiDctCoeff q) \<and> in_int16 out"
  using a unfolding quant_ok_iff
  by (intro quant_props [OF refl refl refl refl refl]) blast+

lemma sint16_int16: "in_int16 (map sint (xs :: 16 word list))"
proof -
  have "\<And>x :: 16 word. - 32768 \<le> sint x \<and> sint x \<le> 32767"
  proof -
    fix x :: "16 word"
    show "- 32768 \<le> sint x \<and> sint x \<le> 32767" using sint_ge [of x] sint_lt [of x] by simp
  qed
  then show ?thesis by (simp add: in_int16_iff)
qed


lemma trSz_square: "push_bit l (1::nat) * push_bit l 1 = push_bit (l * 2) 1"
  by (simp add: push_bit_eq_mult power_add [symmetric] mult_2_right)

lemma trSz_bound:
  assumes "l \<le> 5"
  shows "push_bit l (1::nat) * push_bit l 1 < 4294967296"
proof -
  have "(2::nat) ^ (l * 2) \<le> 2 ^ 10" using assms by (intro power_increasing) auto
  then show ?thesis unfolding trSz_square by (simp add: push_bit_eq_mult)
qed

lemma transformNxN_props:
  assumes ok: "encode_ok fp X265_DEPTH prim junk q cu fenc fencStride residual stride coeff
                 log2TrSz ttype useTransformSkip curUseRDOQ"
  shows "\<exists>out n q'. transformNxN fp goRiceRange groupIdx X265_DEPTH prim junk q cu fenc fencStride
                       residual stride coeff log2TrSz ttype useTransformSkip curUseRDOQ
                     = Some (out, n, q')
     \<and> length out = push_bit (log2TrSz * 2) (1::nat) \<and> n = count_nonzero out \<and> in_int16 out
     \<and> (if getCUTransquantBypass cu
         then q' = q \<and> out = map sint (residual_block (push_bit log2TrSz 1) stride residual)
         else q' = transformNxN_dct X265_DEPTH prim q cu fenc fencStride residual stride log2TrSz
                     ttype useTransformSkip
              \<and> signs_agree out (m_resiDctCoeff q'))"
proof (cases "getCUTransquantBypass cu")
  case True
  then have c: "length coeff = push_bit log2TrSz 1 * push_bit log2TrSz 1" "log2TrSz \<le> 5"
    using ok by (simp_all add: encode_ok_def)
  have tr: "0 < push_bit log2TrSz (1::nat)" by (simp add: push_bit_eq_mult)
  from bypass_fwd_props [OF tr c(1) trSz_bound [OF c(2)], of stride residual]
  obtain out n where r: "bypass_fwd (push_bit log2TrSz 1) stride residual (coeff, 0) = (out, n)"
    and p: "length out = push_bit log2TrSz 1 * push_bit log2TrSz 1" "n = count_nonzero out"
      "out = map sint (residual_block (push_bit log2TrSz 1) stride residual)"
    by blast
  have "transformNxN fp goRiceRange groupIdx X265_DEPTH prim junk q cu fenc fencStride
                       residual stride coeff log2TrSz ttype useTransformSkip curUseRDOQ
                     = Some (out, n, q)"
    using True r by (simp add: transformNxN_def)
  moreover have "in_int16 out" unfolding p(3) by (rule sint16_int16)
  moreover have "length out = push_bit (log2TrSz * 2) (1::nat)" using p(1) unfolding trSz_square .
  ultimately have "transformNxN fp goRiceRange groupIdx X265_DEPTH prim junk q cu fenc fencStride
                       residual stride coeff log2TrSz ttype useTransformSkip curUseRDOQ
                     = Some (out, n, q)
     \<and> length out = push_bit (log2TrSz * 2) (1::nat) \<and> n = count_nonzero out \<and> in_int16 out
     \<and> (if getCUTransquantBypass cu
         then q = q \<and> out = map sint (residual_block (push_bit log2TrSz 1) stride residual)
         else q = transformNxN_dct X265_DEPTH prim q cu fenc fencStride residual stride log2TrSz
                     ttype useTransformSkip
              \<and> signs_agree out (m_resiDctCoeff q))"
    using True p(2,3) by (simp only: if_True simp_thms)
  then show ?thesis by (intro exI)
next
  case False
  define q' where "q' = transformNxN_dct X265_DEPTH prim q cu fenc fencStride residual stride
                          log2TrSz ttype useTransformSkip"
  have qo: "quant_ok X265_DEPTH q' cu log2TrSz ttype"
    and ro: "m_useRDOQ q' \<and> curUseRDOQ \<Longrightarrow> rdoq_ok fp X265_DEPTH junk q' log2TrSz ttype"
    using ok False by (simp_all add: encode_ok_def Let_def q'_def)
  have eq: "transformNxN fp goRiceRange groupIdx X265_DEPTH prim junk q cu fenc fencStride
                       residual stride coeff log2TrSz ttype useTransformSkip curUseRDOQ
     = (case (if m_useRDOQ q' \<and> curUseRDOQ
                  then rdoQuant fp goRiceRange groupIdx X265_DEPTH junk q' cu log2TrSz ttype
                  else quant X265_DEPTH q' cu log2TrSz ttype) of
              None \<Rightarrow> None
            | Some (coeff, numSig) \<Rightarrow> Some (coeff, numSig, q'))"
    unfolding transformNxN_def Let_def q'_def using False by (simp only: if_False)
  show ?thesis
  proof (cases "m_useRDOQ q' \<and> curUseRDOQ")
    case True
    from rdoQuant_ok_props [OF qo ro [OF True], of goRiceRange groupIdx]
    obtain out n where r: "rdoQuant fp goRiceRange groupIdx X265_DEPTH junk q' cu log2TrSz ttype = Some (out, n)"
      and p: "length out = push_bit (log2TrSz * 2) (1::nat)" "n = count_nonzero out"
        "signs_agree out (m_resiDctCoeff q')" "in_int16 out"
      by blast
    have "transformNxN fp goRiceRange groupIdx X265_DEPTH prim junk q cu fenc fencStride
                       residual stride coeff log2TrSz ttype useTransformSkip curUseRDOQ
                     = Some (out, n, q')"
      unfolding eq using True r by simp
    then show ?thesis using False p unfolding q'_def by simp
  next
    case nr: False
    from quant_ok_props [OF qo]
    obtain out n where r: "quant X265_DEPTH q' cu log2TrSz ttype = Some (out, n)"
      and p: "length out = push_bit (log2TrSz * 2) (1::nat)" "n = count_nonzero out"
        "signs_agree out (m_resiDctCoeff q')" "in_int16 out"
      by blast
    have "transformNxN fp goRiceRange groupIdx X265_DEPTH prim junk q cu fenc fencStride
                       residual stride coeff log2TrSz ttype useTransformSkip curUseRDOQ
                     = Some (out, n, q')"
      unfolding eq using nr r by auto
    then show ?thesis using False p unfolding q'_def by simp
  qed
qed


section \<open>The encode path: counts, signs, bounds and ranges\<close>

lemma nquant_level_candidate:
  assumes qc: "0 \<le> qc" and qb: "1 \<le> qbits" "qbits \<le> 31"
  shows "\<bar>nquant_level c qc qbits (s32 (shl 1 (qbits - 1)))\<bar> \<le> plain_candidate c qc qbits"
proof -
  define n where "n = nat qbits"
  have n: "1 \<le> n" "qbits = int n" using qb by (simp_all add: n_def)
  have e: "shl 1 (qbits - 1) = 2 ^ (n - 1)" using qb by (simp add: shl_def n_def nat_diff_distrib)
  have "(2::int) ^ (n - 1) \<le> 2 ^ 30" using qb by (intro power_increasing) (auto simp: n_def)
  then have "(2::int) ^ (n - 1) \<le> 1073741824" by simp
  moreover have "(0::int) \<le> 2 ^ (n - 1)" by simp
  ultimately have s: "s32 (2 ^ (n - 1)) = 2 ^ (n - 1)" by (intro s32_id) linarith+
  have a0: "0 \<le> \<bar>c\<bar> * qc" using qc by simp
  have "\<bar>nquant_level c qc qbits (2 ^ (n - 1))\<bar> \<le> shr (\<bar>c\<bar> * qc + 2 ^ (n - 1)) qbits"
    by (rule nquant_level_props(4) [OF qc]) simp
  also have "\<dots> \<le> \<lceil>real_of_int (\<bar>c\<bar> * qc) / 2 ^ n\<rceil>"
    unfolding n(2) by (rule round_le_ceiling [OF a0 n(1)])
  also have "\<bar>c\<bar> * qc = \<bar>c * qc\<bar>" using qc by (simp add: abs_mult)
  finally have "\<bar>nquant_level c qc qbits (2 ^ (n - 1))\<bar> \<le> \<lceil>real_of_int \<bar>c * qc\<bar> / 2 ^ n\<rceil>" .
  then have "\<bar>nquant_level c qc qbits (s32 (shl 1 (qbits - 1)))\<bar> \<le> \<lceil>real_of_int \<bar>c * qc\<bar> / 2 ^ n\<rceil>"
    unfolding e s .
  then show ?thesis unfolding plain_candidate_def n_def .
qed

text \<open>
  Claim C1.  For every valid call of \<open>transformNxN\<close>, whichever path it takes (the bypass
  copy, the plain quantiser with or without sign-bit hiding, or \<open>rdoQuant\<close>), the call returns
  and the returned \<open>numSig\<close> is the number of nonzero entries of the output coefficient block.
\<close>

theorem transformNxN_numSig:
  assumes "encode_ok fp X265_DEPTH prim junk q cu fenc fencStride residual stride coeff
             log2TrSz ttype useTransformSkip curUseRDOQ"
  shows "\<exists>out numSig q'.
           transformNxN fp goRiceRange groupIdx X265_DEPTH prim junk q cu fenc fencStride
             residual stride coeff log2TrSz ttype useTransformSkip curUseRDOQ
           = Some (out, numSig, q')
           \<and> numSig = count_nonzero out"
  using transformNxN_props [OF assms, of goRiceRange groupIdx] by blast

theorem transformNxN_numSig_witness:
  "\<exists>out numSig q'.
     transformNxN ex_fp [7, 14, 26, 46, 78] ex_gidx 8 ex_prim ex_junk ex_q ex_cu [] 4 ex_resi 4
       (replicate 16 0) 2 0 False True
     = Some (out, numSig, q')
     \<and> numSig = count_nonzero out"
proof -
  have "encode_ok ex_fp 8 ex_prim ex_junk ex_q ex_cu [] 4 ex_resi 4 (replicate 16 0) 2 0 False True"
    by code_simp
  then show ?thesis by (rule transformNxN_numSig)
qed

lemma group_excess_le_change:
  assumes sc: "scan_ok N scn" and k: "16 * k + 16 \<le> N"
    and c: "\<forall>i<N. \<bar>d ! i\<bar> \<le> cand ! i"
  shows "group_excess out cand scn k \<le> group_change d out scn k"
  unfolding group_excess_def group_change_def SCAN_SET_SIZE_def subPos_eq
proof (rule sum_list_mono)
  fix n :: nat assume "n \<in> set [0..<16]"
  then have "n + 16 * k < N" using k by simp
  then have "scn ! (n + 16 * k) < N" by (rule scan_nth_lt [OF sc])
  then have "\<bar>d ! (scn ! (n + 16 * k))\<bar> \<le> cand ! (scn ! (n + 16 * k))" using c by blast
  then show "max 0 (\<bar>out ! (scn ! (n + 16 * k))\<bar> - cand ! (scn ! (n + 16 * k)))
             \<le> \<bar>out ! (scn ! (n + 16 * k)) - d ! (scn ! (n + 16 * k))\<bar>"
    by linarith
qed

lemma rdoq_candidates_nth:
  assumes "i < push_bit (log2TrSz * 2) (1::nat)"
  shows "rdoq_candidates X265_DEPTH q cu log2TrSz ttype ! i
       = plain_candidate (m_resiDctCoeff q ! i)
           (m_quantCoef (m_scalingList q) (log2TrSz - 2)
              ((if isIntra cu then 0 else 3) + ttype) (nat (rem (m_qpParam q ttype))) ! i)
           (QUANT_SHIFT + per (m_qpParam q ttype)
              + (MAX_TR_DYNAMIC_RANGE - X265_DEPTH - int log2TrSz))"
  using assms by (simp add: rdoq_candidates_def Let_def)


text \<open>
  Claim C2, as the code has it.  For every valid call of \<open>transformNxN\<close> that is not a
  transform-quant bypass and every position \<open>i\<close> of the block, the call returns, and if the
  output coefficient at \<open>i\<close> is nonzero then its sign is the sign of the DCT coefficient at \<open>i\<close>
  when that coefficient is nonzero, and it is positive when that coefficient is zero.  The DCT
  coefficients are \<open>m_resiDctCoeff\<close> as the transform stage has left it.
\<close>

theorem transformNxN_signs:
  assumes "encode_ok fp X265_DEPTH prim junk q cu fenc fencStride residual stride coeff
             log2TrSz ttype useTransformSkip curUseRDOQ"
    and "\<not> getCUTransquantBypass cu"
    and "i < push_bit (log2TrSz * 2) (1::nat)"
  shows "\<exists>out numSig.
           transformNxN fp goRiceRange groupIdx X265_DEPTH prim junk q cu fenc fencStride
             residual stride coeff log2TrSz ttype useTransformSkip curUseRDOQ
           = Some (out, numSig,
               transformNxN_dct X265_DEPTH prim q cu fenc fencStride residual stride log2TrSz
                 ttype useTransformSkip)
           \<and> (out ! i \<noteq> 0 \<longrightarrow>
                sgn (out ! i)
                  = (if m_resiDctCoeff
                          (transformNxN_dct X265_DEPTH prim q cu fenc fencStride residual stride
                             log2TrSz ttype useTransformSkip) ! i = 0
                     then 1
                     else sgn (m_resiDctCoeff
                                 (transformNxN_dct X265_DEPTH prim q cu fenc fencStride residual
                                    stride log2TrSz ttype useTransformSkip) ! i)))"
proof -
  define q' where "q' = transformNxN_dct X265_DEPTH prim q cu fenc fencStride residual stride
                          log2TrSz ttype useTransformSkip"
  from transformNxN_props [OF assms(1), of goRiceRange groupIdx] assms(2)
  obtain out n where r: "transformNxN fp goRiceRange groupIdx X265_DEPTH prim junk q cu fenc
                           fencStride residual stride coeff log2TrSz ttype useTransformSkip
                           curUseRDOQ = Some (out, n, q')"
    and len: "length out = push_bit (log2TrSz * 2) (1::nat)"
    and ag: "signs_agree out (m_resiDctCoeff q')"
    unfolding q'_def by auto
  have "out ! i \<noteq> 0 \<longrightarrow> (out ! i < 0 \<longleftrightarrow> m_resiDctCoeff q' ! i < 0)"
    using ag assms(3) len by (simp add: signs_agree_iff)
  then have "out ! i \<noteq> 0 \<longrightarrow>
      sgn (out ! i) = (if m_resiDctCoeff q' ! i = 0 then 1 else sgn (m_resiDctCoeff q' ! i))"
    by (auto simp: sgn_if)
  then show ?thesis using r unfolding q'_def by blast
qed

theorem transformNxN_signs_witness:
  "\<exists>out numSig.
     transformNxN ex_fp [7, 14, 26, 46, 78] ex_gidx 8 ex8_prim ex_junk ex8_q ex8_cu [] 8
       (replicate 64 0) 8 (replicate 64 0) 3 0 False False
     = Some (out, numSig, transformNxN_dct 8 ex8_prim ex8_q ex8_cu [] 8 (replicate 64 0) 8 3 0 False)
     \<and> (out ! 2 \<noteq> 0 \<longrightarrow> sgn (out ! 2) = 1)"
proof -
  have a: "encode_ok ex_fp 8 ex8_prim ex_junk ex8_q ex8_cu [] 8 (replicate 64 0) 8
             (replicate 64 0) 3 0 False False"
    by code_simp
  have b: "\<not> getCUTransquantBypass ex8_cu" by code_simp
  have c: "2 < push_bit (3 * 2) (1::nat)" by simp
  have d: "m_resiDctCoeff (transformNxN_dct 8 ex8_prim ex8_q ex8_cu [] 8 (replicate 64 0) 8 3 0
             False) ! 2 = 16"
    by code_simp
  show ?thesis
    using transformNxN_signs [OF a b c, of "[7, 14, 26, 46, 78]" ex_gidx] unfolding d by simp
qed

text \<open>
  The claim C2 itself fails when the sign of a zero coefficient is read as zero.  On the 8x8
  block of the example the call is valid and takes the plain quantiser; the levels are 2 and 1
  at the scan positions 0 and 5 of the first coefficient group and 2 in the second group, all
  with the quantisation error 0.  In the first group the parity of the sum 3 differs from the
  sign bit 0 of the first coefficient; the group is not the last one, so the search starts at
  its scan position 15, where the level is 0 and the cost \<open>-deltaU = 0\<close> is the first one below
  \<open>MAX_INT\<close>, and no later cost is below 0.  The pass raises the coefficient at the block
  position 27 from 0 to 1, where the DCT coefficient is 0.
\<close>

theorem transformNxN_signs_counterexample:
  "encode_ok ex_fp 8 ex8_prim ex_junk ex8_q ex8_cu [] 8 (replicate 64 0) 8 (replicate 64 0) 3 0
     False False
   \<and> \<not> getCUTransquantBypass ex8_cu
   \<and> map_option (\<lambda>(out, numSig, q'). (out, numSig, m_resiDctCoeff q'))
       (transformNxN ex_fp [7, 14, 26, 46, 78] ex_gidx 8 ex8_prim ex_junk ex8_q ex8_cu [] 8
          (replicate 64 0) 8 (replicate 64 0) 3 0 False False)
     = Some ([2, 0, 1, 0, 0, 0, 0, 0] @ replicate 16 0 @ [0, 0, 0, 1, 0, 0, 0, 0]
               @ [2, 0, 0, 0, 0, 0, 0, 0] @ replicate 24 0, 4, ex8_dct)
   \<and> ex8_dct ! 27 = 0
   \<and> ([2, 0, 1, 0, 0, 0, 0, 0] @ replicate 16 0 @ [0, 0, 0, 1, 0, 0, 0, 0]
        @ [2, 0, 0, 0, 0, 0, 0, 0] @ replicate 24 (0::int)) ! 27 = 1
   \<and> sgn (1::int) \<noteq> sgn 0"
proof -
  have a: "encode_ok ex_fp 8 ex8_prim ex_junk ex8_q ex8_cu [] 8 (replicate 64 0) 8
             (replicate 64 0) 3 0 False False"
    by code_simp
  have b: "\<not> getCUTransquantBypass ex8_cu" by code_simp
  have c: "map_option (\<lambda>(out, numSig, q'). (out, numSig, m_resiDctCoeff q'))
       (transformNxN ex_fp [7, 14, 26, 46, 78] ex_gidx 8 ex8_prim ex_junk ex8_q ex8_cu [] 8
          (replicate 64 0) 8 (replicate 64 0) 3 0 False False)
     = Some ([2, 0, 1, 0, 0, 0, 0, 0] @ replicate 16 0 @ [0, 0, 0, 1, 0, 0, 0, 0]
               @ [2, 0, 0, 0, 0, 0, 0, 0] @ replicate 24 0, 4, ex8_dct)"
    by code_simp
  have d: "ex8_dct ! 27 = 0" by code_simp
  have e: "([2, 0, 1, 0, 0, 0, 0, 0] @ replicate 16 0 @ [0, 0, 0, 1, 0, 0, 0, 0]
        @ [2, 0, 0, 0, 0, 0, 0, 0] @ replicate 24 (0::int)) ! 27 = 1"
    by code_simp
  show ?thesis using a b c d e by simp
qed

text \<open>
  Claim C3, as the code has it.  For every valid call of \<open>rdoQuant\<close>, every position \<open>i\<close> of the
  block and every coefficient group \<open>subSet\<close>, the call returns and:
  the magnitude of the output coefficient at \<open>i\<close> is at most the plain-quant candidate
  \<open>ceil(|dct[i] * quantCoef[i]| / 2^qbits)\<close> when sign-bit hiding is disabled, and at most the
  candidate plus one when it is enabled;
  the amounts by which the magnitudes of the group exceed their candidates sum to 0 when
  sign-bit hiding is disabled and to at most 1 when it is enabled, so at most one coefficient of
  a group is above its candidate, by one;
  and the level search of a coefficient with the candidate level \<open>maxAbsLevel\<close> returns 0,
  \<open>maxAbsLevel\<close> or \<open>max(maxAbsLevel - 1, 1)\<close>.
\<close>

theorem rdoQuant_candidate_bound:
  assumes "quant_ok X265_DEPTH q cu log2TrSz ttype"
    and "rdoq_ok fp X265_DEPTH junk q log2TrSz ttype"
    and "i < push_bit (log2TrSz * 2) (1::nat)"
    and "subSet < push_bit (log2TrSizeCG (getTUEntropyCodingParameters cu) * 2) (1::nat)"
    and "0 \<le> maxAbsLevel" and "maxAbsLevel \<le> 32767"
  shows "\<exists>out numSig.
           rdoQuant fp goRiceRange groupIdx X265_DEPTH junk q cu log2TrSz ttype = Some (out, numSig)
           \<and> \<bar>out ! i\<bar> \<le> rdoq_candidates X265_DEPTH q cu log2TrSz ttype ! i
                            + (if bSignHideEnabled cu then 1 else 0)
           \<and> group_excess out (rdoq_candidates X265_DEPTH q cu log2TrSz ttype)
               (scan (getTUEntropyCodingParameters cu)) subSet
               \<le> (if bSignHideEnabled cu then 1 else 0)
           \<and> fst (rdo_level_est env scanPos blkPos patternSigCtx maxAbsLevel c1c2Idx baseLevel
                     gOneBits lAbsBits st)
               \<in> {0, maxAbsLevel, max (maxAbsLevel - 1) 1}"
proof -
  define N where "N = push_bit (log2TrSz * 2) (1::nat)"
  define qbits where "qbits = QUANT_SHIFT + per (m_qpParam q ttype)
                    + (MAX_TR_DYNAMIC_RANGE - X265_DEPTH - int log2TrSz)"
  define qc where "qc = m_quantCoef (m_scalingList q) (log2TrSz - 2)
                    ((if isIntra cu then 0 else 3) + ttype) (nat (rem (m_qpParam q ttype)))"
  define cand where "cand = rdoq_candidates X265_DEPTH q cu log2TrSz ttype"
  define scn where "scn = scan (getTUEntropyCodingParameters cu)"
  have k: "\<forall>i<N. 0 \<le> qc ! i" "1 \<le> qbits" "qbits \<le> 31"
    and sc: "scan_ok N scn"
    and cg: "16 * push_bit (log2TrSizeCG (getTUEntropyCodingParameters cu) * 2) (1::nat) = N"
    using assms(1,2) unfolding quant_ok_iff rdoq_ok_iff qc_def qbits_def N_def scn_def by blast+
  have cn: "\<And>j. j < N \<Longrightarrow> cand ! j = plain_candidate (m_resiDctCoeff q ! j) (qc ! j) qbits"
    unfolding cand_def N_def qc_def qbits_def by (rule rdoq_candidates_nth)
  have nc: "\<And>j. j < N \<Longrightarrow>
      \<bar>nquant_level (m_resiDctCoeff q ! j) (qc ! j) qbits (s32 (shl 1 (qbits - 1)))\<bar> \<le> cand ! j"
    using nquant_level_candidate [OF _ k(2,3)] k(1) cn by simp
  from rdoQuant_ok_props [OF assms(1,2), of goRiceRange groupIdx]
  obtain out n d where
    r: "rdoQuant fp goRiceRange groupIdx X265_DEPTH junk q cu log2TrSz ttype = Some (out, n)"
    and b: "\<forall>j<N. \<bar>out ! j\<bar> \<le>
              \<bar>nquant_level (m_resiDctCoeff q ! j) (qc ! j) qbits (s32 (shl 1 (qbits - 1)))\<bar>
              + (if bSignHideEnabled cu then 1 else 0)"
    and d: "\<forall>j<N. \<bar>d ! j\<bar> \<le>
              \<bar>nquant_level (m_resiDctCoeff q ! j) (qc ! j) qbits (s32 (shl 1 (qbits - 1)))\<bar>"
    and g: "\<forall>k. 16 * k + 16 \<le> N \<longrightarrow>
              group_change d out scn k \<le> (if bSignHideEnabled cu then 1 else 0)"
    unfolding qc_def qbits_def N_def scn_def by blast
  have iN: "i < N" using assms(3) by (simp add: N_def)
  have p1: "\<bar>out ! i\<bar> \<le> cand ! i + (if bSignHideEnabled cu then 1 else 0)"
    using b [rule_format, OF iN] nc [OF iN] by linarith
  have sN: "16 * subSet + 16 \<le> N" using assms(4) cg by simp
  have dc: "\<forall>j<N. \<bar>d ! j\<bar> \<le> cand ! j" using d nc order_trans by blast
  have "group_excess out cand scn subSet \<le> group_change d out scn subSet"
    by (rule group_excess_le_change [OF sc sN dc])
  also have "\<dots> \<le> (if bSignHideEnabled cu then 1 else 0)" using g sN by blast
  finally have p2: "group_excess out cand scn subSet \<le> (if bSignHideEnabled cu then 1 else 0)" .
  have p3: "fst (rdo_level_est env scanPos blkPos patternSigCtx maxAbsLevel c1c2Idx baseLevel
                     gOneBits lAbsBits st)
               \<in> {0, maxAbsLevel, max (maxAbsLevel - 1) 1}"
    using assms(5,6) by (intro rdo_level_est_values) auto
  show ?thesis using r p1 p2 p3 unfolding cand_def scn_def by blast
qed

theorem rdoQuant_candidate_bound_witness:
  "\<exists>out numSig.
     rdoQuant ex_fp [7, 14, 26, 46, 78] ex_gidx 8 ex_junk ex_q ex_cu 2 0 = Some (out, numSig)
     \<and> \<bar>out ! 2\<bar> \<le> rdoq_candidates 8 ex_q ex_cu 2 0 ! 2 + 1
     \<and> group_excess out (rdoq_candidates 8 ex_q ex_cu 2 0) (scan ex_cp) 0 \<le> 1
     \<and> fst (rdo_level_est ex_env 5 2 0 2 0 1 [327680, 0] [0, 0] ex_junk) \<in> {0, 2, 1}"
proof -
  have a: "quant_ok 8 ex_q ex_cu 2 0" by code_simp
  have b: "rdoq_ok ex_fp 8 ex_junk ex_q 2 0" by code_simp
  have c: "2 < push_bit (2 * 2) (1::nat)" by simp
  have d: "0 < push_bit (log2TrSizeCG (getTUEntropyCodingParameters ex_cu) * 2) (1::nat)"
    by (simp add: ex_cu_def ex_cp_def)
  have e: "(0::int) \<le> 2" "(2::int) \<le> 32767" by simp_all
  have f: "bSignHideEnabled ex_cu" "getTUEntropyCodingParameters ex_cu = ex_cp"
    by (simp_all add: ex_cu_def)
  show ?thesis
    using rdoQuant_candidate_bound [OF a b c d e, of "[7, 14, 26, 46, 78]" ex_gidx ex_env 5 2 0
        0 1 "[327680, 0]" "[0, 0]" ex_junk]
    by (simp add: f)
qed

text \<open>
  The claim C3 itself fails.  On the 4x4 block of the example the call is valid, the DCT
  coefficient 64 at position 2 is quantised with the factor 16384 and \<open>qbits = 19\<close>, so the
  plain-quant candidate is \<open>ceil(64 * 16384 / 2^19) = 2\<close>; the level search keeps the levels 2
  at the positions 0 and 2, the parity of their sum differs from the sign bit of the first
  coefficient, and the sign-bit-hiding pass raises the coefficient at position 2 to 3.
\<close>

theorem rdoQuant_counterexample:
  "quant_ok 8 ex_q ex_cu 2 0 \<and> rdoq_ok ex_fp 8 ex_junk ex_q 2 0
   \<and> rdoQuant ex_fp [7, 14, 26, 46, 78] ex_gidx 8 ex_junk ex_q ex_cu 2 0
       = Some ([- 2, 0, 3, 0, 0, 0, 0, 0, 0, 0, 0, 0, 0, 0, 0, 0], 2)
   \<and> plain_candidate (m_resiDctCoeff ex_q ! 2) (m_quantCoef (m_scalingList ex_q) 0 0 4 ! 2) 19 = 2
   \<and> rdoq_candidates 8 ex_q ex_cu 2 0 ! 2 = 2"
proof -
  have a: "quant_ok 8 ex_q ex_cu 2 0" by code_simp
  have b: "rdoq_ok ex_fp 8 ex_junk ex_q 2 0" by code_simp
  have c: "rdoQuant ex_fp [7, 14, 26, 46, 78] ex_gidx 8 ex_junk ex_q ex_cu 2 0
       = Some ([- 2, 0, 3, 0, 0, 0, 0, 0, 0, 0, 0, 0, 0, 0, 0, 0], 2)"
    by code_simp
  have d: "plain_candidate (m_resiDctCoeff ex_q ! 2) (m_quantCoef (m_scalingList ex_q) 0 0 4 ! 2) 19 = 2"
    by (simp add: plain_candidate_def ex_q_def ex_sl_def)
  have e: "rdoq_candidates 8 ex_q ex_cu 2 0 ! 2 = 2"
    by (simp add: rdoq_candidates_nth plain_candidate_def ex_q_def ex_sl_def ex_cu_def
        QUANT_SHIFT_def MAX_TR_DYNAMIC_RANGE_def)
  show ?thesis using a b c d e by blast
qed

text \<open>
  Claim C4.  For every valid call of \<open>transformNxN\<close> the call returns and every output
  coefficient lies in \<open>[-32768, 32767]\<close>.
\<close>

theorem transformNxN_int16:
  assumes "encode_ok fp X265_DEPTH prim junk q cu fenc fencStride residual stride coeff
             log2TrSz ttype useTransformSkip curUseRDOQ"
  shows "\<exists>out numSig q'.
           transformNxN fp goRiceRange groupIdx X265_DEPTH prim junk q cu fenc fencStride
             residual stride coeff log2TrSz ttype useTransformSkip curUseRDOQ
           = Some (out, numSig, q')
           \<and> length out = push_bit (log2TrSz * 2) (1::nat) \<and> in_int16 out"
  using transformNxN_props [OF assms, of goRiceRange groupIdx] by blast

theorem transformNxN_int16_witness:
  "\<exists>out numSig q'.
     transformNxN ex_fp [7, 14, 26, 46, 78] ex_gidx 8 ex_prim ex_junk ex_q ex_cu [] 4 ex_resi 4
       (replicate 16 0) 2 0 False True
     = Some (out, numSig, q')
     \<and> length out = push_bit (2 * 2) (1::nat) \<and> in_int16 out"
proof -
  have "encode_ok ex_fp 8 ex_prim ex_junk ex_q ex_cu [] 4 ex_resi 4 (replicate 16 0) 2 0 False True"
    by code_simp
  then show ?thesis by (rule transformNxN_int16)
qed


section \<open>Sign-bit hiding and the bypass round trip\<close>

text \<open>
  Claim C5.  After the sign-bit-hiding pass of the plain quantiser, for every coefficient group:
  if the last and the first nonzero coefficient of the group are at least \<open>SBH_THRESHOLD\<close> scan
  positions apart, the sign bit of the first nonzero coefficient (0 for positive, 1 for
  negative) is the parity of the sum of the absolute values of the group; the pass has changed
  exactly one coefficient of the group by one if the group had such a distance and a parity
  mismatch, and none otherwise; and the first nonzero coefficient of the group has not become
  zero.
\<close>

theorem signBitHidingHDQ_hides_sign:
  assumes "scan_ok N (scan cp)"
    and "16 * push_bit (log2TrSizeCG cp * 2) (1::nat) = N"
    and "length deltaU = N" and "in_int32 deltaU"
    and "length qCoef = N" and "signs_agree qCoef coef" and "in_int16 qCoef"
    and "subSet < push_bit (log2TrSizeCG cp * 2) (1::nat)"
  shows "\<exists>q' numSig'.
           signBitHidingHDQ qCoef coef deltaU numSig cp = Some (q', numSig')
           \<and> sign_hidden q' (scan cp) subSet
           \<and> group_change qCoef q' (scan cp) subSet
               = (if parity_mismatch qCoef (scan cp) subSet then 1 else 0)
           \<and> first_kept qCoef q' (scan cp) subSet"
proof -
  from signBitHidingHDQ_props [OF assms(1-7), of numSig]
  obtain q' n' where r: "signBitHidingHDQ qCoef coef deltaU numSig cp = Some (q', n')"
    and g: "\<forall>k<push_bit (log2TrSizeCG cp * 2) (1::nat). group_adjusted qCoef q' (scan cp) k"
    by blast
  have "group_adjusted qCoef q' (scan cp) subSet" using g assms(8) by blast
  then show ?thesis using r unfolding group_adjusted_def by blast
qed

theorem signBitHidingHDQ_hides_sign_witness:
  "\<exists>q' numSig'.
     signBitHidingHDQ [2, 0, - 1, 0, 0, 0, 0, 0, 0, 0, 0, 0, 0, 0, 0, 0]
       [700, 90, - 300, 0, 100, 0, 0, 0, 0, 0, 0, 0, 0, 0, 0, 0]
       [40, 90, - 20, 0, 100, 0, 0, 0, 0, 0, 0, 0, 0, 0, 0, 0] 2 ex_cp = Some (q', numSig')
     \<and> sign_hidden q' (scan ex_cp) 0
     \<and> group_change [2, 0, - 1, 0, 0, 0, 0, 0, 0, 0, 0, 0, 0, 0, 0, 0] q' (scan ex_cp) 0 = 1
     \<and> first_kept [2, 0, - 1, 0, 0, 0, 0, 0, 0, 0, 0, 0, 0, 0, 0, 0] q' (scan ex_cp) 0"
proof -
  have a: "scan_ok 16 (scan ex_cp)" by code_simp
  have b: "16 * push_bit (log2TrSizeCG ex_cp * 2) (1::nat) = 16" by code_simp
  have c: "length [40, 90, - 20, 0, 100, 0, 0, 0, 0, 0, 0, 0, 0, 0, 0, 0 :: int] = 16" by simp
  have d: "in_int32 [40, 90, - 20, 0, 100, 0, 0, 0, 0, 0, 0, 0, 0, 0, 0, 0]" by code_simp
  have e: "length [2, 0, - 1, 0, 0, 0, 0, 0, 0, 0, 0, 0, 0, 0, 0, 0 :: int] = 16" by simp
  have f: "signs_agree [2, 0, - 1, 0, 0, 0, 0, 0, 0, 0, 0, 0, 0, 0, 0, 0]
             [700, 90, - 300, 0, 100, 0, 0, 0, 0, 0, 0, 0, 0, 0, 0, 0]" by code_simp
  have g: "in_int16 [2, 0, - 1, 0, 0, 0, 0, 0, 0, 0, 0, 0, 0, 0, 0, 0]" by code_simp
  have h: "0 < push_bit (log2TrSizeCG ex_cp * 2) (1::nat)" by code_simp
  have m: "parity_mismatch [2, 0, - 1, 0, 0, 0, 0, 0, 0, 0, 0, 0, 0, 0, 0, 0] (scan ex_cp) 0"
    by code_simp
  show ?thesis
    using signBitHidingHDQ_hides_sign [OF a b c d e f g h, of 2] m by simp
qed

text \<open>
  Claim C6.  With transform-quant bypass, \<open>transformNxN\<close> returns the residual block as the
  coefficient block and the number of its nonzero samples as \<open>numSig\<close>; \<open>invtransformNxN\<close>
  writes the coefficient block back into the block of the residual buffer it is given; after
  the two calls that block holds the samples of the original residual block.
\<close>

theorem bypass_round_trip:
  assumes "getCUTransquantBypass cu"
    and "length coeff = push_bit log2TrSz 1 * push_bit log2TrSz 1" and "log2TrSz \<le> 5"
    and "push_bit log2TrSz 1 \<le> stride"
    and "(push_bit log2TrSz 1 - 1) * stride + push_bit log2TrSz 1 \<le> length target"
  shows "\<exists>out numSig.
           transformNxN fp goRiceRange groupIdx X265_DEPTH prim junk q cu fenc fencStride
             residual stride coeff log2TrSz ttype useTransformSkip curUseRDOQ
           = Some (out, numSig, q)
           \<and> out = map sint (residual_block (push_bit log2TrSz 1) stride residual)
           \<and> numSig = int (length (filter (\<lambda>x. x \<noteq> 0)
                                    (residual_block (push_bit log2TrSz 1) stride residual)))
           \<and> residual_block (push_bit log2TrSz 1) stride
                (fst (invtransformNxN X265_DEPTH prim q2 True target stride out log2TrSz ttype
                        bIntra useTransformSkip2 numSig2))
              = map of_int out
           \<and> map of_int out = residual_block (push_bit log2TrSz 1) stride residual"
proof -
  define blk where "blk = residual_block (push_bit log2TrSz 1) stride residual"
  have ok: "encode_ok fp X265_DEPTH prim junk q cu fenc fencStride residual stride coeff
             log2TrSz ttype useTransformSkip curUseRDOQ"
    using assms(1,2,3) by (simp add: encode_ok_def)
  from transformNxN_props [OF ok, of goRiceRange groupIdx]
  obtain out n where r: "transformNxN fp goRiceRange groupIdx X265_DEPTH prim junk q cu fenc fencStride
             residual stride coeff log2TrSz ttype useTransformSkip curUseRDOQ = Some (out, n, q)"
    and n: "n = count_nonzero out" and o: "out = map sint blk"
    using assms(1) unfolding blk_def by auto
  have "filter (\<lambda>x. x \<noteq> 0) (map sint blk) = map sint (filter (\<lambda>x. x \<noteq> 0) blk)"
    by (simp add: filter_map comp_def signed_eq_0_iff)
  then have n': "n = int (length (filter (\<lambda>x. x \<noteq> 0) blk))"
    unfolding n o count_nonzero_def by simp
  have lo: "length out = push_bit log2TrSz 1 * push_bit log2TrSz 1"
    unfolding o blk_def by (simp add: residual_block_def)
  have bk: "residual_block (push_bit log2TrSz 1) stride
                (fst (invtransformNxN X265_DEPTH prim q2 True target stride out log2TrSz ttype
                        bIntra useTransformSkip2 numSig2))
              = map of_int out"
    using bypass_inv_props [OF assms(4,5) lo] by (simp add: invtransformNxN_def)
  have ident: "map of_int out = blk" unfolding o by (simp add: comp_def)
  show ?thesis using r o n' bk ident unfolding blk_def by blast
qed

theorem bypass_round_trip_witness:
  "\<exists>out numSig.
     transformNxN ex_fp [7, 14, 26, 46, 78] ex_gidx 8 ex_prim ex_junk ex_q ex_cu_bypass [] 4
       ex_resi 4 (replicate 16 0) 2 0 False True
     = Some (out, numSig, ex_q)
     \<and> out = map sint (residual_block (push_bit 2 1) 4 ex_resi)
     \<and> numSig = int (length (filter (\<lambda>x. x \<noteq> 0) (residual_block (push_bit 2 1) 4 ex_resi)))
     \<and> residual_block (push_bit 2 1) 4
          (fst (invtransformNxN 8 ex_prim ex_q True (replicate 16 0) 4 out 2 0 True False 4))
        = map of_int out
     \<and> map of_int out = residual_block (push_bit 2 1) 4 ex_resi"
proof -
  have a: "getCUTransquantBypass ex_cu_bypass" by code_simp
  have b: "length (replicate 16 (0::int)) = push_bit 2 1 * push_bit 2 1" by simp
  have c: "(2::nat) \<le> 5" by simp
  have d: "push_bit 2 1 \<le> (4::nat)" by simp
  have e: "(push_bit 2 1 - 1) * 4 + push_bit 2 1 \<le> length (replicate 16 (0 :: 16 word))" by simp
  show ?thesis by (rule bypass_round_trip [OF a b c d e])
qed

text \<open>
  Claim C9.  In both sign-bit-hiding passes, for a coefficient group whose last and first
  nonzero coefficients are at least \<open>SBH_THRESHOLD\<close> scan positions apart, the search loop
  started at \<open>start\<close> ends with \<open>minCostInc\<close> below the sentinel (\<open>MAX_INT\<close>, \<open>MAX_INT64\<close>) and with
  \<open>minPos\<close> the block position of a scan position of the group, so \<open>minPos\<close> is not -1 and
  indexes the block.  The search of the plain quantiser reads \<open>int\<close> values in \<open>deltaU\<close>; that of
  \<open>rdoQuant\<close> reads \<open>int\<close> values in \<open>deltaU\<close> and \<open>rateIncDown\<close> and an \<open>rdFactor\<close> of magnitude at
  most \<open>2^31\<close>.
\<close>

theorem sbh_search_finds_position:
  assumes "scan_ok N scn"
    and "subPos = push_bit LOG2_SCAN_SET_SIZE subSet" and "subPos + 16 \<le> N"
    and "0 \<le> lastNZPos q scn subPos SCAN_SET_SIZE"
    and "lastNZ = nat (lastNZPos q scn subPos SCAN_SET_SIZE)"
    and "firstNZ = firstNZPos q scn subPos lastNZ 0"
    and "int lastNZ - int firstNZ \<ge> SBH_THRESHOLD"
    and "start = (if lastCG = 1 then lastNZ else SCAN_SET_SIZE - 1)"
    and "in_int32 deltaU" and "N \<le> length deltaU"
    and "in_int32 (h_deltaU h)" and "N \<le> length (h_deltaU h)"
    and "in_int32 (h_rateIncDown h)" and "N \<le> length (h_rateIncDown h)"
    and "\<bar>h_rdFactor h\<bar> \<le> 2147483648"
  shows "(let s = hdq_search q coef deltaU scn subPos firstNZ signbit (Suc start) (sbh_init MAX_INT)
          in minCostInc s < MAX_INT \<and> 0 \<le> minPos s \<and> minPos s < int N
             \<and> sbh_selected q coef scn subPos firstNZ signbit SCAN_SET_SIZE s)
       \<and> (let s = rdo_sbh_search q coef h scn subPos lastCG lastNZ firstNZ signbit (Suc start)
                     (sbh_init MAX_INT64)
          in minCostInc s < MAX_INT64 \<and> 0 \<le> minPos s \<and> minPos s < int N
             \<and> sbh_selected q coef scn subPos firstNZ signbit SCAN_SET_SIZE s)"
proof -
  have l0: "0 \<le> lastNZPos q scn subPos 16" using assms(4) by (simp add: SCAN_SET_SIZE_def)
  have lz: "lastNZ = nat (lastNZPos q scn subPos 16)" using assms(5) by (simp add: SCAN_SET_SIZE_def)
  note fl = group_first_last [OF l0, folded lz, folded assms(6)]
  have lf: "lastNZ \<noteq> firstNZ" using assms(7) by (auto simp: SBH_THRESHOLD_def)
  have st: "lastNZ \<le> start" "Suc start \<le> 16"
    using fl(1) assms(8) by (auto simp: SCAN_SET_SIZE_def)
  have mpN: "scn ! (lastNZ + subPos) < N"
    using scan_nth_lt [OF assms(1), of "lastNZ + subPos"] fl(1) assms(3) by simp
  have pos: "\<And>s. sbh_selected q coef scn subPos firstNZ signbit 16 s
      \<Longrightarrow> 0 \<le> minPos s \<and> minPos s < int N"
  proof -
    fix s assume "sbh_selected q coef scn subPos firstNZ signbit 16 s"
    then obtain n where n: "n < 16" "minPos s = int (scn ! (n + subPos))"
      unfolding sbh_selected_def by blast
    have "scn ! (n + subPos) < N" using scan_nth_lt [OF assms(1), of "n + subPos"] n(1) assms(3) by simp
    then show "0 \<le> minPos s \<and> minPos s < int N" using n(2) by simp
  qed
  define s1 where "s1 = hdq_search q coef deltaU scn subPos firstNZ signbit (Suc start) (sbh_init MAX_INT)"
  define s2 where "s2 = rdo_sbh_search q coef h scn subPos lastCG lastNZ firstNZ signbit (Suc start)
                     (sbh_init MAX_INT64)"
  have d1: "- 2147483648 \<le> deltaU ! (scn ! (lastNZ + subPos))"
      "deltaU ! (scn ! (lastNZ + subPos)) \<le> 2147483647"
    using assms(9,10) mpN by (auto simp: in_int32_iff)
  have d2: "- 2147483648 \<le> h_deltaU h ! (scn ! (lastNZ + subPos))"
      "h_deltaU h ! (scn ! (lastNZ + subPos)) \<le> 2147483647"
      "- 2147483648 \<le> h_rateIncDown h ! (scn ! (lastNZ + subPos))"
      "h_rateIncDown h ! (scn ! (lastNZ + subPos)) \<le> 2147483647"
    using assms(11,12,13,14) mpN by (auto simp: in_int32_iff)
  have f1: "minCostInc s1 < MAX_INT"
    unfolding s1_def using st(1) fl(3) lf d1 by (intro hdq_search_finds [of lastNZ]) auto
  have i1: "sbh_inv MAX_INT q coef scn subPos firstNZ signbit (Suc start) s1"
    unfolding s1_def by (intro hdq_search_inv sbh_inv_init) simp
  have sel1: "sbh_selected q coef scn subPos firstNZ signbit 16 s1"
    using i1 f1 st(2) by (auto simp: sbh_inv_def intro: sbh_selected_mono)
  have f2: "minCostInc s2 < MAX_INT64"
    unfolding s2_def using st(1) fl(3) lf d2 assms(15)
    by (intro rdo_sbh_search_finds [of lastNZ]) auto
  have i2: "sbh_inv MAX_INT64 q coef scn subPos firstNZ signbit (Suc start) s2"
    unfolding s2_def by (intro rdo_sbh_search_inv sbh_inv_init) simp
  have sel2: "sbh_selected q coef scn subPos firstNZ signbit 16 s2"
    using i2 f2 st(2) by (auto simp: sbh_inv_def intro: sbh_selected_mono)
  show ?thesis
    unfolding Let_def s1_def [symmetric] s2_def [symmetric]
    using f1 sel1 pos [OF sel1] f2 sel2 pos [OF sel2] by (simp add: SCAN_SET_SIZE_def)
qed


theorem sbh_search_finds_position_witness:
  "(let s = hdq_search [2, 0, - 1, 0, 0, 0, 0, 0, 0, 0, 0, 0, 0, 0, 0, 0]
              [700, 90, - 300, 0, 100, 0, 0, 0, 0, 0, 0, 0, 0, 0, 0, 0]
              [40, 90, - 20, 0, 100, 0, 0, 0, 0, 0, 0, 0, 0, 0, 0, 0] ex_scan 0 0 0 (Suc 5)
              (sbh_init MAX_INT)
    in minCostInc s < MAX_INT \<and> 0 \<le> minPos s \<and> minPos s < int 16
       \<and> sbh_selected [2, 0, - 1, 0, 0, 0, 0, 0, 0, 0, 0, 0, 0, 0, 0, 0]
            [700, 90, - 300, 0, 100, 0, 0, 0, 0, 0, 0, 0, 0, 0, 0, 0] ex_scan 0 0 0
            SCAN_SET_SIZE s)
   \<and> (let s = rdo_sbh_search [2, 0, - 1, 0, 0, 0, 0, 0, 0, 0, 0, 0, 0, 0, 0, 0]
              [700, 90, - 300, 0, 100, 0, 0, 0, 0, 0, 0, 0, 0, 0, 0, 0]
              \<lparr>h_deltaU = [40, 90, - 20, 0, 100, 0, 0, 0, 0, 0, 0, 0, 0, 0, 0, 0],
               h_rateIncUp = replicate 16 32768, h_rateIncDown = replicate 16 (- 32768),
               h_sigRateDelta = replicate 16 0, h_rdFactor = 64\<rparr>
              ex_scan 0 1 5 0 0 (Suc 5) (sbh_init MAX_INT64)
    in minCostInc s < MAX_INT64 \<and> 0 \<le> minPos s \<and> minPos s < int 16
       \<and> sbh_selected [2, 0, - 1, 0, 0, 0, 0, 0, 0, 0, 0, 0, 0, 0, 0, 0]
            [700, 90, - 300, 0, 100, 0, 0, 0, 0, 0, 0, 0, 0, 0, 0, 0] ex_scan 0 0 0
            SCAN_SET_SIZE s)"
proof -
  let ?q = "[2, 0, - 1, 0, 0, 0, 0, 0, 0, 0, 0, 0, 0, 0, 0, 0] :: int list"
  let ?d = "[40, 90, - 20, 0, 100, 0, 0, 0, 0, 0, 0, 0, 0, 0, 0, 0] :: int list"
  let ?h = "\<lparr>h_deltaU = ?d, h_rateIncUp = replicate 16 32768,
             h_rateIncDown = replicate 16 (- 32768), h_sigRateDelta = replicate 16 0,
             h_rdFactor = 64\<rparr>"
  have a: "scan_ok 16 ex_scan" by code_simp
  have b: "(0::nat) = push_bit LOG2_SCAN_SET_SIZE 0" by simp
  have c: "(0::nat) + 16 \<le> 16" by simp
  have d: "0 \<le> lastNZPos ?q ex_scan 0 SCAN_SET_SIZE" by code_simp
  have e: "5 = nat (lastNZPos ?q ex_scan 0 SCAN_SET_SIZE)" by code_simp
  have f: "0 = firstNZPos ?q ex_scan 0 5 0" by code_simp
  have g: "int 5 - int 0 \<ge> SBH_THRESHOLD" by code_simp
  have h: "5 = (if (1::int) = 1 then 5 else SCAN_SET_SIZE - 1)" by simp
  have i: "in_int32 ?d" by code_simp
  have j: "16 \<le> length ?d" by simp
  have k: "in_int32 (h_deltaU ?h)" by code_simp
  have l: "16 \<le> length (h_deltaU ?h)" by simp
  have m: "in_int32 (h_rateIncDown ?h)" by code_simp
  have n: "16 \<le> length (h_rateIncDown ?h)" by simp
  have o: "\<bar>h_rdFactor ?h\<bar> \<le> 2147483648" by simp
  show ?thesis
    by (rule sbh_search_finds_position [OF a b c d e f g h i j k l m n o])
qed


end
